(* ===== verification/Prelude.thy ===== *)
theory Prelude
  imports Main "HOL-Library.AList" "HOL-Library.Monad_Syntax"
begin

text \<open>
  The vocabulary shared by every component of the development: Rust's \<open>Result\<close>, the
  wrap-around of \<open>u64\<close> arithmetic, \<open>HashMap\<close> as an association list with distinct
  keys, the environment a handler reads (clock and random numbers), and the generic facts
  on lists, options and majorities that the component proofs use.
\<close>

section \<open>Results\<close>

text \<open>Rust's \<open>Result<T, E>\<close>. A panic is \<^const>\<open>None\<close> of an option type instead.\<close>

datatype ('a, 'e) result = Ok 'a | Err 'e

section \<open>Machine integers\<close>

text \<open>
  A \<open>u64\<close> is a natural number below \<open>2 ^ 64\<close>. The release profile wraps on overflow, so an
  addition on an unchecked counter is written with \<open>u64_add\<close>. Positions that the code has
  compared with the length of a \<open>Vec\<close> are below \<open>2 ^ 63\<close> (a \<open>Vec\<close> holds at most
  \<open>isize::MAX\<close> bytes), so the arithmetic on them is the plain one.
\<close>

type_synonym u64 = nat

definition u64_max :: u64 where
  "u64_max = 2 ^ 64 - 1"

definition u64_add :: "u64 \<Rightarrow> u64 \<Rightarrow> u64" where
  "u64_add a b = (a + b) mod 2 ^ 64"

definition u64_saturating_add :: "u64 \<Rightarrow> u64 \<Rightarrow> u64" where
  "u64_saturating_add a b = min (a + b) u64_max"

definition u64_saturating_mul :: "u64 \<Rightarrow> u64 \<Rightarrow> u64" where
  "u64_saturating_mul a b = min (a * b) u64_max"

lemma u64_add_exact [simp]: "a < u64_max \<Longrightarrow> u64_add a 1 = a + 1"
  by (simp add: u64_add_def u64_max_def)

lemma u64_add_exact_Suc [simp]: "a < u64_max \<Longrightarrow> u64_add a (Suc 0) = Suc a"
  using u64_add_exact [of a] by simp

lemma u64_add_bound: "u64_add a b \<le> u64_max"
  by (simp add: u64_add_def u64_max_def less_Suc_eq_le [symmetric])

section \<open>The environment of a handler\<close>

text \<open>
  A handler reads the clock (\<open>Instant::now()\<close>) and draws random numbers
  (\<open>rand::rng().random_range(lo..=hi)\<close>). Both are outside the program: the clock reading of
  a call and the draw are arguments of the model. All readings of the clock inside one call
  are taken to be equal. An \<open>Instant\<close> and a \<open>Duration\<close> are numbers of nanoseconds, and
  \<open>duration_since\<close> saturates at zero, as subtraction on \<^typ>\<open>nat\<close> does.
\<close>

record env =
  clock :: nat
  random_range :: "nat \<Rightarrow> nat \<Rightarrow> nat"

definition from_millis :: "nat \<Rightarrow> nat" where
  "from_millis ms = ms * 1000000"

definition from_secs :: "nat \<Rightarrow> nat" where
  "from_secs s = s * 1000000000"

definition as_millis :: "nat \<Rightarrow> nat" where
  "as_millis d = d div 1000000"

text \<open>The documented contract of \<open>random_range(lo..=hi)\<close>: the draw lies in the range.\<close>

definition rng_in_range :: "env \<Rightarrow> bool" where
  "rng_in_range e \<longleftrightarrow> (\<forall>lo hi. lo \<le> hi \<longrightarrow> lo \<le> random_range e lo hi \<and> random_range e lo hi \<le> hi)"

section \<open>Hash maps\<close>

text \<open>
  A \<open>HashMap\<close> is an association list whose keys are distinct; the order of the list stands
  for the (unspecified) iteration order.
\<close>

type_synonym ('k, 'v) hashmap = "('k \<times> 'v) list"

definition hm_wf :: "('k, 'v) hashmap \<Rightarrow> bool" where
  "hm_wf m \<longleftrightarrow> distinct (map fst m)"

definition hm_get :: "('k, 'v) hashmap \<Rightarrow> 'k \<Rightarrow> 'v option" where
  "hm_get m k = map_of m k"

definition hm_contains :: "('k, 'v) hashmap \<Rightarrow> 'k \<Rightarrow> bool" where
  "hm_contains m k \<longleftrightarrow> hm_get m k \<noteq> None"

definition hm_insert :: "'k \<Rightarrow> 'v \<Rightarrow> ('k, 'v) hashmap \<Rightarrow> ('k, 'v) hashmap" where
  "hm_insert k v m = AList.update k v m"

definition hm_remove :: "'k \<Rightarrow> ('k, 'v) hashmap \<Rightarrow> ('k, 'v) hashmap" where
  "hm_remove k m = AList.delete k m"

definition hm_keys :: "('k, 'v) hashmap \<Rightarrow> 'k list" where
  "hm_keys m = map fst m"

definition hm_values :: "('k, 'v) hashmap \<Rightarrow> 'v list" where
  "hm_values m = map snd m"

lemma hm_get_empty [simp]: "hm_get [] k = None"
  by (simp add: hm_get_def)

lemma hm_get_insert [simp]: "hm_get (hm_insert k v m) k' = (if k' = k then Some v else hm_get m k')"
  by (simp add: hm_get_def hm_insert_def update_conv')

lemma hm_get_remove [simp]: "hm_get (hm_remove k m) k' = (if k' = k then None else hm_get m k')"
  by (simp add: hm_get_def hm_remove_def delete_conv')

lemma hm_remove_insert: "hm_remove k (hm_insert k v m) = hm_remove k m"
  by (induction m) (auto simp: hm_remove_def hm_insert_def)

lemma hm_insert_insert: "hm_insert k v (hm_insert k w m) = hm_insert k v m"
  by (induction m) (auto simp: hm_insert_def)

lemma hm_wf_empty [simp, intro]: "hm_wf []"
  by (simp add: hm_wf_def)

lemma hm_wf_insert [simp, intro]: "hm_wf m \<Longrightarrow> hm_wf (hm_insert k v m)"
  by (simp add: hm_wf_def hm_insert_def distinct_update)

lemma hm_wf_remove [simp, intro]: "hm_wf m \<Longrightarrow> hm_wf (hm_remove k m)"
  by (simp add: hm_wf_def hm_remove_def distinct_delete)

lemma hm_contains_insert [simp]: "hm_contains (hm_insert k v m) k' \<longleftrightarrow> k' = k \<or> hm_contains m k'"
  by (simp add: hm_contains_def)

lemma hm_contains_remove [simp]: "hm_contains (hm_remove k m) k' \<longleftrightarrow> k' \<noteq> k \<and> hm_contains m k'"
  by (simp add: hm_contains_def)

lemma hm_contains_empty [simp]: "\<not> hm_contains [] k"
  by (simp add: hm_contains_def)

lemma hm_contains_getI [intro]: "hm_get m k = Some v \<Longrightarrow> hm_contains m k"
  by (simp add: hm_contains_def)

lemma hm_keys_contains: "k \<in> set (hm_keys m) \<longleftrightarrow> hm_contains m k"
  by (force simp: hm_keys_def hm_contains_def hm_get_def map_of_eq_None_iff)

lemma hm_in_set: "hm_wf m \<Longrightarrow> (k, v) \<in> set m \<longleftrightarrow> hm_get m k = Some v"
  by (simp add: hm_wf_def hm_get_def)

lemma hm_keys_insert: "set (hm_keys (hm_insert k v m)) = insert k (set (hm_keys m))"
  by (auto simp: hm_keys_contains)

section \<open>Majorities\<close>

text \<open>Both algorithms use \<open>(N / 2) + 1\<close> as their quorum size.\<close>

definition quorum_of :: "nat \<Rightarrow> nat" where
  "quorum_of n = n div 2 + 1"

locale quorum_system =
  fixes members :: "'a set" and is_quorum :: "'a set \<Rightarrow> bool"
  assumes quorum_members: "is_quorum Q \<Longrightarrow> Q \<subseteq> members"
    and quorum_intersect: "is_quorum Q \<Longrightarrow> is_quorum R \<Longrightarrow> Q \<inter> R \<noteq> {}"
begin

lemma quorum_common_member:
  assumes "is_quorum Q" and "is_quorum R"
  obtains a where "a \<in> Q" and "a \<in> R" and "a \<in> members"
  using quorum_intersect [OF assms] quorum_members [OF assms(1)] by blast

lemma quorum_not_empty: "is_quorum Q \<Longrightarrow> Q \<noteq> {}"
  using quorum_intersect by blast

end

definition majority :: "'a set \<Rightarrow> 'a set \<Rightarrow> bool" where
  "majority N Q \<longleftrightarrow> finite N \<and> Q \<subseteq> N \<and> quorum_of (card N) \<le> card Q"

lemma majorities_meet:
  assumes "majority N Q" and "majority N R"
  shows "Q \<inter> R \<noteq> {}"
proof
  assume empty: "Q \<inter> R = {}"
  from assms have fin: "finite Q" "finite R" and sub: "Q \<union> R \<subseteq> N" "finite N"
    by (auto simp: majority_def intro: finite_subset)
  from fin empty have "card (Q \<union> R) = card Q + card R" by (rule card_Un_disjoint)
  moreover from sub have "card (Q \<union> R) \<le> card N" by (simp add: card_mono)
  moreover from assms have "card N < card Q + card R"
    by (auto simp: majority_def quorum_of_def)
  ultimately show False by simp
qed

interpretation majorities: quorum_system N "majority N" for N :: "'a set"
proof
  fix Q :: "'a set" assume "majority N Q" then show "Q \<subseteq> N" by (simp add: majority_def)
next
  fix Q R :: "'a set" assume "majority N Q" "majority N R"
  then show "Q \<inter> R \<noteq> {}" by (rule majorities_meet)
qed

lemma majority_mono: "majority N Q \<Longrightarrow> Q \<subseteq> R \<Longrightarrow> R \<subseteq> N \<Longrightarrow> majority N R"
  by (auto simp: majority_def dest: finite_subset intro: order_trans [OF _ card_mono])

section \<open>Lists and options\<close>

lemma take_eq_mono: "take n xs = take n ys \<Longrightarrow> m \<le> n \<Longrightarrow> take m xs = take m ys"
  by (metis min.absorb1 take_take)

lemma take_eq_nth: "take n xs = take n ys \<Longrightarrow> i < n \<Longrightarrow> xs ! i = ys ! i"
  by (metis nth_take)

lemma take_eq_length: "take n xs = take n ys \<Longrightarrow> n \<le> length xs \<Longrightarrow> n \<le> length ys"
  by (metis length_take min.absorb2 min.cobounded1)

text \<open>The maximum of a list as \<open>Iterator::max\<close> returns it.\<close>

definition list_max :: "nat list \<Rightarrow> nat option" where
  "list_max xs = (if xs = [] then None else Some (Max (set xs)))"

lemma list_max_None [simp]: "list_max xs = None \<longleftrightarrow> xs = []"
  by (simp add: list_max_def)

lemma list_max_Some: "list_max xs = Some m \<Longrightarrow> m \<in> set xs \<and> (\<forall>x\<in>set xs. x \<le> m)"
  by (auto simp: list_max_def split: if_splits)

definition list_min :: "nat list \<Rightarrow> nat option" where
  "list_min xs = (if xs = [] then None else Some (Min (set xs)))"

lemma list_min_None [simp]: "list_min xs = None \<longleftrightarrow> xs = []"
  by (simp add: list_min_def)

lemma list_min_Some: "list_min xs = Some m \<Longrightarrow> m \<in> set xs \<and> (\<forall>x\<in>set xs. m \<le> x)"
  by (auto simp: list_min_def split: if_splits)

text \<open>A search over \<open>0..n\<close> finds the first position, if there is one.\<close>

lemma find_upt_Some: "List.find P [0..<n] = Some k \<longleftrightarrow> k < n \<and> P k \<and> (\<forall>i<k. \<not> P i)"
  by (auto simp: find_Some_iff)

lemma find_upt_ex: "i < n \<Longrightarrow> P i \<Longrightarrow> \<exists>k. List.find P [0..<n] = Some k"
  by (cases "List.find P [0..<n]") (auto simp: find_None_iff)

end
