(* ===== verification/Config.thy ===== *)
theory Config
  imports Prelude "HOL-Library.List_Lexorder" "HOL-Library.Char_ord" "HOL-Library.Product_Lexorder"
begin

text \<open>
  Node identities and tuning, \<open>daccord/src/config.rs\<close>: \<open>NodeId\<close> with its derived order (name
  first, then incarnation) and its \<open>Display\<close>, \<open>PaxosConfig\<close>, \<open>RaftConfig\<close> with
  \<open>validate\<close>.
\<close>

section \<open>Node identities\<close>

datatype node_id = NodeId (nid_name: string) (nid_incarnation: u64)

instantiation node_id :: linorder
begin

definition less_eq_node_id :: "node_id \<Rightarrow> node_id \<Rightarrow> bool" where
  "less_eq_node_id a b \<longleftrightarrow> (nid_name a, nid_incarnation a) \<le> (nid_name b, nid_incarnation b)"

definition less_node_id :: "node_id \<Rightarrow> node_id \<Rightarrow> bool" where
  "less_node_id a b \<longleftrightarrow> (nid_name a, nid_incarnation a) < (nid_name b, nid_incarnation b)"

instance
proof
  fix x y z :: node_id
  show "x < y \<longleftrightarrow> x \<le> y \<and> \<not> y \<le> x"
    unfolding less_eq_node_id_def less_node_id_def by (rule less_le_not_le)
  show "x \<le> x" unfolding less_eq_node_id_def by simp
  show "x \<le> y \<Longrightarrow> y \<le> z \<Longrightarrow> x \<le> z" unfolding less_eq_node_id_def by (rule order_trans)
  show "x \<le> y \<Longrightarrow> y \<le> x \<Longrightarrow> x = y"
    unfolding less_eq_node_id_def by (cases x, cases y) (auto dest: order_antisym)
  show "x \<le> y \<or> y \<le> x" unfolding less_eq_node_id_def by (rule linear)
qed

end

lemma node_id_less_iff [simp]:
  "NodeId n i < NodeId m j \<longleftrightarrow> n < m \<or> n = m \<and> i < j"
  by (auto simp: less_node_id_def)

lemma node_id_le_iff [simp]:
  "NodeId n i \<le> NodeId m j \<longleftrightarrow> n < m \<or> n = m \<and> i \<le> j"
  by (auto simp: less_eq_node_id_def)

text \<open>\<open>Display\<close> of a \<open>u64\<close>: its decimal digits.\<close>

fun show_u64 :: "u64 \<Rightarrow> string" where
  "show_u64 n = (if n < 10 then [char_of (48 + n)] else show_u64 (n div 10) @ [char_of (48 + n mod 10)])"

declare show_u64.simps [simp del]

definition node_id_fmt :: "node_id \<Rightarrow> string" where
  "node_id_fmt a = nid_name a @ ''/'' @ show_u64 (nid_incarnation a)"

section \<open>Tuning\<close>

record paxos_config =
  pc_heartbeat_interval :: nat

definition paxos_config_default :: paxos_config where
  "paxos_config_default = \<lparr>pc_heartbeat_interval = from_millis 100\<rparr>"

record raft_config =
  rc_heartbeat_interval :: nat
  rc_election_timeout_min :: nat
  rc_election_timeout_max :: nat

definition raft_config_validate :: "raft_config \<Rightarrow> (unit, string) result" where
  "raft_config_validate c =
     (if rc_election_timeout_min c > rc_election_timeout_max c
      then Err ''election_timeout_min must be <= election_timeout_max''
      else Ok ())"

definition raft_config_default :: raft_config where
  "raft_config_default =
     \<lparr>rc_heartbeat_interval = from_millis 50,
      rc_election_timeout_min = from_millis 150,
      rc_election_timeout_max = from_millis 300\<rparr>"

lemma raft_config_default_valid [simp]: "raft_config_validate raft_config_default = Ok ()"
  by (simp add: raft_config_validate_def raft_config_default_def from_millis_def)

end
