(* ===== verification/Messages.thy ===== *)
theory Messages
  imports Config
begin

text \<open>
  The wire vocabulary: \<open>daccord/src/message\<close> (Paxos and Raft messages, the envelope), the
  routing types of \<open>daccord/src/protocol/mod.rs\<close> (\<open>SendTarget\<close>, \<open>Outgoing\<close>,
  \<open>Decision\<close>) and the error enumerations of \<open>daccord/src/error.rs\<close>.
\<close>

section \<open>Errors\<close>

datatype propose_error = NotRunning | ChannelFull | Cancelled | Superseded

datatype storage_error = Persist string | Load string

datatype node_error = NoQuorum | Storage storage_error

datatype transport_error = Closed | Other string

section \<open>Paxos messages\<close>

text \<open>A proposal number: Rust compares the pair lexicographically.\<close>

type_synonym proposal_number = "u64 \<times> node_id"

datatype 'v paxos_message =
    Prepare u64 proposal_number
  | Promise u64 proposal_number "(proposal_number \<times> 'v) option"
  | Accept u64 proposal_number 'v
  | Accepted u64 proposal_number 'v
  | Decide u64 'v
  | NackPrepare u64 proposal_number proposal_number
  | NackAccept u64 proposal_number proposal_number
  | PForward 'v
  | Heartbeat u64
  | PrepareLeader proposal_number u64
  | PromiseLeader proposal_number "(u64 \<times> proposal_number \<times> 'v) list"
  | NackLeader proposal_number proposal_number

section \<open>Raft messages\<close>

datatype 'v log_entry = LogEntry (e_term: u64) (e_value: 'v)

datatype 'v raft_message =
    RequestVote (rv_term: u64) (rv_candidate: node_id) (rv_last_log_index: "u64 option")
      (rv_last_log_term: u64)
  | RequestVoteResponse (rvr_term: u64) (rvr_vote_granted: bool)
  | AppendEntries (ae_term: u64) (ae_leader: node_id) (ae_prev_log_index: "u64 option")
      (ae_prev_log_term: u64) (ae_entries: "'v log_entry list") (ae_leader_commit: "u64 option")
  | AppendEntriesResponse (aer_term: u64) (aer_success: bool) (aer_match_index: "u64 option")
      (aer_conflict_term: "u64 option") (aer_conflict_index: "u64 option")
  | RForward (rf_value: 'v) (rf_hops: nat)

definition MAX_FORWARD_HOPS :: nat where
  "MAX_FORWARD_HOPS = 3"

section \<open>The envelope\<close>

datatype 'v wire_variant = WPaxos "'v paxos_message" | WRaft "'v raft_message"

datatype 'v message = Message (m_sender: node_id) (m_variant: "'v wire_variant")

section \<open>Routing and decisions\<close>

datatype send_target = Peer node_id | Broadcast

datatype 'm outgoing = Outgoing (o_target: send_target) (o_message: 'm)

text \<open>The packets that sending to the other members of a cluster puts on the network.\<close>

definition sends :: "node_id set \<Rightarrow> node_id \<Rightarrow> 'm outgoing list \<Rightarrow> (node_id \<times> node_id \<times> 'm) set" where
  "sends N n outs = {(n, y, o_message out) | out y. out \<in> set outs \<and> y \<in> N - {n}
     \<and> (o_target out = Peer y \<or> o_target out = Broadcast)}"

datatype 'v decision = Decision (d_slot: u64) (d_value: 'v)

end
