(* ===== verification/Storage.thy ===== *)
theory Storage
  imports Messages
begin

text \<open>
  The storage traits of \<open>daccord/src/storage.rs\<close> as records of operations (a
  \<open>Box<dyn RaftStorage>\<close> is a state and such a record), the contract of each trait as a
  locale over an abstract durable state, and the in-memory implementations, which are shown
  to meet the contracts.
\<close>

section \<open>Multi-Paxos storage\<close>

record ('s, 'v) paxos_storage =
  ps_save_decision :: "u64 \<Rightarrow> 'v \<Rightarrow> 's \<Rightarrow> (unit, storage_error) result \<times> 's"
  ps_load_decisions :: "'s \<Rightarrow> ((u64 \<times> 'v) list, storage_error) result"

text \<open>
  The contract: a decision that was saved is the one a later load returns for its slot, the
  other slots are untouched, and a load returns each slot once. \<open>norm\<close> is what storage keeps
  of a value (the adapter of \<open>proposal.rs\<close> drops the nonce).
\<close>

locale paxos_storage_contract =
  fixes ops :: "('s, 'v) paxos_storage"
    and swf :: "'s \<Rightarrow> bool"
    and decided :: "'s \<Rightarrow> u64 \<rightharpoonup> 'v"
    and norm :: "'v \<Rightarrow> 'v"
  assumes ps_save: "swf s \<Longrightarrow> ps_save_decision ops slot v s = (Ok (), s') \<Longrightarrow>
      swf s' \<and> decided s' = (decided s)(slot \<mapsto> norm v)"
    and ps_load: "swf s \<Longrightarrow> ps_load_decisions ops s = Ok ds \<Longrightarrow>
      map_of ds = decided s \<and> distinct (map fst ds)"
begin

lemma ps_load_in:
  "swf s \<Longrightarrow> ps_load_decisions ops s = Ok ds \<Longrightarrow> (slot, v) \<in> set ds \<longleftrightarrow> decided s slot = Some v"
  using ps_load by (metis map_of_eq_Some_iff)

end

section \<open>Raft storage\<close>

record ('s, 'v) raft_storage =
  rs_save_decision :: "u64 \<Rightarrow> 'v \<Rightarrow> 's \<Rightarrow> (unit, storage_error) result \<times> 's"
  rs_load_decisions :: "'s \<Rightarrow> ((u64 \<times> 'v) list, storage_error) result"
  rs_save_term :: "u64 \<Rightarrow> 's \<Rightarrow> (unit, storage_error) result \<times> 's"
  rs_load_term :: "'s \<Rightarrow> (u64, storage_error) result"
  rs_save_voted_for :: "node_id option \<Rightarrow> 's \<Rightarrow> (unit, storage_error) result \<times> 's"
  rs_load_voted_for :: "'s \<Rightarrow> (node_id option, storage_error) result"
  rs_append_log :: "'v log_entry list \<Rightarrow> 's \<Rightarrow> (unit, storage_error) result \<times> 's"
  rs_truncate_log_from :: "u64 \<Rightarrow> 's \<Rightarrow> (unit, storage_error) result \<times> 's"
  rs_load_log :: "'s \<Rightarrow> ('v log_entry list, storage_error) result"
  rs_save_commit_index :: "u64 option \<Rightarrow> 's \<Rightarrow> (unit, storage_error) result \<times> 's"
  rs_load_commit_index :: "'s \<Rightarrow> (u64 option, storage_error) result"

text \<open>The durable state a Raft node recovers from, independent of the backend.\<close>

record 'v durable =
  dur_term :: u64
  dur_voted_for :: "node_id option"
  dur_log :: "'v log_entry list"
  dur_commit_index :: "u64 option"
  dur_decisions :: "u64 \<rightharpoonup> 'v"

definition durable_empty :: "'v durable" where
  "durable_empty = \<lparr>dur_term = 0, dur_voted_for = None, dur_log = [], dur_commit_index = None,
     dur_decisions = Map.empty\<rparr>"

definition map_entry :: "('v \<Rightarrow> 'w) \<Rightarrow> 'v log_entry \<Rightarrow> 'w log_entry" where
  "map_entry f e = LogEntry (e_term e) (f (e_value e))"

lemma map_entry_sel [simp]: "e_term (map_entry f e) = e_term e" "e_value (map_entry f e) = f (e_value e)"
  by (simp_all add: map_entry_def)

lemma map_entry_id [simp]: "map_entry (\<lambda>v. v) e = e"
  by (cases e) (simp add: map_entry_def)

lemma map_map_entry_id [simp]: "map (map_entry (\<lambda>v. v)) es = es"
  by (induction es) auto

lemma map_entry_comp [simp]: "map_entry f (map_entry g e) = map_entry (\<lambda>x. f (g x)) e"
  by (simp add: map_entry_def)

text \<open>
  The contract of \<open>RaftStorage\<close>: an operation that returns \<open>Ok\<close> changes exactly its part
  of the durable state, and a load that returns \<open>Ok\<close> returns that part. Nothing is said of
  an operation that fails: the node stops on the error.
\<close>

locale raft_storage_contract =
  fixes ops :: "('s, 'v) raft_storage"
    and swf :: "'s \<Rightarrow> bool"
    and durable :: "'s \<Rightarrow> 'v durable"
    and norm :: "'v \<Rightarrow> 'v"
  assumes save_decision: "swf s \<Longrightarrow> rs_save_decision ops slot v s = (Ok (), s') \<Longrightarrow> swf s' \<and>
      durable s' = (durable s)\<lparr>dur_decisions := (dur_decisions (durable s))(slot \<mapsto> norm v)\<rparr>"
    and load_decisions: "swf s \<Longrightarrow> rs_load_decisions ops s = Ok ds \<Longrightarrow>
      map_of ds = dur_decisions (durable s) \<and> distinct (map fst ds)"
    and save_term: "swf s \<Longrightarrow> rs_save_term ops t s = (Ok (), s') \<Longrightarrow> swf s' \<and>
      durable s' = (durable s)\<lparr>dur_term := t\<rparr>"
    and load_term: "swf s \<Longrightarrow> rs_load_term ops s = Ok t \<Longrightarrow> t = dur_term (durable s)"
    and save_voted_for: "swf s \<Longrightarrow> rs_save_voted_for ops vf s = (Ok (), s') \<Longrightarrow> swf s' \<and>
      durable s' = (durable s)\<lparr>dur_voted_for := vf\<rparr>"
    and load_voted_for: "swf s \<Longrightarrow> rs_load_voted_for ops s = Ok vf \<Longrightarrow> vf = dur_voted_for (durable s)"
    and append_log: "swf s \<Longrightarrow> rs_append_log ops es s = (Ok (), s') \<Longrightarrow> swf s' \<and>
      durable s' = (durable s)\<lparr>dur_log := dur_log (durable s) @ map (map_entry norm) es\<rparr>"
    and truncate_log_from: "swf s \<Longrightarrow> rs_truncate_log_from ops i s = (Ok (), s') \<Longrightarrow> swf s' \<and>
      durable s' = (durable s)\<lparr>dur_log := take i (dur_log (durable s))\<rparr>"
    and load_log: "swf s \<Longrightarrow> rs_load_log ops s = Ok l \<Longrightarrow> l = dur_log (durable s)"
    and save_commit_index: "swf s \<Longrightarrow> rs_save_commit_index ops ci s = (Ok (), s') \<Longrightarrow> swf s' \<and>
      durable s' = (durable s)\<lparr>dur_commit_index := ci\<rparr>"
    and load_commit_index: "swf s \<Longrightarrow> rs_load_commit_index ops s = Ok ci \<Longrightarrow>
      ci = dur_commit_index (durable s)"
    and norm_idem: "norm (norm v) = norm v"
begin

lemmas contract = save_decision load_decisions save_term load_term save_voted_for load_voted_for
  append_log truncate_log_from load_log save_commit_index load_commit_index

end

section \<open>In-memory Paxos storage\<close>

record 'v paxos_memory_storage =
  pm_decisions :: "(u64, 'v) hashmap"

definition paxos_memory_storage_new :: "'v paxos_memory_storage" where
  "paxos_memory_storage_new = \<lparr>pm_decisions = []\<rparr>"

definition pm_save_decision ::
  "u64 \<Rightarrow> 'v \<Rightarrow> 'v paxos_memory_storage \<Rightarrow> (unit, storage_error) result \<times> 'v paxos_memory_storage" where
  "pm_save_decision slot v s = (Ok (), s\<lparr>pm_decisions := hm_insert slot v (pm_decisions s)\<rparr>)"

definition pm_load_decisions :: "'v paxos_memory_storage \<Rightarrow> ((u64 \<times> 'v) list, storage_error) result" where
  "pm_load_decisions s = Ok (pm_decisions s)"

definition paxos_memory_ops :: "('v paxos_memory_storage, 'v) paxos_storage" where
  "paxos_memory_ops =
     \<lparr>ps_save_decision = pm_save_decision, ps_load_decisions = pm_load_decisions\<rparr>"

lemmas paxos_memory_defs = paxos_memory_ops_def pm_save_decision_def pm_load_decisions_def

definition pm_wf :: "'v paxos_memory_storage \<Rightarrow> bool" where
  "pm_wf s \<longleftrightarrow> hm_wf (pm_decisions s)"

interpretation paxos_memory: paxos_storage_contract paxos_memory_ops pm_wf
  "\<lambda>s. hm_get (pm_decisions s)" "\<lambda>v. v"
proof
  fix s s' :: "'v paxos_memory_storage" and slot v
  assume "pm_wf s" and "ps_save_decision paxos_memory_ops slot v s = (Ok (), s')"
  then show "pm_wf s' \<and> hm_get (pm_decisions s') = (hm_get (pm_decisions s))(slot \<mapsto> v)"
    by (auto simp: paxos_memory_defs pm_wf_def fun_eq_iff)
next
  fix s :: "'v paxos_memory_storage" and ds
  assume "pm_wf s" and "ps_load_decisions paxos_memory_ops s = Ok ds"
  then show "map_of ds = hm_get (pm_decisions s) \<and> distinct (map fst ds)"
    by (auto simp: paxos_memory_defs pm_wf_def hm_wf_def hm_get_def fun_eq_iff)
qed

section \<open>In-memory Raft storage\<close>

record 'v raft_memory_storage =
  rm_decisions :: "(u64, 'v) hashmap"
  rm_term :: u64
  rm_voted_for :: "node_id option"
  rm_log :: "'v log_entry list"
  rm_commit_index :: "u64 option"

definition raft_memory_storage_new :: "'v raft_memory_storage" where
  "raft_memory_storage_new =
     \<lparr>rm_decisions = [], rm_term = 0, rm_voted_for = None, rm_log = [], rm_commit_index = None\<rparr>"

type_synonym 'v rm_write = "'v raft_memory_storage \<Rightarrow> (unit, storage_error) result \<times> 'v raft_memory_storage"

definition rm_save_decision :: "u64 \<Rightarrow> 'v \<Rightarrow> 'v rm_write" where
  "rm_save_decision slot v s = (Ok (), s\<lparr>rm_decisions := hm_insert slot v (rm_decisions s)\<rparr>)"

definition rm_load_decisions :: "'v raft_memory_storage \<Rightarrow> ((u64 \<times> 'v) list, storage_error) result" where
  "rm_load_decisions s = Ok (rm_decisions s)"

definition rm_save_term :: "u64 \<Rightarrow> 'v rm_write" where
  "rm_save_term t s = (Ok (), s\<lparr>rm_term := t\<rparr>)"

definition rm_load_term :: "'v raft_memory_storage \<Rightarrow> (u64, storage_error) result" where
  "rm_load_term s = Ok (rm_term s)"

definition rm_save_voted_for :: "node_id option \<Rightarrow> 'v rm_write" where
  "rm_save_voted_for vf s = (Ok (), s\<lparr>rm_voted_for := vf\<rparr>)"

definition rm_load_voted_for :: "'v raft_memory_storage \<Rightarrow> (node_id option, storage_error) result" where
  "rm_load_voted_for s = Ok (rm_voted_for s)"

definition rm_append_log :: "'v log_entry list \<Rightarrow> 'v rm_write" where
  "rm_append_log es s = (Ok (), s\<lparr>rm_log := rm_log s @ es\<rparr>)"

definition rm_truncate_log_from :: "u64 \<Rightarrow> 'v rm_write" where
  "rm_truncate_log_from i s =
     (Ok (), if i < length (rm_log s) then s\<lparr>rm_log := take i (rm_log s)\<rparr> else s)"

definition rm_load_log :: "'v raft_memory_storage \<Rightarrow> ('v log_entry list, storage_error) result" where
  "rm_load_log s = Ok (rm_log s)"

definition rm_save_commit_index :: "u64 option \<Rightarrow> 'v rm_write" where
  "rm_save_commit_index ci s = (Ok (), s\<lparr>rm_commit_index := ci\<rparr>)"

definition rm_load_commit_index :: "'v raft_memory_storage \<Rightarrow> (u64 option, storage_error) result" where
  "rm_load_commit_index s = Ok (rm_commit_index s)"

definition raft_memory_ops :: "('v raft_memory_storage, 'v) raft_storage" where
  "raft_memory_ops =
     \<lparr>rs_save_decision = rm_save_decision, rs_load_decisions = rm_load_decisions,
      rs_save_term = rm_save_term, rs_load_term = rm_load_term,
      rs_save_voted_for = rm_save_voted_for, rs_load_voted_for = rm_load_voted_for,
      rs_append_log = rm_append_log, rs_truncate_log_from = rm_truncate_log_from,
      rs_load_log = rm_load_log,
      rs_save_commit_index = rm_save_commit_index, rs_load_commit_index = rm_load_commit_index\<rparr>"

lemmas raft_memory_defs = raft_memory_ops_def rm_save_decision_def rm_load_decisions_def
  rm_save_term_def rm_load_term_def rm_save_voted_for_def rm_load_voted_for_def rm_append_log_def
  rm_truncate_log_from_def rm_load_log_def rm_save_commit_index_def rm_load_commit_index_def

text \<open>The in-memory state read as a durable state.\<close>

definition rm_durable :: "'v raft_memory_storage \<Rightarrow> 'v durable" where
  "rm_durable s = \<lparr>dur_term = rm_term s, dur_voted_for = rm_voted_for s, dur_log = rm_log s,
     dur_commit_index = rm_commit_index s, dur_decisions = hm_get (rm_decisions s)\<rparr>"

definition rm_wf :: "'v raft_memory_storage \<Rightarrow> bool" where
  "rm_wf s \<longleftrightarrow> hm_wf (rm_decisions s)"

interpretation raft_memory: raft_storage_contract raft_memory_ops rm_wf rm_durable "\<lambda>v. v"
  by unfold_locales
    (auto simp: raft_memory_defs rm_durable_def rm_wf_def hm_wf_def hm_get_def
      hm_wf_insert [unfolded hm_wf_def] fun_eq_iff hm_get_insert [unfolded hm_get_def] split: if_splits)

end
