(* ===== verification/Proposal.thy ===== *)
theory Proposal
  imports Storage
begin

text \<open>
  \<open>daccord/src/proposal.rs\<close>: the \<open>Pending\<close> envelope that gives every proposal a nonce, and
  the adapters that store user values only. The adapters are shown to meet the storage
  contracts again, with recovery replacing each nonce by the reserved \<open>0\<close>.
\<close>

section \<open>The envelope\<close>

datatype 'v pending = Pending (pd_nonce: u64) (pd_value: 'v)

text \<open>What storage keeps of an envelope, and what recovery makes of a stored value.\<close>

definition recovered :: "'v \<Rightarrow> 'v pending" where
  "recovered v = Pending 0 v"

lemma recovered_sel [simp]: "pd_nonce (recovered v) = 0" "pd_value (recovered v) = v"
  by (simp_all add: recovered_def)

section \<open>The Paxos adapter\<close>

definition map_ok :: "('a \<Rightarrow> 'b) \<Rightarrow> ('a, 'e) result \<Rightarrow> ('b, 'e) result" where
  "map_ok f r = (case r of Ok a \<Rightarrow> Ok (f a) | Err e \<Rightarrow> Err e)"

lemma map_ok_eq_Ok [simp]: "map_ok f r = Ok b \<longleftrightarrow> (\<exists>a. r = Ok a \<and> b = f a)"
  by (auto simp: map_ok_def split: result.splits)

definition pending_paxos_storage :: "('s, 'v) paxos_storage \<Rightarrow> ('s, 'v pending) paxos_storage" where
  "pending_paxos_storage inner =
     \<lparr>ps_save_decision = (\<lambda>slot value s. ps_save_decision inner slot (pd_value value) s),
      ps_load_decisions = (\<lambda>s. map_ok (map (\<lambda>(slot, value). (slot, Pending 0 value)))
        (ps_load_decisions inner s))\<rparr>"

section \<open>The Raft adapter\<close>

definition strip_log_entries :: "'v pending log_entry list \<Rightarrow> 'v log_entry list" where
  "strip_log_entries entries = map (\<lambda>e. LogEntry (e_term e) (pd_value (e_value e))) entries"

definition wrap_log_entries :: "'v log_entry list \<Rightarrow> 'v pending log_entry list" where
  "wrap_log_entries entries = map (\<lambda>e. LogEntry (e_term e) (Pending 0 (e_value e))) entries"

definition pending_raft_storage :: "('s, 'v) raft_storage \<Rightarrow> ('s, 'v pending) raft_storage" where
  "pending_raft_storage inner =
     \<lparr>rs_save_decision = (\<lambda>slot value s. rs_save_decision inner slot (pd_value value) s),
      rs_load_decisions = (\<lambda>s. map_ok (map (\<lambda>(slot, value). (slot, Pending 0 value)))
        (rs_load_decisions inner s)),
      rs_save_term = rs_save_term inner,
      rs_load_term = rs_load_term inner,
      rs_save_voted_for = rs_save_voted_for inner,
      rs_load_voted_for = rs_load_voted_for inner,
      rs_append_log = (\<lambda>entries s. rs_append_log inner (strip_log_entries entries) s),
      rs_truncate_log_from = rs_truncate_log_from inner,
      rs_load_log = (\<lambda>s. map_ok wrap_log_entries (rs_load_log inner s)),
      rs_save_commit_index = rs_save_commit_index inner,
      rs_load_commit_index = rs_load_commit_index inner\<rparr>"

text \<open>The durable state of the inner storage, read back through the adapter.\<close>

definition wrap_durable :: "'v durable \<Rightarrow> 'v pending durable" where
  "wrap_durable d = \<lparr>dur_term = dur_term d, dur_voted_for = dur_voted_for d,
     dur_log = wrap_log_entries (dur_log d), dur_commit_index = dur_commit_index d,
     dur_decisions = (\<lambda>slot. map_option recovered (dur_decisions d slot))\<rparr>"

lemma map_of_recovered:
  "map_of (map (\<lambda>(slot, value). (slot, Pending 0 value)) ds) = (\<lambda>slot. map_option recovered (map_of ds slot))"
  by (induction ds) (auto simp: recovered_def fun_eq_iff)

lemma fst_recovered: "map fst (map (\<lambda>(slot, value). (slot, Pending 0 value)) ds) = map fst ds"
  by (induction ds) auto

lemma wrap_append [simp]: "wrap_log_entries (xs @ ys) = wrap_log_entries xs @ wrap_log_entries ys"
  by (simp add: wrap_log_entries_def)

lemma wrap_take [simp]: "wrap_log_entries (take i xs) = take i (wrap_log_entries xs)"
  by (simp add: wrap_log_entries_def take_map)

lemma wrap_strip:
  "wrap_log_entries (map (map_entry n) (strip_log_entries es)) =
   map (map_entry (\<lambda>p. recovered (n (pd_value p)))) es"
  by (simp add: wrap_log_entries_def strip_log_entries_def map_entry_def recovered_def)

section \<open>The adapters meet the storage contracts\<close>

locale pending_paxos = inner: paxos_storage_contract ops swf decided norm
  for ops :: "('s, 'v) paxos_storage" and swf decided norm

sublocale pending_paxos < adapted: paxos_storage_contract "pending_paxos_storage ops" swf
  "\<lambda>s slot. map_option recovered (decided s slot)" "\<lambda>p. recovered (norm (pd_value p))"
proof
  fix s s' slot v
  assume "swf s" and "ps_save_decision (pending_paxos_storage ops) slot v s = (Ok (), s')"
  then show "swf s' \<and> (\<lambda>slot. map_option recovered (decided s' slot)) =
      (\<lambda>slot. map_option recovered (decided s slot))(slot \<mapsto> recovered (norm (pd_value v)))"
    using inner.ps_save [of s slot "pd_value v" s']
    by (simp add: pending_paxos_storage_def fun_eq_iff)
next
  fix s ds
  assume "swf s" and "ps_load_decisions (pending_paxos_storage ops) s = Ok ds"
  then show "map_of ds = (\<lambda>slot. map_option recovered (decided s slot)) \<and> distinct (map fst ds)"
    using inner.ps_load [of s]
    by (auto simp: pending_paxos_storage_def map_of_recovered fst_recovered simp del: map_map)
qed

locale pending_raft = inner: raft_storage_contract ops swf durable norm
  for ops :: "('s, 'v) raft_storage" and swf durable norm

sublocale pending_raft < adapted: raft_storage_contract "pending_raft_storage ops" swf
  "\<lambda>s. wrap_durable (durable s)" "\<lambda>p. recovered (norm (pd_value p))"
proof (unfold_locales, goal_cases)
  case (1 s slot v s')
  then show ?case
    using inner.save_decision [of s slot "pd_value v" s']
    by (simp add: pending_raft_storage_def wrap_durable_def fun_eq_iff)
next
  case (2 s ds)
  then show ?case
    using inner.load_decisions [of s]
    by (auto simp: pending_raft_storage_def wrap_durable_def map_of_recovered fst_recovered
        simp del: map_map)
next
  case (3 s t s')
  then show ?case
    using inner.save_term [of s t s'] by (simp add: pending_raft_storage_def wrap_durable_def)
next
  case (4 s t)
  then show ?case
    using inner.load_term [of s t] by (simp add: pending_raft_storage_def wrap_durable_def)
next
  case (5 s vf s')
  then show ?case
    using inner.save_voted_for [of s vf s'] by (simp add: pending_raft_storage_def wrap_durable_def)
next
  case (6 s vf)
  then show ?case
    using inner.load_voted_for [of s vf] by (simp add: pending_raft_storage_def wrap_durable_def)
next
  case (7 s es s')
  then show ?case
    using inner.append_log [of s "strip_log_entries es" s']
    by (simp add: pending_raft_storage_def wrap_durable_def wrap_strip del: map_map)
next
  case (8 s i s')
  then show ?case
    using inner.truncate_log_from [of s i s']
    by (simp add: pending_raft_storage_def wrap_durable_def)
next
  case (9 s l)
  then show ?case
    using inner.load_log [of s] by (auto simp: pending_raft_storage_def wrap_durable_def)
next
  case (10 s ci s')
  then show ?case
    using inner.save_commit_index [of s ci s']
    by (simp add: pending_raft_storage_def wrap_durable_def)
next
  case (11 s ci)
  then show ?case
    using inner.load_commit_index [of s ci]
    by (simp add: pending_raft_storage_def wrap_durable_def)
next
  case (12 v)
  then show ?case by (simp add: inner.norm_idem)
qed

interpretation pending_paxos_memory: pending_paxos paxos_memory_ops pm_wf
  "\<lambda>s. hm_get (pm_decisions s)" "\<lambda>v. v"
  by unfold_locales

interpretation pending_raft_memory: pending_raft raft_memory_ops rm_wf rm_durable "\<lambda>v. v"
  by unfold_locales

end
