(* ===== verification/RaftProtocol.thy ===== *)
theory RaftProtocol
  imports Proposal
begin

text \<open>
  \<open>daccord/src/protocol/raft.rs\<close>: the state of a Raft node, its operations in the order of
  the source, and the dispatch of \<open>ConsensusProtocol\<close>. An operation that can reach an
  indexing panic returns an option, \<^const>\<open>None\<close> being the panic.
\<close>

section \<open>State\<close>

datatype role = Follower | Candidate | Leader

record ('v, 's) raft_protocol =
  r_node_id :: node_id
  r_total_nodes :: nat
  r_config :: raft_config
  r_current_term :: u64
  r_voted_for :: "node_id option"
  r_log :: "'v log_entry list"
  r_commit_index :: "u64 option"
  r_last_applied :: "u64 option"
  r_role :: role
  r_leader :: "node_id option"
  r_next_index :: "(node_id, u64) hashmap"
  r_match_index :: "(node_id, u64 option) hashmap"
  r_election_deadline :: nat
  r_votes_received :: "node_id set"
  r_last_heartbeat_sent :: "nat option"
  r_pending_decisions :: "'v decision list"
  r_pending_persist_term :: bool
  r_pending_persist_voted_for :: bool
  r_pending_persist_log_from :: "u64 option"
  r_pending_truncate_from :: "u64 option"
  r_pending_persist_commit_index :: bool
  r_pending_proposals :: "'v list"
  r_lost_proposals :: "'v list"
  r_storage :: 's

type_synonym 'v raft_out = "'v raft_message outgoing list"

record 'v persist_intent =
  pi_term :: "u64 option"
  pi_voted_for :: "node_id option option"
  pi_truncate_from :: "u64 option"
  pi_append_from :: "u64 option"
  pi_log_snapshot :: "'v log_entry list"
  pi_commit_index :: "u64 option option"

record protocol_snapshot =
  snap_role :: "role option"
  snap_term :: u64
  snap_leader :: "node_id option"
  snap_voted_for :: "node_id option"
  snap_log_len :: u64
  snap_commit_index :: "u64 option"
  snap_last_applied :: "u64 option"

section \<open>Construction and small accessors\<close>

definition sample_election_timeout :: "env \<Rightarrow> raft_config \<Rightarrow> nat" where
  "sample_election_timeout e cfg =
     (let lo = as_millis (rc_election_timeout_min cfg) mod 2 ^ 64;
          hi = as_millis (rc_election_timeout_max cfg) mod 2 ^ 64;
          chosen = (if hi \<le> lo then lo else random_range e lo hi)
      in from_millis chosen)"

definition raft_new :: "env \<Rightarrow> node_id \<Rightarrow> nat \<Rightarrow> raft_config \<Rightarrow> 's \<Rightarrow> ('v, 's) raft_protocol option" where
  "raft_new e node_id total_nodes config storage =
     (case raft_config_validate config of
        Err _ \<Rightarrow> None
      | Ok _ \<Rightarrow> Some
        \<lparr>r_node_id = node_id, r_total_nodes = total_nodes, r_config = config,
         r_current_term = 0, r_voted_for = None, r_log = [],
         r_commit_index = None, r_last_applied = None, r_role = Follower, r_leader = None,
         r_next_index = [], r_match_index = [],
         r_election_deadline = clock e + sample_election_timeout e config,
         r_votes_received = {}, r_last_heartbeat_sent = None, r_pending_decisions = [],
         r_pending_persist_term = False, r_pending_persist_voted_for = False,
         r_pending_persist_log_from = None, r_pending_truncate_from = None,
         r_pending_persist_commit_index = False, r_pending_proposals = [], r_lost_proposals = [],
         r_storage = storage\<rparr>)"

definition raft_quorum :: "('v, 's) raft_protocol \<Rightarrow> nat" where
  "raft_quorum s = quorum_of (r_total_nodes s)"

definition raft_peek_state :: "('v, 's) raft_protocol \<Rightarrow> protocol_snapshot" where
  "raft_peek_state s =
     \<lparr>snap_role = Some (r_role s), snap_term = r_current_term s, snap_leader = r_leader s,
      snap_voted_for = r_voted_for s, snap_log_len = length (r_log s),
      snap_commit_index = r_commit_index s, snap_last_applied = r_last_applied s\<rparr>"

definition last_log_index :: "('v, 's) raft_protocol \<Rightarrow> u64 option" where
  "last_log_index s = (if r_log s = [] then None else Some (length (r_log s) - 1))"

definition last_log_term :: "('v, 's) raft_protocol \<Rightarrow> u64" where
  "last_log_term s = (if r_log s = [] then 0 else e_term (last (r_log s)))"

definition candidate_log_at_least_as_up_to_date ::
  "('v, 's) raft_protocol \<Rightarrow> u64 \<Rightarrow> u64 option \<Rightarrow> bool" where
  "candidate_log_at_least_as_up_to_date s cand_last_term cand_last_index =
     (let my_term = last_log_term s in
      if cand_last_term \<noteq> my_term then cand_last_term > my_term
      else case (cand_last_index, last_log_index s) of
          (Some c, Some m) \<Rightarrow> c \<ge> m
        | (Some _, None) \<Rightarrow> True
        | (None, None) \<Rightarrow> True
        | (None, Some _) \<Rightarrow> False)"

section \<open>Applying and committing\<close>

text \<open>The loop \<open>for idx in start..=target\<close>: it reads \<open>log[idx]\<close>, which panics past the end.\<close>

fun collect_decisions :: "'v log_entry list \<Rightarrow> u64 list \<Rightarrow> 'v decision list option" where
  "collect_decisions log [] = Some []"
| "collect_decisions log (idx # rest) =
     (if idx < length log
      then map_option (\<lambda>ds. Decision idx (e_value (log ! idx)) # ds) (collect_decisions log rest)
      else None)"

definition apply_committed_entries :: "('v, 's) raft_protocol \<Rightarrow> ('v, 's) raft_protocol option" where
  "apply_committed_entries s =
     (case r_commit_index s of
        None \<Rightarrow> Some s
      | Some target \<Rightarrow>
          let start = (case r_last_applied s of Some a \<Rightarrow> u64_add a 1 | None \<Rightarrow> 0) in
          if start > target then Some s
          else map_option
            (\<lambda>ds. s\<lparr>r_pending_decisions := r_pending_decisions s @ ds, r_last_applied := Some target\<rparr>)
            (collect_decisions (r_log s) [start..<Suc target]))"

text \<open>\<open>Option<u64>\<close> is ordered with \<open>None\<close> first; the list is sorted from the largest down.\<close>

definition opt_key :: "u64 option \<Rightarrow> nat" where
  "opt_key m = (case m of None \<Rightarrow> 0 | Some i \<Rightarrow> Suc i)"

definition sort_desc :: "u64 option list \<Rightarrow> u64 option list" where
  "sort_desc xs = rev (sort_key opt_key xs)"

definition try_advance_commit :: "('v, 's) raft_protocol \<Rightarrow> ('v, 's) raft_protocol option" where
  "try_advance_commit s =
     (let indexes = sort_desc (hm_values (r_match_index s)); q = raft_quorum s in
      if length indexes < q then Some s
      else case indexes ! (q - 1) of
          None \<Rightarrow> Some s
        | Some c \<Rightarrow>
            if \<not> c < length (r_log s) then Some s
            else if e_term (r_log s ! c) = r_current_term s
                 \<and> (case r_commit_index s of None \<Rightarrow> True | Some cur \<Rightarrow> c > cur)
            then apply_committed_entries
                   (s\<lparr>r_commit_index := Some c, r_pending_persist_commit_index := True\<rparr>)
            else Some s)"

section \<open>Recovery\<close>

definition restore_state ::
  "env \<Rightarrow> u64 \<Rightarrow> node_id option \<Rightarrow> 'v log_entry list \<Rightarrow> (u64 \<times> 'v) list \<Rightarrow> u64 option
   \<Rightarrow> ('v, 's) raft_protocol \<Rightarrow> ('v, 's) raft_protocol option" where
  "restore_state e term voted_for log decisions persisted_commit_index s =
     (let max_decided = list_max (map fst decisions);
          ci = (case (persisted_commit_index, max_decided) of
                  (Some p, Some d) \<Rightarrow> Some (max p d)
                | (Some p, None) \<Rightarrow> Some p
                | (None, Some d) \<Rightarrow> Some d
                | (None, None) \<Rightarrow> None);
          ci' = (case ci of
                  Some c \<Rightarrow> (if log = [] then None else Some (min c (length log - 1)))
                | None \<Rightarrow> None);
          s1 = s\<lparr>r_current_term := term, r_voted_for := voted_for, r_log := log,
                 r_commit_index := ci', r_last_applied := max_decided,
                 r_election_deadline := clock e + sample_election_timeout e (r_config s),
                 r_pending_persist_term := False, r_pending_persist_voted_for := False,
                 r_pending_persist_log_from := None, r_pending_truncate_from := None,
                 r_pending_persist_commit_index := False, r_pending_decisions := [],
                 r_pending_proposals := [], r_lost_proposals := [], r_votes_received := {},
                 r_next_index := [], r_match_index := []\<rparr>;
          resume_leader = (r_total_nodes s = 1 \<and> term > 0 \<and> voted_for = Some (r_node_id s));
          s2 = (if resume_leader
                then s1\<lparr>r_role := Leader, r_leader := Some (r_node_id s),
                        r_match_index := (if log = [] then []
                          else hm_insert (r_node_id s) (Some (length log - 1)) [])\<rparr>
                else s1\<lparr>r_role := Follower, r_leader := None\<rparr>)
      in apply_committed_entries s2)"

text \<open>
  \<open>recover\<close> loads the five parts and restores; the first load that fails is returned and the
  in-memory state is untouched.
\<close>

definition raft_recover ::
  "('s, 'v) raft_storage \<Rightarrow> env \<Rightarrow> ('v, 's) raft_protocol
   \<Rightarrow> ((unit, storage_error) result \<times> ('v, 's) raft_protocol) option" where
  "raft_recover ops e s =
     (case rs_load_term ops (r_storage s) of Err x \<Rightarrow> Some (Err x, s) | Ok term \<Rightarrow>
      case rs_load_voted_for ops (r_storage s) of Err x \<Rightarrow> Some (Err x, s) | Ok voted_for \<Rightarrow>
      case rs_load_log ops (r_storage s) of Err x \<Rightarrow> Some (Err x, s) | Ok log \<Rightarrow>
      case rs_load_decisions ops (r_storage s) of Err x \<Rightarrow> Some (Err x, s) | Ok decisions \<Rightarrow>
      case rs_load_commit_index ops (r_storage s) of Err x \<Rightarrow> Some (Err x, s) | Ok commit_index \<Rightarrow>
      map_option (\<lambda>s'. (Ok (), s')) (restore_state e term voted_for log decisions commit_index s))"

section \<open>Persistence\<close>

definition drain_persist_intent ::
  "('v, 's) raft_protocol \<Rightarrow> 'v persist_intent \<times> ('v, 's) raft_protocol" where
  "drain_persist_intent s =
     (\<lparr>pi_term = (if r_pending_persist_term s then Some (r_current_term s) else None),
       pi_voted_for = (if r_pending_persist_voted_for s then Some (r_voted_for s) else None),
       pi_truncate_from = r_pending_truncate_from s,
       pi_append_from = r_pending_persist_log_from s,
       pi_log_snapshot = (if r_pending_persist_log_from s \<noteq> None then r_log s else []),
       pi_commit_index = (if r_pending_persist_commit_index s then Some (r_commit_index s) else None)\<rparr>,
      s\<lparr>r_pending_truncate_from := None, r_pending_persist_log_from := None,
        r_pending_persist_term := False, r_pending_persist_voted_for := False,
        r_pending_persist_commit_index := False\<rparr>)"

text \<open>
  One write of \<open>flush_persist\<close>: skipped when an earlier write failed (the \<open>?\<close> operator) or
  when there is nothing to write.
\<close>

definition persist_step ::
  "('a \<Rightarrow> 's \<Rightarrow> (unit, storage_error) result \<times> 's) \<Rightarrow> 'a option
   \<Rightarrow> (unit, storage_error) result \<times> 's \<Rightarrow> (unit, storage_error) result \<times> 's" where
  "persist_step write arg rs =
     (case rs of
        (Err x, st) \<Rightarrow> (Err x, st)
      | (Ok _, st) \<Rightarrow> (case arg of None \<Rightarrow> (Ok (), st) | Some a \<Rightarrow> write a st))"

text \<open>
  \<open>&log_snapshot[idx..]\<close> panics when \<open>idx\<close> is past the end; that panic is \<^const>\<open>None\<close>.
\<close>

definition raft_flush_persist ::
  "('s, 'v) raft_storage \<Rightarrow> ('v, 's) raft_protocol
   \<Rightarrow> ((unit, storage_error) result \<times> ('v, 's) raft_protocol) option" where
  "raft_flush_persist ops s =
     (let (intent, s1) = drain_persist_intent s;
          r1 = persist_step (rs_save_term ops) (pi_term intent) (Ok (), r_storage s1);
          r2 = persist_step (rs_save_voted_for ops) (pi_voted_for intent) r1;
          r3 = persist_step (rs_truncate_log_from ops) (pi_truncate_from intent) r2
      in if fst r3 = Ok () \<and> (case pi_append_from intent of None \<Rightarrow> False
                             | Some idx \<Rightarrow> idx > length (pi_log_snapshot intent))
         then None
         else
           let r4 = persist_step (rs_append_log ops)
                      (map_option (\<lambda>idx. drop idx (pi_log_snapshot intent)) (pi_append_from intent)) r3;
               r5 = persist_step (rs_save_commit_index ops) (pi_commit_index intent) r4
           in Some (fst r5, s1\<lparr>r_storage := snd r5\<rparr>))"

definition raft_take_decisions ::
  "('v, 's) raft_protocol \<Rightarrow> 'v decision list \<times> ('v, 's) raft_protocol" where
  "raft_take_decisions s = (r_pending_decisions s, s\<lparr>r_pending_decisions := []\<rparr>)"

fun save_decisions ::
  "(u64 \<Rightarrow> 'v \<Rightarrow> 's \<Rightarrow> (unit, storage_error) result \<times> 's) \<Rightarrow> 'v decision list \<Rightarrow> 's
   \<Rightarrow> (unit, storage_error) result \<times> 's" where
  "save_decisions save [] st = (Ok (), st)"
| "save_decisions save (d # ds) st =
     (case save (d_slot d) (d_value d) st of
        (Err x, st') \<Rightarrow> (Err x, st')
      | (Ok _, st') \<Rightarrow> save_decisions save ds st')"

definition raft_drain_decisions ::
  "('s, 'v) raft_storage \<Rightarrow> ('v, 's) raft_protocol
   \<Rightarrow> ('v decision list, storage_error) result \<times> ('v, 's) raft_protocol" where
  "raft_drain_decisions ops s =
     (let (decisions, s1) = raft_take_decisions s;
          (r, st) = save_decisions (rs_save_decision ops) decisions (r_storage s1)
      in (map_ok (\<lambda>_. decisions) r, s1\<lparr>r_storage := st\<rparr>))"

section \<open>Elections\<close>

definition raft_become_follower ::
  "env \<Rightarrow> u64 \<Rightarrow> node_id option \<Rightarrow> ('v, 's) raft_protocol \<Rightarrow> ('v, 's) raft_protocol" where
  "raft_become_follower e term leader s =
     (let s1 = (if term > r_current_term s
                then s\<lparr>r_current_term := term, r_voted_for := None,
                       r_pending_persist_term := True, r_pending_persist_voted_for := True\<rparr>
                else s)
      in s1\<lparr>r_role := Follower, r_leader := leader, r_votes_received := {},
            r_election_deadline := clock e + sample_election_timeout e (r_config s1),
            r_pending_persist_log_from := None\<rparr>)"

definition broadcast_heartbeat ::
  "env \<Rightarrow> ('v, 's) raft_protocol \<Rightarrow> ('v, 's) raft_protocol \<times> 'v raft_out" where
  "broadcast_heartbeat e s =
     (s\<lparr>r_last_heartbeat_sent := Some (clock e)\<rparr>,
      [Outgoing Broadcast
         (AppendEntries (r_current_term s) (r_node_id s) (last_log_index s) (last_log_term s) []
            (r_commit_index s))])"

text \<open>\<open>log[i]\<close> is read at \<open>len - entries - 1\<close>, which is inside the log.\<close>

definition broadcast_with_entries ::
  "env \<Rightarrow> 'v log_entry list \<Rightarrow> ('v, 's) raft_protocol \<Rightarrow> ('v, 's) raft_protocol \<times> 'v raft_out" where
  "broadcast_with_entries e entries s =
     (let prev_log_index =
            (if length (r_log s) > length entries
             then Some (length (r_log s) - length entries - 1) else None);
          prev_log_term = (case prev_log_index of Some i \<Rightarrow> e_term (r_log s ! i) | None \<Rightarrow> 0)
      in (s\<lparr>r_last_heartbeat_sent := Some (clock e)\<rparr>,
          [Outgoing Broadcast
             (AppendEntries (r_current_term s) (r_node_id s) prev_log_index prev_log_term entries
                (r_commit_index s))]))"

definition raft_become_leader ::
  "env \<Rightarrow> ('v, 's) raft_protocol \<Rightarrow> (('v, 's) raft_protocol \<times> 'v raft_out) option" where
  "raft_become_leader e s =
     (let s1 = s\<lparr>r_role := Leader, r_leader := Some (r_node_id s), r_next_index := [],
                 r_match_index := (if r_log s = [] then []
                   else hm_insert (r_node_id s) (Some (length (r_log s) - 1)) [])\<rparr>;
          buffered = r_pending_proposals s1;
          s2 = s1\<lparr>r_pending_proposals := []\<rparr>
      in if buffered = [] then Some (broadcast_heartbeat e s2)
         else
           let new_entries = map (LogEntry (r_current_term s2)) buffered;
               start_idx = length (r_log s2);
               s3 = s2\<lparr>r_log := r_log s2 @ new_entries,
                       r_pending_persist_log_from :=
                         (case r_pending_persist_log_from s2 of None \<Rightarrow> Some start_idx | Some i \<Rightarrow> Some i)\<rparr>;
               s4 = s3\<lparr>r_match_index :=
                         hm_insert (r_node_id s3) (Some (length (r_log s3) - 1)) (r_match_index s3)\<rparr>
           in Option.bind (try_advance_commit s4)
                (\<lambda>s5. Some (broadcast_with_entries e new_entries s5)))"

definition raft_start_election ::
  "env \<Rightarrow> ('v, 's) raft_protocol \<Rightarrow> (('v, 's) raft_protocol \<times> 'v raft_out) option" where
  "raft_start_election e s =
     (let was_candidate = (r_role s = Candidate);
          s1 = s\<lparr>r_current_term := u64_add (r_current_term s) 1, r_role := Candidate,
                 r_voted_for := Some (r_node_id s), r_votes_received := {r_node_id s},
                 r_leader := None,
                 r_election_deadline := clock e + sample_election_timeout e (r_config s),
                 r_pending_persist_term := True, r_pending_persist_voted_for := True\<rparr>
      in if card (r_votes_received s1) \<ge> raft_quorum s1 then raft_become_leader e s1
         else
           let s2 = (if was_candidate
                     then s1\<lparr>r_lost_proposals := r_lost_proposals s1 @ r_pending_proposals s1,
                             r_pending_proposals := []\<rparr>
                     else s1)
           in Some (s2, [Outgoing Broadcast
                (RequestVote (r_current_term s2) (r_node_id s2) (last_log_index s2) (last_log_term s2))]))"

definition handle_request_vote ::
  "env \<Rightarrow> u64 \<Rightarrow> node_id \<Rightarrow> u64 option \<Rightarrow> u64 \<Rightarrow> ('v, 's) raft_protocol
   \<Rightarrow> ('v, 's) raft_protocol \<times> 'v raft_out" where
  "handle_request_vote e term candidate last_index last_term s =
     (let grant =
            (if term < r_current_term s then False
             else
               let already_voted_for_other =
                     (case r_voted_for s of None \<Rightarrow> False | Some v \<Rightarrow> v \<noteq> candidate);
                   log_ok = candidate_log_at_least_as_up_to_date s last_term last_index
               in \<not> already_voted_for_other \<and> log_ok);
          s1 = (if grant
                then s\<lparr>r_voted_for := Some candidate, r_pending_persist_voted_for := True,
                       r_election_deadline := clock e + sample_election_timeout e (r_config s)\<rparr>
                else s)
      in (s1, [Outgoing (Peer candidate) (RequestVoteResponse (r_current_term s1) grant)]))"

definition handle_request_vote_response ::
  "env \<Rightarrow> node_id \<Rightarrow> u64 \<Rightarrow> bool \<Rightarrow> ('v, 's) raft_protocol
   \<Rightarrow> (('v, 's) raft_protocol \<times> 'v raft_out) option" where
  "handle_request_vote_response e from term vote_granted s =
     (if r_role s \<noteq> Candidate \<or> term \<noteq> r_current_term s then Some (s, [])
      else if vote_granted then
        let s1 = s\<lparr>r_votes_received := insert from (r_votes_received s)\<rparr>
        in if card (r_votes_received s1) \<ge> raft_quorum s1 then raft_become_leader e s1
           else Some (s1, [])
      else Some (s, []))"

section \<open>Log replication\<close>

text \<open>The conflict hint of a rejected \<open>AppendEntries\<close>.\<close>

definition conflict_hint :: "'v log_entry list \<Rightarrow> u64 option \<Rightarrow> u64 option \<times> u64 option" where
  "conflict_hint log prev_log_index =
     (case prev_log_index of
        Some idx \<Rightarrow>
          if idx \<ge> length log then (None, Some (length log))
          else
            let conflict_term_val = e_term (log ! idx)
            in (Some conflict_term_val,
                List.find (\<lambda>i. e_term (log ! i) = conflict_term_val) [0..<Suc idx])
      | None \<Rightarrow> (None, Some (length log)))"

text \<open>
  One round of the append loop at position \<open>insert_at\<close>: state and entry to state. The loop is
  \<open>append_loop\<close>.
\<close>

definition append_entry ::
  "nat \<Rightarrow> 'v log_entry \<Rightarrow> ('v, 's) raft_protocol \<Rightarrow> ('v, 's) raft_protocol" where
  "append_entry insert_at entry s =
     (if insert_at < length (r_log s) then
        (if e_term (r_log s ! insert_at) \<noteq> e_term entry
         then s\<lparr>r_log := take insert_at (r_log s) @ [entry],
                r_pending_truncate_from := Some insert_at,
                r_pending_persist_log_from :=
                  (case r_pending_persist_log_from s of
                     None \<Rightarrow> Some insert_at
                   | Some i \<Rightarrow> (if i > insert_at then Some insert_at else Some i))\<rparr>
         else s)
      else s\<lparr>r_log := r_log s @ [entry],
             r_pending_persist_log_from :=
               (case r_pending_persist_log_from s of
                  None \<Rightarrow> Some (length (r_log s)) | Some i \<Rightarrow> Some i)\<rparr>)"

fun append_loop ::
  "nat \<Rightarrow> 'v log_entry list \<Rightarrow> ('v, 's) raft_protocol \<Rightarrow> ('v, 's) raft_protocol" where
  "append_loop insert_at [] s = s"
| "append_loop insert_at (entry # entries) s =
     append_loop (Suc insert_at) entries (append_entry insert_at entry s)"

definition reject_append :: "node_id \<Rightarrow> u64 \<Rightarrow> u64 option \<Rightarrow> u64 option \<Rightarrow> 'v raft_out" where
  "reject_append leader term ct ci =
     [Outgoing (Peer leader) (AppendEntriesResponse term False None ct ci)]"

text \<open>The index verified by an accepted \<open>AppendEntries\<close>.\<close>

definition verified_index :: "u64 option \<Rightarrow> nat \<Rightarrow> u64 option" where
  "verified_index prev_log_index n =
     (case prev_log_index of
        Some p \<Rightarrow> Some (p + n)
      | None \<Rightarrow> (if n = 0 then None else Some (n - 1)))"

text \<open>Truncate whatever lies past the verified index.\<close>

definition truncate_unverified ::
  "u64 option \<Rightarrow> ('v, 's) raft_protocol \<Rightarrow> ('v, 's) raft_protocol" where
  "truncate_unverified match_idx s =
     (case match_idx of
        None \<Rightarrow> s
      | Some lst \<Rightarrow>
          let cutoff = lst + 1 in
          if length (r_log s) > cutoff
          then s\<lparr>r_log := take cutoff (r_log s),
                 r_pending_truncate_from := Some
                   (case r_pending_truncate_from s of Some p \<Rightarrow> min p cutoff | None \<Rightarrow> cutoff)\<rparr>
          else s)"

definition update_commit ::
  "u64 option \<Rightarrow> u64 option \<Rightarrow> ('v, 's) raft_protocol \<Rightarrow> ('v, 's) raft_protocol option" where
  "update_commit leader_commit match_idx s =
     (case (leader_commit, match_idx) of
        (Some lc, Some lst) \<Rightarrow>
          let new_ci = min lc lst in
          if (case r_commit_index s of None \<Rightarrow> True | Some c \<Rightarrow> new_ci > c)
          then apply_committed_entries
                 (s\<lparr>r_commit_index := Some new_ci, r_pending_persist_commit_index := True\<rparr>)
          else Some s
      | _ \<Rightarrow> Some s)"

definition handle_append_entries ::
  "env \<Rightarrow> u64 \<Rightarrow> node_id \<Rightarrow> u64 option \<Rightarrow> u64 \<Rightarrow> 'v log_entry list \<Rightarrow> u64 option
   \<Rightarrow> ('v, 's) raft_protocol \<Rightarrow> (('v, 's) raft_protocol \<times> 'v raft_out) option" where
  "handle_append_entries e term leader prev_log_index prev_log_term entries leader_commit s =
     (if term < r_current_term s
      then Some (s, reject_append leader (r_current_term s) None None)
      else if term = r_current_term s \<and> r_role s = Leader
      then Some (s, reject_append leader (r_current_term s) None None)
      else
        let s1 = s\<lparr>r_role := Follower, r_leader := Some leader,
                   r_election_deadline := clock e + sample_election_timeout e (r_config s)\<rparr>;
            prev_ok = (case prev_log_index of
                         None \<Rightarrow> True
                       | Some i \<Rightarrow> i < length (r_log s1) \<and> e_term (r_log s1 ! i) = prev_log_term)
        in if \<not> prev_ok then
             let (conflict_term, conflict_index) = conflict_hint (r_log s1) prev_log_index
             in Some (s1, reject_append leader (r_current_term s1) conflict_term conflict_index)
           else
             let start = (case prev_log_index of Some i \<Rightarrow> i + 1 | None \<Rightarrow> 0);
                 s2 = append_loop start entries s1;
                 match_idx = verified_index prev_log_index (length entries);
                 s3 = truncate_unverified match_idx s2
             in Option.bind (update_commit leader_commit match_idx s3) (\<lambda>s4.
                  Some (s4\<lparr>r_pending_proposals := []\<rparr>,
                    Outgoing (Peer leader)
                      (AppendEntriesResponse (r_current_term s4) True match_idx None None)
                    # map (\<lambda>value. Outgoing (Peer leader) (RForward value 0)) (r_pending_proposals s4))))"

text \<open>The last index of the leader's log that holds the conflicting term.\<close>

definition last_index_of_term :: "'v log_entry list \<Rightarrow> u64 \<Rightarrow> u64 option" where
  "last_index_of_term log ct = List.find (\<lambda>i. e_term (log ! i) = ct) (rev [0..<length log])"

definition backoff_next_index ::
  "('v, 's) raft_protocol \<Rightarrow> node_id \<Rightarrow> u64 option \<Rightarrow> u64 option \<Rightarrow> u64" where
  "backoff_next_index s from conflict_term conflict_index =
     (let log_len = length (r_log s);
          new_next =
            (case conflict_index of
               Some ci \<Rightarrow>
                 (case conflict_term of
                    Some ct \<Rightarrow>
                      (case last_index_of_term (r_log s) ct of
                         Some i \<Rightarrow> u64_saturating_add i 1
                       | None \<Rightarrow> ci)
                  | None \<Rightarrow> ci)
             | None \<Rightarrow> (case hm_get (r_next_index s) from of None \<Rightarrow> log_len | Some n \<Rightarrow> n) - 1)
      in min new_next log_len)"

definition handle_append_entries_response ::
  "node_id \<Rightarrow> u64 \<Rightarrow> bool \<Rightarrow> u64 option \<Rightarrow> u64 option \<Rightarrow> u64 option
   \<Rightarrow> ('v, 's) raft_protocol \<Rightarrow> (('v, 's) raft_protocol \<times> 'v raft_out) option" where
  "handle_append_entries_response from term success match_index conflict_term conflict_index s =
     (if r_role s \<noteq> Leader \<or> term \<noteq> r_current_term s then Some (s, [])
      else if success then
        (case match_index of
           None \<Rightarrow> Some (s, [])
         | Some mi \<Rightarrow>
             let log_len = length (r_log s) in
             if log_len = 0 \<or> mi \<ge> log_len then Some (s, [])
             else
               map_option (\<lambda>s'. (s', []))
                 (try_advance_commit
                   (s\<lparr>r_match_index := hm_insert from (Some mi) (r_match_index s),
                      r_next_index := hm_insert from (mi + 1) (r_next_index s)\<rparr>)))
      else
        let new_next = backoff_next_index s from conflict_term conflict_index;
            s1 = s\<lparr>r_next_index := hm_insert from new_next (r_next_index s)\<rparr>;
            prev = (if new_next = 0 then None else Some (new_next - 1));
            prev_term = (case prev of Some i \<Rightarrow> e_term (r_log s ! i) | None \<Rightarrow> 0)
        in Some (s1, [Outgoing (Peer from)
             (AppendEntries (r_current_term s) (r_node_id s) prev prev_term
                (drop new_next (r_log s)) (r_commit_index s))]))"

section \<open>The consensus interface\<close>

definition raft_propose ::
  "env \<Rightarrow> 'v \<Rightarrow> ('v, 's) raft_protocol \<Rightarrow> (('v, 's) raft_protocol \<times> 'v raft_out) option" where
  "raft_propose e value s =
     (if r_role s = Leader then
        let entry = LogEntry (r_current_term s) value;
            idx = length (r_log s);
            s1 = s\<lparr>r_log := r_log s @ [entry],
                   r_pending_persist_log_from :=
                     (case r_pending_persist_log_from s of None \<Rightarrow> Some idx | Some i \<Rightarrow> Some i),
                   r_match_index := hm_insert (r_node_id s) (Some idx) (r_match_index s)\<rparr>
        in Option.bind (try_advance_commit s1) (\<lambda>s2. Some (broadcast_with_entries e [entry] s2))
      else
        case r_leader s of
          Some leader \<Rightarrow> Some (s, [Outgoing (Peer leader) (RForward value 0)])
        | None \<Rightarrow> Some (s\<lparr>r_pending_proposals := r_pending_proposals s @ [value]\<rparr>, []))"

definition incoming_term :: "'v raft_message \<Rightarrow> u64 option" where
  "incoming_term msg =
     (case msg of
        RequestVote term _ _ _ \<Rightarrow> Some term
      | RequestVoteResponse term _ \<Rightarrow> Some term
      | AppendEntries term _ _ _ _ _ \<Rightarrow> Some term
      | AppendEntriesResponse term _ _ _ _ \<Rightarrow> Some term
      | RForward _ _ \<Rightarrow> None)"

text \<open>\<open>hops: u8\<close>, and \<open>saturating_add\<close> on it.\<close>

definition handle_raft_forward ::
  "env \<Rightarrow> node_id \<Rightarrow> 'v \<Rightarrow> nat \<Rightarrow> ('v, 's) raft_protocol
   \<Rightarrow> (('v, 's) raft_protocol \<times> 'v raft_out) option" where
  "handle_raft_forward e from value hops s =
     (if r_role s = Leader then raft_propose e value s
      else case r_leader s of
          Some leader \<Rightarrow>
            if leader \<noteq> from then
              let next_hops = min (hops + 1) 255 in
              if next_hops \<ge> MAX_FORWARD_HOPS then Some (s, [])
              else Some (s, [Outgoing (Peer leader) (RForward value next_hops)])
            else Some (s\<lparr>r_pending_proposals := r_pending_proposals s @ [value]\<rparr>, [])
        | None \<Rightarrow> Some (s\<lparr>r_pending_proposals := r_pending_proposals s @ [value]\<rparr>, []))"

definition bump_term :: "env \<Rightarrow> 'v raft_message \<Rightarrow> ('v, 's) raft_protocol \<Rightarrow> ('v, 's) raft_protocol" where
  "bump_term e msg s =
     (case incoming_term msg of
        Some t \<Rightarrow> (if t > r_current_term s then raft_become_follower e t None s else s)
      | None \<Rightarrow> s)"

definition raft_handle_message ::
  "env \<Rightarrow> node_id \<Rightarrow> 'v raft_message \<Rightarrow> ('v, 's) raft_protocol
   \<Rightarrow> (('v, 's) raft_protocol \<times> 'v raft_out) option" where
  "raft_handle_message e from msg s =
     (let s1 = bump_term e msg s in
      case msg of
        RequestVote term candidate last_index last_term \<Rightarrow>
          Some (handle_request_vote e term candidate last_index last_term s1)
      | RequestVoteResponse term vote_granted \<Rightarrow>
          handle_request_vote_response e from term vote_granted s1
      | AppendEntries term leader prev_log_index prev_log_term entries leader_commit \<Rightarrow>
          handle_append_entries e term leader prev_log_index prev_log_term entries leader_commit s1
      | AppendEntriesResponse term success match_index conflict_term conflict_index \<Rightarrow>
          handle_append_entries_response from term success match_index conflict_term conflict_index s1
      | RForward value hops \<Rightarrow> handle_raft_forward e from value hops s1)"

definition raft_on_tick ::
  "env \<Rightarrow> nat \<Rightarrow> ('v, 's) raft_protocol \<Rightarrow> (('v, 's) raft_protocol \<times> 'v raft_out) option" where
  "raft_on_tick e now s =
     (case r_role s of
        Leader \<Rightarrow>
          (let heartbeat_due =
                 (case r_last_heartbeat_sent s of
                    Some t \<Rightarrow> now - t \<ge> rc_heartbeat_interval (r_config s)
                  | None \<Rightarrow> True)
           in if heartbeat_due then Some (broadcast_heartbeat e s) else Some (s, []))
      | _ \<Rightarrow> if now \<ge> r_election_deadline s then raft_start_election e s else Some (s, []))"

definition raft_take_lost_proposals ::
  "('v, 's) raft_protocol \<Rightarrow> 'v list \<times> ('v, 's) raft_protocol" where
  "raft_take_lost_proposals s = (r_lost_proposals s, s\<lparr>r_lost_proposals := []\<rparr>)"

definition raft_is_idle :: "('v, 's) raft_protocol \<Rightarrow> bool" where
  "raft_is_idle s \<longleftrightarrow> r_log s = [] \<and> r_pending_proposals s = [] \<and> r_lost_proposals s = []
     \<and> r_role s \<noteq> Leader"

end
