(* ===== verification/PaxosProtocol.thy ===== *)
theory PaxosProtocol
  imports RaftProtocol
begin

text \<open>
  \<open>daccord/src/protocol/paxos.rs\<close>: the state of a Paxos node, its per-slot instances and its
  operations in the order of the source. The compile-time feature \<open>multi-paxos\<close> is the
  component \<open>p_multi_paxos\<close> of the state, which no operation changes: the operations below read it
  where the source has \<open>cfg(feature = "multi-paxos")\<close>. An operation that can reach an
  \<open>unwrap\<close> of nothing returns an option, \<^const>\<open>None\<close> being the panic.
\<close>

section \<open>State\<close>

datatype leader_state =
    PLeader u64
  | PFollower "node_id option" nat
  | PCandidate

record 'v forwarded_proposal =
  fp_sent_at :: nat
  fp_value :: 'v

record 'v election_state =
  el_proposal_number :: proposal_number
  el_since_slot :: u64
  el_promises_received :: "node_id set"
  el_accepted :: "(u64 \<times> proposal_number \<times> 'v) list"

record 'v paxos_instance =
  i_proposal_number :: proposal_number
  i_promises_received :: "node_id set"
  i_accepts_received :: "node_id set"
  i_highest_accepted :: "(proposal_number \<times> 'v) option"
  i_proposed_value :: "'v option"
  i_highest_promised :: "proposal_number option"
  i_accepted :: "(proposal_number \<times> 'v) option"
  i_decided :: bool
  i_is_proposer :: bool
  i_nacked :: bool
  i_highest_seen_nack :: "u64 option"
  i_last_nack_time :: "nat option"
  i_retry_count :: nat
  i_last_send_time :: "nat option"
  i_next_retry_at :: "nat option"

record ('v, 's) paxos_protocol =
  p_node_id :: node_id
  p_instances :: "(u64, 'v paxos_instance) hashmap"
  p_next_slot :: u64
  p_quorum_size :: nat
  p_decided_slots :: "(u64, 'v) hashmap"
  p_pending_decisions :: "'v decision list"
  p_lost_proposals :: "'v list"
  p_recent_decisions :: "(nat \<times> u64 \<times> 'v) list"
  p_leader_state :: leader_state
  p_highest_seen_round :: u64
  p_last_heartbeat_time :: "nat option"
  p_forwarded_proposals :: "'v forwarded_proposal list"
  p_leader_promise :: "proposal_number option"
  p_election :: "'v election_state option"
  p_election_started_at :: "nat option"
  p_heartbeat_interval :: nat
  p_storage :: 's
  p_multi_paxos :: bool

type_synonym 'v paxos_out = "'v paxos_message outgoing list"

section \<open>Construction and recovery\<close>

definition paxos_instance_new :: "'v paxos_instance" where
  "paxos_instance_new =
     \<lparr>i_proposal_number = (0, NodeId '''' 0), i_promises_received = {}, i_accepts_received = {},
      i_highest_accepted = None, i_proposed_value = None, i_highest_promised = None, i_accepted = None,
      i_decided = False, i_is_proposer = False, i_nacked = False, i_highest_seen_nack = None,
      i_last_nack_time = None, i_retry_count = 0, i_last_send_time = None, i_next_retry_at = None\<rparr>"

definition paxos_new_with_config ::
  "bool \<Rightarrow> env \<Rightarrow> node_id \<Rightarrow> nat \<Rightarrow> paxos_config \<Rightarrow> 's \<Rightarrow> ('v, 's) paxos_protocol" where
  "paxos_new_with_config multi_paxos e node_id total_nodes config storage =
     \<lparr>p_node_id = node_id, p_instances = [], p_next_slot = 0, p_quorum_size = total_nodes div 2 + 1,
      p_decided_slots = [], p_pending_decisions = [], p_lost_proposals = [], p_recent_decisions = [],
      p_leader_state = PFollower None (clock e), p_highest_seen_round = 0, p_last_heartbeat_time = None,
      p_forwarded_proposals = [], p_leader_promise = None, p_election = None,
      p_election_started_at = None, p_heartbeat_interval = pc_heartbeat_interval config,
      p_storage = storage, p_multi_paxos = multi_paxos\<rparr>"

fun initialize_from_decisions ::
  "(u64 \<times> 'v) list \<Rightarrow> ('v, 's) paxos_protocol \<Rightarrow> ('v, 's) paxos_protocol" where
  "initialize_from_decisions [] s = s"
| "initialize_from_decisions ((slot, value) # rest) s =
     initialize_from_decisions rest
       (let s1 = s\<lparr>p_decided_slots := hm_insert slot value (p_decided_slots s)\<rparr>
        in if slot \<ge> p_next_slot s1 then s1\<lparr>p_next_slot := u64_add slot 1\<rparr> else s1)"

definition paxos_recover ::
  "('s, 'v) paxos_storage \<Rightarrow> ('v, 's) paxos_protocol \<Rightarrow> (unit, storage_error) result \<times> ('v, 's) paxos_protocol" where
  "paxos_recover ops s =
     (case ps_load_decisions ops (p_storage s) of
        Err x \<Rightarrow> (Err x, s)
      | Ok decisions \<Rightarrow> (Ok (), initialize_from_decisions decisions s))"

definition paxos_flush_persist ::
  "('v, 's) paxos_protocol \<Rightarrow> (unit, storage_error) result \<times> ('v, 's) paxos_protocol" where
  "paxos_flush_persist s = (Ok (), s)"

definition paxos_take_decisions :: "('v, 's) paxos_protocol \<Rightarrow> 'v decision list \<times> ('v, 's) paxos_protocol" where
  "paxos_take_decisions s = (p_pending_decisions s, s\<lparr>p_pending_decisions := []\<rparr>)"

definition paxos_take_lost_proposals :: "('v, 's) paxos_protocol \<Rightarrow> 'v list \<times> ('v, 's) paxos_protocol" where
  "paxos_take_lost_proposals s = (p_lost_proposals s, s\<lparr>p_lost_proposals := []\<rparr>)"

text \<open>The decisions are taken from memory before they are saved: a failed save loses the rest.\<close>

definition paxos_drain_decisions ::
  "('s, 'v) paxos_storage \<Rightarrow> ('v, 's) paxos_protocol
   \<Rightarrow> ('v decision list, storage_error) result \<times> ('v, 's) paxos_protocol" where
  "paxos_drain_decisions ops s =
     (let (decisions, s1) = paxos_take_decisions s;
          (r, st) = save_decisions (ps_save_decision ops) decisions (p_storage s1)
      in (case r of Ok _ \<Rightarrow> Ok decisions | Err x \<Rightarrow> Err x, s1\<lparr>p_storage := st\<rparr>))"

definition paxos_is_idle :: "('v, 's) paxos_protocol \<Rightarrow> bool" where
  "paxos_is_idle s \<longleftrightarrow> p_instances s = []"

definition paxos_peek_state :: "('v, 's) paxos_protocol \<Rightarrow> protocol_snapshot" where
  "paxos_peek_state s =
     \<lparr>snap_role = None, snap_term = 0, snap_leader = None, snap_voted_for = None, snap_log_len = 0,
      snap_commit_index = None, snap_last_applied = None\<rparr>"

section \<open>Shared pieces\<close>

definition get_or_create_instance ::
  "u64 \<Rightarrow> ('v, 's) paxos_protocol \<Rightarrow> 'v paxos_instance \<times> ('v, 's) paxos_protocol" where
  "get_or_create_instance slot s =
     (case hm_get (p_instances s) slot of
        Some i \<Rightarrow> (i, s)
      | None \<Rightarrow> (paxos_instance_new, s\<lparr>p_instances := hm_insert slot paxos_instance_new (p_instances s)\<rparr>))"

definition set_instance ::
  "u64 \<Rightarrow> 'v paxos_instance \<Rightarrow> ('v, 's) paxos_protocol \<Rightarrow> ('v, 's) paxos_protocol" where
  "set_instance slot i s = s\<lparr>p_instances := hm_insert slot i (p_instances s)\<rparr>"

definition remove_instance :: "u64 \<Rightarrow> ('v, 's) paxos_protocol \<Rightarrow> ('v, 's) paxos_protocol" where
  "remove_instance slot s = s\<lparr>p_instances := hm_remove slot (p_instances s)\<rparr>"

definition at_least :: "proposal_number option \<Rightarrow> proposal_number \<Rightarrow> bool" where
  "at_least floor pn = (case floor of None \<Rightarrow> True | Some hp \<Rightarrow> pn \<ge> hp)"

definition above :: "proposal_number option \<Rightarrow> proposal_number \<Rightarrow> bool" where
  "above floor pn = (case floor of None \<Rightarrow> True | Some hp \<Rightarrow> pn > hp)"

text \<open>The delay before a retry: \<open>100 ms\<close> doubled per retry, at most thrice, plus up to half of it.\<close>

definition retry_delay :: "env \<Rightarrow> nat \<Rightarrow> nat" where
  "retry_delay e retry_count =
     (let base = u64_saturating_mul 100 (2 ^ min retry_count 3)
      in from_millis (base + random_range e 0 (base div 2)))"

definition first_retry_delay :: "env \<Rightarrow> nat" where
  "first_retry_delay e = from_millis (100 + random_range e 0 (100 div 2))"

text \<open>Forwarded proposals are cleared one at a time, the oldest that has the value.\<close>

fun ack_forwarded :: "'v \<Rightarrow> 'v forwarded_proposal list \<Rightarrow> 'v forwarded_proposal list" where
  "ack_forwarded value [] = []"
| "ack_forwarded value (f # fs) = (if fp_value f = value then fs else f # ack_forwarded value fs)"

definition ack_decided_value :: "'v \<Rightarrow> ('v, 's) paxos_protocol \<Rightarrow> ('v, 's) paxos_protocol" where
  "ack_decided_value value s = s\<lparr>p_forwarded_proposals := ack_forwarded value (p_forwarded_proposals s)\<rparr>"

definition decide :: "env \<Rightarrow> u64 \<Rightarrow> 'v \<Rightarrow> ('v, 's) paxos_protocol \<Rightarrow> ('v, 's) paxos_protocol" where
  "decide e slot value s =
     (let s1 = s\<lparr>p_decided_slots := hm_insert slot value (p_decided_slots s),
                 p_recent_decisions := p_recent_decisions s @ [(clock e, slot, value)]\<rparr>;
          s2 = (if slot \<ge> p_next_slot s1 then s1\<lparr>p_next_slot := u64_add slot 1\<rparr> else s1);
          s3 = (if p_multi_paxos s2 then ack_decided_value value s2 else s2)
      in s3\<lparr>p_pending_decisions := p_pending_decisions s3 @ [Decision slot value]\<rparr>)"

section \<open>Leadership\<close>

definition update_highest_seen_round :: "u64 \<Rightarrow> ('v, 's) paxos_protocol \<Rightarrow> ('v, 's) paxos_protocol" where
  "update_highest_seen_round round s = s\<lparr>p_highest_seen_round := max (p_highest_seen_round s) round\<rparr>"

definition paxos_become_leader :: "u64 \<Rightarrow> ('v, 's) paxos_protocol \<Rightarrow> ('v, 's) paxos_protocol" where
  "paxos_become_leader term s =
     s\<lparr>p_leader_state := PLeader term, p_highest_seen_round := max (p_highest_seen_round s) term,
       p_last_heartbeat_time := None\<rparr>"

definition step_down :: "env \<Rightarrow> node_id option \<Rightarrow> ('v, 's) paxos_protocol \<Rightarrow> ('v, 's) paxos_protocol" where
  "step_down e new_leader s = s\<lparr>p_leader_state := PFollower new_leader (clock e)\<rparr>"

definition is_leader :: "('v, 's) paxos_protocol \<Rightarrow> bool" where
  "is_leader s = (case p_leader_state s of PLeader _ \<Rightarrow> True | _ \<Rightarrow> False)"

definition update_leader_contact ::
  "env \<Rightarrow> node_id \<Rightarrow> u64 \<Rightarrow> ('v, 's) paxos_protocol \<Rightarrow> ('v, 's) paxos_protocol" where
  "update_leader_contact e from term s =
     (let s1 = s\<lparr>p_highest_seen_round := max (p_highest_seen_round s) term\<rparr> in
      case p_leader_state s1 of
        PFollower _ _ \<Rightarrow> s1\<lparr>p_leader_state := PFollower (Some from) (clock e)\<rparr>
      | PCandidate \<Rightarrow> s1\<lparr>p_leader_state := PFollower (Some from) (clock e)\<rparr>
      | PLeader my_term \<Rightarrow> (if term > my_term then step_down e (Some from) s1 else s1))"

definition get_leader :: "('v, 's) paxos_protocol \<Rightarrow> node_id option" where
  "get_leader s =
     (case p_leader_state s of
        PLeader _ \<Rightarrow> Some (p_node_id s)
      | PFollower leader _ \<Rightarrow> leader
      | PCandidate \<Rightarrow> None)"

definition should_send_heartbeat :: "env \<Rightarrow> ('v, 's) paxos_protocol \<Rightarrow> bool" where
  "should_send_heartbeat e s =
     (if is_leader s then
        case p_last_heartbeat_time s of
          Some t \<Rightarrow> clock e - t \<ge> p_heartbeat_interval s
        | None \<Rightarrow> True
      else False)"

definition make_heartbeat :: "env \<Rightarrow> ('v, 's) paxos_protocol \<Rightarrow> ('v, 's) paxos_protocol \<times> 'v paxos_out" where
  "make_heartbeat e s =
     (case p_leader_state s of
        PLeader term \<Rightarrow> (s\<lparr>p_last_heartbeat_time := Some (clock e)\<rparr>, [Outgoing Broadcast (Heartbeat term)])
      | _ \<Rightarrow> (s, []))"

definition check_leader_timeout :: "env \<Rightarrow> ('v, 's) paxos_protocol \<Rightarrow> bool" where
  "check_leader_timeout e s =
     (case p_leader_state s of
        PFollower (Some _) last_contact \<Rightarrow> clock e - last_contact \<ge> from_millis 500
      | PFollower None last_contact \<Rightarrow> p_instances s \<noteq> [] \<and> clock e - last_contact \<ge> from_millis 500
      | _ \<Rightarrow> False)"

section \<open>Acceptor\<close>

definition handle_prepare ::
  "node_id \<Rightarrow> u64 \<Rightarrow> proposal_number \<Rightarrow> ('v, 's) paxos_protocol
   \<Rightarrow> ('v, 's) paxos_protocol \<times> 'v paxos_out" where
  "handle_prepare from slot proposal_number s =
     (case hm_get (p_decided_slots s) slot of
        Some value \<Rightarrow> (s, [Outgoing (Peer from) (Decide slot value)])
      | None \<Rightarrow>
          let (i, s1) = get_or_create_instance slot s in
          if above (i_highest_promised i) proposal_number
          then (set_instance slot (i\<lparr>i_highest_promised := Some proposal_number\<rparr>) s1,
                [Outgoing (Peer from) (Promise slot proposal_number (i_accepted i))])
          else (s1, [Outgoing (Peer from) (NackPrepare slot proposal_number (the (i_highest_promised i)))]))"

text \<open>The floor of an \<open>Accept\<close>: the promise for the slot and, with leaders, the leader promise.\<close>

definition effective_floor :: "u64 \<Rightarrow> ('v, 's) paxos_protocol \<Rightarrow> proposal_number option" where
  "effective_floor slot s =
     (let per_slot = Option.bind (hm_get (p_instances s) slot) i_highest_promised in
      if p_multi_paxos s then
        case (per_slot, p_leader_promise s) of
          (Some a, Some b) \<Rightarrow> Some (if a \<ge> b then a else b)
        | (Some a, None) \<Rightarrow> Some a
        | (None, Some b) \<Rightarrow> Some b
        | (None, None) \<Rightarrow> None
      else per_slot)"

definition handle_accept ::
  "node_id \<Rightarrow> u64 \<Rightarrow> proposal_number \<Rightarrow> 'v \<Rightarrow> ('v, 's) paxos_protocol
   \<Rightarrow> ('v, 's) paxos_protocol \<times> 'v paxos_out" where
  "handle_accept from slot proposal_number value s =
     (case hm_get (p_decided_slots s) slot of
        Some decided_value \<Rightarrow> (s, [Outgoing (Peer from) (Decide slot decided_value)])
      | None \<Rightarrow>
          let floor = effective_floor slot s;
              (i, s1) = get_or_create_instance slot s
          in if at_least floor proposal_number
             then (set_instance slot (i\<lparr>i_highest_promised := Some proposal_number,
                                        i_accepted := Some (proposal_number, value)\<rparr>) s1,
                   [Outgoing (Peer from) (Accepted slot proposal_number value)])
             else (s1, [Outgoing (Peer from) (NackAccept slot proposal_number (the floor))]))"

section \<open>Proposer\<close>

definition start_phase2 ::
  "env \<Rightarrow> u64 \<Rightarrow> ('v, 's) paxos_protocol \<Rightarrow> (('v, 's) paxos_protocol \<times> 'v paxos_out) option" where
  "start_phase2 e slot s =
     (case hm_get (p_instances s) slot of
        None \<Rightarrow> None
      | Some i \<Rightarrow>
          (case (case i_highest_accepted i of Some (_, v) \<Rightarrow> Some v | None \<Rightarrow> i_proposed_value i) of
             None \<Rightarrow> None
           | Some value \<Rightarrow>
               let pn = i_proposal_number i;
                   can_self_accept = at_least (i_highest_promised i) pn;
                   i1 = (if can_self_accept
                         then i\<lparr>i_highest_promised := Some pn, i_accepted := Some (pn, value),
                                i_accepts_received := insert (p_node_id s) (i_accepts_received i)\<rparr>
                         else i);
                   s1 = set_instance slot i1 s
               in if card (i_accepts_received i1) \<ge> p_quorum_size s
                  then Some (remove_instance slot (decide e slot value s1),
                             [Outgoing Broadcast (Decide slot value)])
                  else Some (s1, [Outgoing Broadcast (Accept slot pn value)])))"

definition handle_promise ::
  "env \<Rightarrow> node_id \<Rightarrow> u64 \<Rightarrow> proposal_number \<Rightarrow> (proposal_number \<times> 'v) option \<Rightarrow> ('v, 's) paxos_protocol
   \<Rightarrow> (('v, 's) paxos_protocol \<times> 'v paxos_out) option" where
  "handle_promise e from slot proposal_number accepted s =
     (if hm_contains (p_decided_slots s) slot then Some (s, [])
      else case hm_get (p_instances s) slot of
          None \<Rightarrow> Some (s, [])
        | Some i \<Rightarrow>
            if \<not> (i_proposal_number i = proposal_number \<and> \<not> i_decided i) then Some (s, [])
            else
              let i1 = i\<lparr>i_promises_received := insert from (i_promises_received i)\<rparr>;
                  i2 = (case accepted of
                          Some (pn, val) \<Rightarrow>
                            if above (map_option fst (i_highest_accepted i1)) pn
                            then i1\<lparr>i_highest_accepted := Some (pn, val)\<rparr> else i1
                        | None \<Rightarrow> i1);
                  s1 = set_instance slot i2 s
              in if card (i_promises_received i2) \<ge> p_quorum_size s then start_phase2 e slot s1
                 else Some (s1, []))"

definition handle_accepted ::
  "env \<Rightarrow> node_id \<Rightarrow> u64 \<Rightarrow> proposal_number \<Rightarrow> ('v, 's) paxos_protocol
   \<Rightarrow> (('v, 's) paxos_protocol \<times> 'v paxos_out) option" where
  "handle_accepted e from slot proposal_number s =
     (if hm_contains (p_decided_slots s) slot then Some (s, [])
      else case hm_get (p_instances s) slot of
          None \<Rightarrow> Some (s, [])
        | Some i \<Rightarrow>
            if \<not> (i_proposal_number i = proposal_number \<and> \<not> i_decided i) then Some (s, [])
            else
              let i1 = i\<lparr>i_accepts_received := insert from (i_accepts_received i)\<rparr>
              in if card (i_accepts_received i1) \<ge> p_quorum_size s then
                   (case i_accepted i1 of
                      None \<Rightarrow> None
                    | Some (_, value) \<Rightarrow>
                        let s1 = set_instance slot (i1\<lparr>i_decided := True\<rparr>) s
                        in Some (remove_instance slot (decide e slot value s1),
                                 [Outgoing Broadcast (Decide slot value)]))
                 else Some (set_instance slot i1 s, []))"

definition handle_decide :: "env \<Rightarrow> node_id \<Rightarrow> u64 \<Rightarrow> 'v \<Rightarrow> ('v, 's) paxos_protocol \<Rightarrow> ('v, 's) paxos_protocol" where
  "handle_decide e from slot value s =
     (let s1 = (if p_multi_paxos s then
                  case p_leader_state s of
                    PFollower (Some leader_id) _ \<Rightarrow>
                      (if leader_id = from
                       then s\<lparr>p_leader_state := PFollower (Some leader_id) (clock e)\<rparr> else s)
                  | _ \<Rightarrow> s
                else s)
      in if hm_contains (p_decided_slots s1) slot then s1
         else
           let s2 = (case hm_get (p_instances s1) slot of
                       Some i \<Rightarrow>
                         if i_is_proposer i then
                           case i_proposed_value i of
                             Some proposed \<Rightarrow>
                               if proposed \<noteq> value
                               then s1\<lparr>p_lost_proposals := p_lost_proposals s1 @ [proposed]\<rparr> else s1
                           | None \<Rightarrow> s1
                         else s1
                     | None \<Rightarrow> s1)
           in remove_instance slot (decide e slot value s2))"

definition handle_nack :: "env \<Rightarrow> u64 \<Rightarrow> proposal_number \<Rightarrow> ('v, 's) paxos_protocol \<Rightarrow> ('v, 's) paxos_protocol" where
  "handle_nack e slot highest_promised s =
     (let round = fst highest_promised;
          s1 = (case hm_get (p_instances s) slot of
                  None \<Rightarrow> s
                | Some i \<Rightarrow>
                    set_instance slot
                      (i\<lparr>i_nacked := True, i_last_nack_time := Some (clock e),
                         i_highest_seen_nack :=
                           (if (case i_highest_seen_nack i of None \<Rightarrow> True | Some r \<Rightarrow> round > r)
                            then Some round else i_highest_seen_nack i),
                         i_next_retry_at := Some (clock e + retry_delay e (i_retry_count i))\<rparr>) s)
      in if p_multi_paxos s1 then
           let s2 = update_highest_seen_round round s1
           in if is_leader s2 then step_down e None s2 else s2
         else s1)"

section \<open>Proposing\<close>

definition propose_full_paxos ::
  "env \<Rightarrow> 'v \<Rightarrow> ('v, 's) paxos_protocol \<Rightarrow> (u64 \<times> ('v, 's) paxos_protocol \<times> 'v paxos_out) option" where
  "propose_full_paxos e value s =
     (let slot = p_next_slot s;
          s1 = s\<lparr>p_next_slot := u64_add (p_next_slot s) 1\<rparr>;
          node_id = p_node_id s1;
          proposal_number = (1, node_id);
          (i, s2) = get_or_create_instance slot s1;
          i1 = i\<lparr>i_proposal_number := proposal_number, i_proposed_value := Some value,
                 i_is_proposer := True, i_last_send_time := Some (clock e),
                 i_next_retry_at := Some (clock e + first_retry_delay e),
                 i_highest_promised := Some proposal_number,
                 i_promises_received := insert node_id (i_promises_received i)\<rparr>;
          s3 = set_instance slot i1 s2
      in if card (i_promises_received i1) \<ge> p_quorum_size s3
         then map_option (\<lambda>(s4, outs). (slot, s4, outs)) (start_phase2 e slot s3)
         else Some (slot, s3, [Outgoing Broadcast (Prepare slot proposal_number)]))"

definition propose_fast_path ::
  "env \<Rightarrow> 'v \<Rightarrow> u64 \<Rightarrow> ('v, 's) paxos_protocol \<Rightarrow> u64 \<times> ('v, 's) paxos_protocol \<times> 'v paxos_out" where
  "propose_fast_path e value term s =
     (let slot = p_next_slot s;
          s1 = s\<lparr>p_next_slot := u64_add (p_next_slot s) 1\<rparr>;
          node_id = p_node_id s1;
          proposal_number = (term, node_id);
          (i, s2) = get_or_create_instance slot s1;
          i1 = i\<lparr>i_proposal_number := proposal_number, i_proposed_value := Some value,
                 i_is_proposer := True, i_last_send_time := Some (clock e),
                 i_next_retry_at := Some (clock e + first_retry_delay e),
                 i_highest_promised := Some proposal_number,
                 i_accepted := Some (proposal_number, value),
                 i_accepts_received := insert node_id (i_accepts_received i),
                 i_promises_received := insert node_id (i_promises_received i)\<rparr>;
          s3 = set_instance slot i1 s2
      in if card (i_accepts_received i1) \<ge> p_quorum_size s3
         then (slot, remove_instance slot (decide e slot value s3), [Outgoing Broadcast (Decide slot value)])
         else (slot, s3, [Outgoing Broadcast (Accept slot proposal_number value)]))"

definition inner_propose ::
  "env \<Rightarrow> 'v \<Rightarrow> ('v, 's) paxos_protocol \<Rightarrow> (u64 \<times> ('v, 's) paxos_protocol \<times> 'v paxos_out) option" where
  "inner_propose e value s =
     (if p_multi_paxos s then
        case p_leader_state s of
          PLeader term \<Rightarrow> Some (propose_fast_path e value term s)
        | _ \<Rightarrow> propose_full_paxos e value s
      else propose_full_paxos e value s)"

section \<open>Retries\<close>

definition retryable :: "nat \<Rightarrow> nat \<Rightarrow> 'v paxos_instance \<Rightarrow> bool" where
  "retryable now quorum_size i =
     (if i_decided i \<or> \<not> i_is_proposer i then False
      else case i_next_retry_at i of
          None \<Rightarrow> False
        | Some retry_at \<Rightarrow>
            if now < retry_at then False
            else if i_nacked i then True
            else
              let in_phase2 = (i_accepts_received i \<noteq> {});
                  has_relevant_quorum =
                    (if in_phase2 then card (i_accepts_received i) \<ge> quorum_size
                     else card (i_promises_received i) \<ge> quorum_size)
              in \<not> has_relevant_quorum)"

definition get_retryable_proposals :: "env \<Rightarrow> ('v, 's) paxos_protocol \<Rightarrow> u64 list" where
  "get_retryable_proposals e s =
     map fst (filter (\<lambda>(_, i). retryable (clock e) (p_quorum_size s) i) (p_instances s))"

definition get_decision_rebroadcasts :: "env \<Rightarrow> ('v, 's) paxos_protocol \<Rightarrow> ('v, 's) paxos_protocol \<times> 'v paxos_out" where
  "get_decision_rebroadcasts e s =
     (let s1 = s\<lparr>p_recent_decisions := filter (\<lambda>(t, _, _). clock e - t < from_secs 5) (p_recent_decisions s)\<rparr>
      in (s1, map (\<lambda>(_, slot, value). Outgoing Broadcast (Decide slot value)) (p_recent_decisions s1)))"

text \<open>The counters are a \<open>u64\<close> round and a \<open>u32\<close> number of retries.\<close>

definition retry_proposal ::
  "env \<Rightarrow> u64 \<Rightarrow> ('v, 's) paxos_protocol \<Rightarrow> (('v, 's) paxos_protocol \<times> 'v paxos_out) option" where
  "retry_proposal e slot s =
     (case hm_get (p_instances s) slot of
        None \<Rightarrow> Some (s, [])
      | Some i \<Rightarrow>
          if \<not> (\<not> i_decided i \<and> i_is_proposer i) then Some (s, [])
          else
            let acceptor_round = (case i_highest_promised i of None \<Rightarrow> 0 | Some hp \<Rightarrow> fst hp);
                nack_round = (case i_highest_seen_nack i of None \<Rightarrow> 0 | Some r \<Rightarrow> r);
                proposer_round = fst (i_proposal_number i);
                new_round = u64_add (max (max acceptor_round nack_round) proposer_round) 1;
                proposal_number = (new_round, p_node_id s);
                retry_count = (i_retry_count i + 1) mod 2 ^ 32;
                i1 = i\<lparr>i_proposal_number := proposal_number, i_promises_received := {},
                       i_accepts_received := {}, i_highest_accepted := None, i_nacked := False,
                       i_highest_seen_nack := None, i_last_nack_time := None,
                       i_retry_count := retry_count, i_last_send_time := Some (clock e),
                       i_next_retry_at := Some (clock e + retry_delay e retry_count)\<rparr>;
                i2 = i1\<lparr>i_highest_promised := Some proposal_number,
                        i_promises_received := insert (p_node_id s) (i_promises_received i1)\<rparr>;
                s1 = set_instance slot i2 s
            in if card (i_promises_received i2) \<ge> p_quorum_size s then start_phase2 e slot s1
               else Some (s1, [Outgoing Broadcast (Prepare slot proposal_number)]))"

section \<open>Leader election\<close>

definition collect_accepted_for_promise ::
  "u64 \<Rightarrow> ('v, 's) paxos_protocol \<Rightarrow> (u64 \<times> proposal_number \<times> 'v) list" where
  "collect_accepted_for_promise since_slot s =
     concat (map (\<lambda>(slot, i).
       if slot < since_slot then []
       else if hm_contains (p_decided_slots s) slot then []
       else case i_accepted i of Some (pn, val) \<Rightarrow> [(slot, pn, val)] | None \<Rightarrow> []) (p_instances s))"

definition replay_accept ::
  "env \<Rightarrow> u64 \<Rightarrow> proposal_number \<Rightarrow> 'v \<Rightarrow> ('v, 's) paxos_protocol
   \<Rightarrow> ('v, 's) paxos_protocol \<times> 'v paxos_out" where
  "replay_accept e slot proposal_number value s =
     (if hm_contains (p_decided_slots s) slot then (s, [])
      else
        let node_id = p_node_id s;
            (i, s1) = get_or_create_instance slot s;
            i1 = i\<lparr>i_proposal_number := proposal_number, i_proposed_value := Some value,
                   i_is_proposer := True, i_last_send_time := Some (clock e),
                   i_next_retry_at := Some (clock e + first_retry_delay e),
                   i_highest_promised := Some proposal_number,
                   i_accepted := Some (proposal_number, value),
                   i_accepts_received := {node_id}, i_promises_received := {node_id}\<rparr>;
            s2 = set_instance slot i1 s1
        in if card (i_accepts_received i1) \<ge> p_quorum_size s2
           then (remove_instance slot (decide e slot value s2), [Outgoing Broadcast (Decide slot value)])
           else (s2, [Outgoing Broadcast (Accept slot proposal_number value)]))"

text \<open>The loop that keeps the highest accepted value of each slot.\<close>

fun highest_per_slot ::
  "(u64, 'v) hashmap \<Rightarrow> (u64 \<times> proposal_number \<times> 'v) list \<Rightarrow> (u64, proposal_number \<times> 'v) hashmap
   \<Rightarrow> (u64, proposal_number \<times> 'v) hashmap" where
  "highest_per_slot decided [] m = m"
| "highest_per_slot decided ((slot, pn, val) # rest) m =
     highest_per_slot decided rest
       (if hm_contains decided slot then m
        else case hm_get m slot of
            Some (existing_pn, _) \<Rightarrow> (if pn \<le> existing_pn then m else hm_insert slot (pn, val) m)
          | None \<Rightarrow> hm_insert slot (pn, val) m)"

text \<open>The loop over the recovered slots.\<close>

fun replay_accepts ::
  "env \<Rightarrow> proposal_number \<Rightarrow> (u64 \<times> 'v) list \<Rightarrow> ('v, 's) paxos_protocol
   \<Rightarrow> ('v, 's) paxos_protocol \<times> 'v paxos_out" where
  "replay_accepts e pn [] s = (s, [])"
| "replay_accepts e pn ((slot, value) # rest) s =
     (let (s1, out1) = replay_accept e slot pn value s;
          (s2, out2) = replay_accepts e pn rest s1
      in (s2, out1 @ out2))"

text \<open>\<open>if m + 1 > next_slot { next_slot = m + 1 }\<close> for the largest key, when there is one.\<close>

definition advance_next_slot :: "u64 option \<Rightarrow> ('v, 's) paxos_protocol \<Rightarrow> ('v, 's) paxos_protocol" where
  "advance_next_slot max_slot s =
     (case max_slot of
        None \<Rightarrow> s
      | Some m \<Rightarrow> (if u64_add m 1 > p_next_slot s then s\<lparr>p_next_slot := u64_add m 1\<rparr> else s))"

definition complete_leader_election ::
  "env \<Rightarrow> ('v, 's) paxos_protocol \<Rightarrow> ('v, 's) paxos_protocol \<times> 'v paxos_out" where
  "complete_leader_election e s =
     (case p_election s of
        None \<Rightarrow> (s, [])
      | Some el \<Rightarrow>
          let s1 = s\<lparr>p_election := None, p_election_started_at := None\<rparr>;
              term = fst (el_proposal_number el);
              new_pn = el_proposal_number el;
              highest = highest_per_slot (p_decided_slots s1) (el_accepted el) [];
              s2 = advance_next_slot (list_max (hm_keys highest)) s1;
              s3 = advance_next_slot (list_max (hm_keys (p_instances s2))) s2;
              s4 = paxos_become_leader term s3;
              recovered = map (\<lambda>(slot, (_, val)). (slot, val)) highest
          in replay_accepts e new_pn recovered s4)"

definition paxos_start_election ::
  "env \<Rightarrow> ('v, 's) paxos_protocol \<Rightarrow> ('v, 's) paxos_protocol \<times> 'v paxos_out" where
  "paxos_start_election e s =
     (let s1 = s\<lparr>p_leader_state := PCandidate\<rparr>;
          round = u64_add (p_highest_seen_round s1) 1;
          proposal_number = (round, p_node_id s1);
          since_slot = (case list_min (hm_keys (p_instances s1)) of Some m \<Rightarrow> m | None \<Rightarrow> p_next_slot s1);
          promises_received = {p_node_id s1};
          s2 = s1\<lparr>p_election := Some \<lparr>el_proposal_number = proposal_number, el_since_slot = since_slot,
                      el_promises_received = promises_received,
                      el_accepted = collect_accepted_for_promise since_slot s1\<rparr>,
                  p_election_started_at := Some (clock e)\<rparr>;
          s3 = (if above (p_leader_promise s2) proposal_number
                then s2\<lparr>p_leader_promise := Some proposal_number\<rparr> else s2);
          s4 = update_highest_seen_round round s3
      in if card promises_received \<ge> p_quorum_size s4 then complete_leader_election e s4
         else (s4, [Outgoing Broadcast (PrepareLeader proposal_number since_slot)]))"

definition check_election_timeout :: "env \<Rightarrow> ('v, 's) paxos_protocol \<Rightarrow> ('v, 's) paxos_protocol" where
  "check_election_timeout e s =
     (case p_election_started_at s of
        Some t \<Rightarrow>
          if clock e - t \<ge> from_millis 500 \<and> p_election s \<noteq> None
          then s\<lparr>p_election := None, p_election_started_at := None,
                 p_leader_state := PFollower None (clock e)\<rparr>
          else s
      | None \<Rightarrow> s)"

definition handle_prepare_leader ::
  "env \<Rightarrow> node_id \<Rightarrow> proposal_number \<Rightarrow> u64 \<Rightarrow> ('v, 's) paxos_protocol
   \<Rightarrow> ('v, 's) paxos_protocol \<times> 'v paxos_out" where
  "handle_prepare_leader e from proposal_number since_slot s =
     (if above (p_leader_promise s) proposal_number then
        let s1 = update_highest_seen_round (fst proposal_number) (s\<lparr>p_leader_promise := Some proposal_number\<rparr>);
            s2 = (if is_leader s1 then step_down e (Some from) s1 else s1);
            s3 = (case p_election s2 of
                    Some el \<Rightarrow>
                      if proposal_number > el_proposal_number el
                      then s2\<lparr>p_election := None, p_election_started_at := None\<rparr> else s2
                  | None \<Rightarrow> s2)
        in (s3, [Outgoing (Peer from) (PromiseLeader proposal_number (collect_accepted_for_promise since_slot s3))])
      else (s, [Outgoing (Peer from) (NackLeader proposal_number (the (p_leader_promise s)))]))"

definition handle_promise_leader ::
  "env \<Rightarrow> node_id \<Rightarrow> proposal_number \<Rightarrow> (u64 \<times> proposal_number \<times> 'v) list \<Rightarrow> ('v, 's) paxos_protocol
   \<Rightarrow> ('v, 's) paxos_protocol \<times> 'v paxos_out" where
  "handle_promise_leader e from proposal_number accepted s =
     (case p_election s of
        None \<Rightarrow> (s, [])
      | Some el \<Rightarrow>
          if el_proposal_number el \<noteq> proposal_number then (s, [])
          else
            let el1 = el\<lparr>el_promises_received := insert from (el_promises_received el),
                         el_accepted := el_accepted el @ accepted\<rparr>;
                s1 = s\<lparr>p_election := Some el1\<rparr>
            in if card (el_promises_received el1) \<ge> p_quorum_size s then complete_leader_election e s1
               else (s1, []))"

definition handle_nack_leader :: "env \<Rightarrow> proposal_number \<Rightarrow> ('v, 's) paxos_protocol \<Rightarrow> ('v, 's) paxos_protocol" where
  "handle_nack_leader e highest_promised s =
     (let s1 = (update_highest_seen_round (fst highest_promised) s)\<lparr>p_election := None, p_election_started_at := None\<rparr>
      in if p_leader_state s1 = PCandidate then s1\<lparr>p_leader_state := PFollower None (clock e)\<rparr> else s1)"

definition handle_heartbeat :: "env \<Rightarrow> node_id \<Rightarrow> u64 \<Rightarrow> ('v, 's) paxos_protocol \<Rightarrow> ('v, 's) paxos_protocol" where
  "handle_heartbeat e from term s =
     (if term \<ge> p_highest_seen_round s then update_leader_contact e from term s else s)"

definition handle_forward ::
  "env \<Rightarrow> 'v \<Rightarrow> ('v, 's) paxos_protocol \<Rightarrow> (('v, 's) paxos_protocol \<times> 'v paxos_out) option" where
  "handle_forward e value s =
     (if is_leader s then map_option snd (inner_propose e value s) else Some (s, []))"

definition propose_or_forward ::
  "env \<Rightarrow> 'v \<Rightarrow> ('v, 's) paxos_protocol \<Rightarrow> (('v, 's) paxos_protocol \<times> 'v paxos_out) option" where
  "propose_or_forward e value s =
     (case get_leader s of
        Some leader_id \<Rightarrow>
          if leader_id \<noteq> p_node_id s
          then Some (s\<lparr>p_forwarded_proposals := p_forwarded_proposals s @ [\<lparr>fp_sent_at = clock e, fp_value = value\<rparr>]\<rparr>,
                     [Outgoing (Peer leader_id) (PForward value)])
          else map_option snd (inner_propose e value s)
      | None \<Rightarrow> map_option snd (inner_propose e value s))"

fun inner_proposes ::
  "env \<Rightarrow> 'v list \<Rightarrow> ('v, 's) paxos_protocol \<Rightarrow> (('v, 's) paxos_protocol \<times> 'v paxos_out) option" where
  "inner_proposes e [] s = Some (s, [])"
| "inner_proposes e (value # rest) s =
     Option.bind (inner_propose e value s) (\<lambda>(_, s1, out1).
       map_option (\<lambda>(s2, out2). (s2, out1 @ out2)) (inner_proposes e rest s1))"

definition handle_forwarded_proposal_timeouts ::
  "env \<Rightarrow> ('v, 's) paxos_protocol \<Rightarrow> (('v, 's) paxos_protocol \<times> 'v paxos_out) option" where
  "handle_forwarded_proposal_timeouts e s =
     (let timed_out = map fp_value (filter (\<lambda>f. clock e - fp_sent_at f \<ge> from_secs 1) (p_forwarded_proposals s));
          s1 = s\<lparr>p_forwarded_proposals := filter (\<lambda>f. clock e - fp_sent_at f < from_secs 1) (p_forwarded_proposals s)\<rparr>
      in inner_proposes e timed_out s1)"

section \<open>The consensus interface\<close>

text \<open>
  Without the feature the last five variants do not exist: a message that carries one fails to
  decode and never reaches the handler.
\<close>

definition paxos_handle_message ::
  "env \<Rightarrow> node_id \<Rightarrow> 'v paxos_message \<Rightarrow> ('v, 's) paxos_protocol
   \<Rightarrow> (('v, 's) paxos_protocol \<times> 'v paxos_out) option" where
  "paxos_handle_message e from msg s =
     (case msg of
        Prepare slot pn \<Rightarrow> Some (handle_prepare from slot pn s)
      | Promise slot pn accepted \<Rightarrow> handle_promise e from slot pn accepted s
      | Accept slot pn value \<Rightarrow> Some (handle_accept from slot pn value s)
      | Accepted slot pn value \<Rightarrow> handle_accepted e from slot pn s
      | Decide slot value \<Rightarrow> Some (handle_decide e from slot value s, [])
      | NackPrepare slot _ highest_promised \<Rightarrow> Some (handle_nack e slot highest_promised s, [])
      | NackAccept slot _ highest_promised \<Rightarrow> Some (handle_nack e slot highest_promised s, [])
      | PForward value \<Rightarrow> if p_multi_paxos s then handle_forward e value s else Some (s, [])
      | Heartbeat term \<Rightarrow> if p_multi_paxos s then Some (handle_heartbeat e from term s, []) else Some (s, [])
      | PrepareLeader pn since \<Rightarrow>
          if p_multi_paxos s then Some (handle_prepare_leader e from pn since s) else Some (s, [])
      | PromiseLeader pn accepted \<Rightarrow>
          if p_multi_paxos s then Some (handle_promise_leader e from pn accepted s) else Some (s, [])
      | NackLeader _ highest_promised \<Rightarrow>
          if p_multi_paxos s then Some (handle_nack_leader e highest_promised s, []) else Some (s, []))"

definition paxos_propose ::
  "env \<Rightarrow> 'v \<Rightarrow> ('v, 's) paxos_protocol \<Rightarrow> (('v, 's) paxos_protocol \<times> 'v paxos_out) option" where
  "paxos_propose e value s =
     (if p_multi_paxos s then propose_or_forward e value s
      else map_option snd (inner_propose e value s))"

fun retry_proposals ::
  "env \<Rightarrow> u64 list \<Rightarrow> ('v, 's) paxos_protocol \<Rightarrow> (('v, 's) paxos_protocol \<times> 'v paxos_out) option" where
  "retry_proposals e [] s = Some (s, [])"
| "retry_proposals e (slot # rest) s =
     Option.bind (retry_proposal e slot s) (\<lambda>(s1, out1).
       map_option (\<lambda>(s2, out2). (s2, out1 @ out2)) (retry_proposals e rest s1))"

definition paxos_on_tick :: "env \<Rightarrow> ('v, 's) paxos_protocol \<Rightarrow> (('v, 's) paxos_protocol \<times> 'v paxos_out) option" where
  "paxos_on_tick e s =
     Option.bind (retry_proposals e (get_retryable_proposals e s) s) (\<lambda>(s1, out1).
       let (s2, out2) = get_decision_rebroadcasts e s1 in
       if p_multi_paxos s2 then
         let (s3, out3) = (if should_send_heartbeat e s2 then make_heartbeat e s2 else (s2, []));
             s4 = check_election_timeout e s3;
             (s5, out5) = (if check_leader_timeout e s4 then paxos_start_election e s4 else (s4, []))
         in map_option (\<lambda>(s6, out6). (s6, out1 @ out2 @ out3 @ out5 @ out6)) (handle_forwarded_proposal_timeouts e s5)
       else Some (s2, out1 @ out2))"

end
