(* ===== verification/Protocol.thy ===== *)
theory Protocol
  imports PaxosProtocol
begin

text \<open>
  \<open>daccord/src/protocol/mod.rs\<close>: the enumeration that lets a node run either algorithm, each
  operation dispatching to the variant at hand and wrapping its messages for the wire.
\<close>

section \<open>The two algorithms behind one type\<close>

datatype ('v, 'ps, 'rs) protocol_impl =
    Paxos "('v, 'ps) paxos_protocol"
  | Raft "('v, 'rs) raft_protocol"

text \<open>The storages the two variants own.\<close>

record ('v, 'ps, 'rs) storages =
  st_paxos :: "('ps, 'v) paxos_storage"
  st_raft :: "('rs, 'v) raft_storage"

type_synonym 'v wire_out = "'v wire_variant outgoing list"

definition wrap_paxos :: "'v paxos_message outgoing \<Rightarrow> 'v wire_variant outgoing" where
  "wrap_paxos out = Outgoing (o_target out) (WPaxos (o_message out))"

definition wrap_raft :: "'v raft_message outgoing \<Rightarrow> 'v wire_variant outgoing" where
  "wrap_raft out = Outgoing (o_target out) (WRaft (o_message out))"

definition lift_paxos ::
  "(('v, 'ps) paxos_protocol \<times> 'v paxos_out) option \<Rightarrow> (('v, 'ps, 'rs) protocol_impl \<times> 'v wire_out) option" where
  "lift_paxos r = map_option (\<lambda>(s, outs). (Paxos s, map wrap_paxos outs)) r"

definition lift_raft ::
  "(('v, 'rs) raft_protocol \<times> 'v raft_out) option \<Rightarrow> (('v, 'ps, 'rs) protocol_impl \<times> 'v wire_out) option" where
  "lift_raft r = map_option (\<lambda>(s, outs). (Raft s, map wrap_raft outs)) r"

definition protocol_propose ::
  "env \<Rightarrow> 'v \<Rightarrow> ('v, 'ps, 'rs) protocol_impl \<Rightarrow> (('v, 'ps, 'rs) protocol_impl \<times> 'v wire_out) option" where
  "protocol_propose e value p =
     (case p of
        Paxos s \<Rightarrow> lift_paxos (paxos_propose e value s)
      | Raft s \<Rightarrow> lift_raft (raft_propose e value s))"

definition handle_wire_message ::
  "env \<Rightarrow> node_id \<Rightarrow> 'v wire_variant \<Rightarrow> ('v, 'ps, 'rs) protocol_impl
   \<Rightarrow> (('v, 'ps, 'rs) protocol_impl \<times> 'v wire_out) option" where
  "handle_wire_message e from msg p =
     (case (p, msg) of
        (Paxos s, WPaxos m) \<Rightarrow> lift_paxos (paxos_handle_message e from m s)
      | (Raft s, WRaft m) \<Rightarrow> lift_raft (raft_handle_message e from m s)
      | (Paxos _, WRaft _) \<Rightarrow> Some (p, [])
      | (Raft _, WPaxos _) \<Rightarrow> Some (p, []))"

definition protocol_on_tick ::
  "env \<Rightarrow> nat \<Rightarrow> ('v, 'ps, 'rs) protocol_impl \<Rightarrow> (('v, 'ps, 'rs) protocol_impl \<times> 'v wire_out) option" where
  "protocol_on_tick e now p =
     (case p of
        Paxos s \<Rightarrow> lift_paxos (paxos_on_tick e s)
      | Raft s \<Rightarrow> lift_raft (raft_on_tick e now s))"

definition protocol_recover ::
  "('v, 'ps, 'rs) storages \<Rightarrow> env \<Rightarrow> ('v, 'ps, 'rs) protocol_impl
   \<Rightarrow> ((unit, storage_error) result \<times> ('v, 'ps, 'rs) protocol_impl) option" where
  "protocol_recover st e p =
     (case p of
        Paxos s \<Rightarrow> Some (map_prod id Paxos (paxos_recover (st_paxos st) s))
      | Raft s \<Rightarrow> map_option (map_prod id Raft) (raft_recover (st_raft st) e s))"

definition protocol_flush_persist ::
  "('v, 'ps, 'rs) storages \<Rightarrow> ('v, 'ps, 'rs) protocol_impl
   \<Rightarrow> ((unit, storage_error) result \<times> ('v, 'ps, 'rs) protocol_impl) option" where
  "protocol_flush_persist st p =
     (case p of
        Paxos s \<Rightarrow> Some (map_prod id Paxos (paxos_flush_persist s))
      | Raft s \<Rightarrow> map_option (map_prod id Raft) (raft_flush_persist (st_raft st) s))"

definition protocol_drain_decisions ::
  "('v, 'ps, 'rs) storages \<Rightarrow> ('v, 'ps, 'rs) protocol_impl
   \<Rightarrow> ('v decision list, storage_error) result \<times> ('v, 'ps, 'rs) protocol_impl" where
  "protocol_drain_decisions st p =
     (case p of
        Paxos s \<Rightarrow> map_prod id Paxos (paxos_drain_decisions (st_paxos st) s)
      | Raft s \<Rightarrow> map_prod id Raft (raft_drain_decisions (st_raft st) s))"

definition protocol_take_lost_proposals ::
  "('v, 'ps, 'rs) protocol_impl \<Rightarrow> 'v list \<times> ('v, 'ps, 'rs) protocol_impl" where
  "protocol_take_lost_proposals p =
     (case p of
        Paxos s \<Rightarrow> map_prod id Paxos (paxos_take_lost_proposals s)
      | Raft s \<Rightarrow> map_prod id Raft (raft_take_lost_proposals s))"

definition protocol_is_idle :: "('v, 'ps, 'rs) protocol_impl \<Rightarrow> bool" where
  "protocol_is_idle p = (case p of Paxos s \<Rightarrow> paxos_is_idle s | Raft s \<Rightarrow> raft_is_idle s)"

definition protocol_peek_state :: "('v, 'ps, 'rs) protocol_impl \<Rightarrow> protocol_snapshot" where
  "protocol_peek_state p = (case p of Paxos s \<Rightarrow> paxos_peek_state s | Raft s \<Rightarrow> raft_peek_state s)"

section \<open>The variant never changes\<close>

definition runs_raft :: "('v, 'ps, 'rs) protocol_impl \<Rightarrow> bool" where
  "runs_raft p = (case p of Paxos _ \<Rightarrow> False | Raft _ \<Rightarrow> True)"

definition is_raft_message :: "'v wire_variant \<Rightarrow> bool" where
  "is_raft_message m = (case m of WPaxos _ \<Rightarrow> False | WRaft _ \<Rightarrow> True)"

text \<open>The outcome of an operation on \<open>p\<close>: the same variant, and messages of that variant only.\<close>

definition same_variant :: "('v, 'ps, 'rs) protocol_impl \<Rightarrow> (('v, 'ps, 'rs) protocol_impl \<times> 'v wire_out) option \<Rightarrow> bool" where
  "same_variant p r \<longleftrightarrow>
     (\<forall>p' outs. r = Some (p', outs) \<longrightarrow> runs_raft p' = runs_raft p
        \<and> (\<forall>out\<in>set outs. is_raft_message (o_message out) = runs_raft p))"

lemmas variant_defs = runs_raft_def is_raft_message_def lift_paxos_def lift_raft_def wrap_paxos_def wrap_raft_def

lemma protocol_propose_variant: "same_variant p (protocol_propose e v p)"
  by (auto simp: same_variant_def protocol_propose_def variant_defs split: protocol_impl.splits)

lemma handle_wire_variant: "same_variant p (handle_wire_message e m msg p)"
  by (auto simp: same_variant_def handle_wire_message_def variant_defs split: protocol_impl.splits wire_variant.splits)

lemma protocol_on_tick_variant: "same_variant p (protocol_on_tick e now p)"
  by (auto simp: same_variant_def protocol_on_tick_def variant_defs split: protocol_impl.splits)

lemma protocol_recover_variant: "protocol_recover st e p = Some (r, p') \<Longrightarrow> runs_raft p' = runs_raft p"
  by (cases p) (auto simp: protocol_recover_def runs_raft_def map_prod_def split: prod.splits)

lemma protocol_flush_variant: "protocol_flush_persist st p = Some (r, p') \<Longrightarrow> runs_raft p' = runs_raft p"
  by (cases p) (auto simp: protocol_flush_persist_def runs_raft_def map_prod_def split: prod.splits)

lemma protocol_drain_variant: "protocol_drain_decisions st p = (r, p') \<Longrightarrow> runs_raft p' = runs_raft p"
  by (cases p) (auto simp: protocol_drain_decisions_def runs_raft_def map_prod_def split: prod.splits)

lemma protocol_take_lost_variant: "protocol_take_lost_proposals p = (r, p') \<Longrightarrow> runs_raft p' = runs_raft p"
  by (cases p) (auto simp: protocol_take_lost_proposals_def runs_raft_def map_prod_def split: prod.splits)

end
