(* ===== verification/Node.thy ===== *)
theory Node
  imports Protocol
begin

text \<open>
  \<open>daccord/src/node.rs\<close>: the event loop around the protocol. The channels of the runtime are what
  the loop does to them: a one-shot sender is a token, and a step returns the effects it has had - the
  bytes handed to the peers' senders, the one-shots fired or dropped, the decisions offered to the
  subscriber, the states published. The JSON encoding of a message is a parameter. A step that stops
  the loop says how: with an error, or by a panic.
\<close>

section \<open>Types\<close>

datatype node_algorithm = PaxosAlgorithm | RaftAlgorithm

record node_state =
  ns_node_id :: node_id
  ns_algorithm :: node_algorithm
  ns_role :: "role option"
  ns_term :: u64
  ns_leader :: "node_id option"
  ns_voted_for :: "node_id option"
  ns_log_len :: u64
  ns_commit_index :: "u64 option"
  ns_last_applied :: "u64 option"

datatype 'v decided = Decided (dc_slot: u64) (dc_value: 'v)

text \<open>The sending half of a one-shot channel, by identity.\<close>

type_synonym token = nat

datatype 'v submission = Submission (sub_pending: "'v pending") (sub_completion: token)

datatype 'v pending_entry = PendingEntry (pe_value: 'v) (pe_completion: token)

type_synonym 'v pending_map = "(u64, 'v pending_entry) hashmap"

text \<open>\<open>Message::to_bytes\<close> and \<open>Message::from_bytes\<close>, which call \<open>serde_json\<close>.\<close>

record ('v, 'b) codec =
  to_bytes :: "'v message \<Rightarrow> ('b, string) result"
  from_bytes :: "'b \<Rightarrow> ('v message, string) result"

datatype ('v, 'b) effect =
    Sent node_id 'b
  | Completed token "('v decided, propose_error) result"
  | Dropped token
  | Offered "'v decided"
  | Published node_state

record ('v, 'ps, 'rs) node =
  n_node_id :: node_id
  n_peers :: "node_id list"
  n_protocol :: "('v pending, 'ps, 'rs) protocol_impl"
  n_state :: node_state
  n_algorithm :: node_algorithm
  n_receiver_alive :: bool
  n_pending :: "'v pending_map"

section \<open>The pending map\<close>

definition pending_insert :: "'v pending \<Rightarrow> token \<Rightarrow> 'v pending_map \<Rightarrow> ('v, 'b) effect list \<times> 'v pending_map" where
  "pending_insert p tx m =
     ((case hm_get m (pd_nonce p) of Some old \<Rightarrow> [Dropped (pe_completion old)] | None \<Rightarrow> []),
      hm_insert (pd_nonce p) (PendingEntry (pd_value p) tx) m)"

definition remove_for_decision :: "u64 \<Rightarrow> 'v \<Rightarrow> 'v pending_map \<Rightarrow> token option \<times> 'v pending_map" where
  "remove_for_decision nonce value m =
     (if nonce \<noteq> 0 then (map_option pe_completion (hm_get m nonce), hm_remove nonce m)
      else case List.find (\<lambda>(_, entry). pe_value entry = value) m of
          Some (candidate_nonce, _) \<Rightarrow>
            (map_option pe_completion (hm_get m candidate_nonce), hm_remove candidate_nonce m)
        | None \<Rightarrow> (None, m))"

definition cancel_pending :: "'v pending_map \<Rightarrow> ('v, 'b) effect list" where
  "cancel_pending m = map (\<lambda>(_, entry). Completed (pe_completion entry) (Err Cancelled)) m"

text \<open>\<open>live_nonce\<close> over the draws of the generator: not enough of them is \<^const>\<open>None\<close>.\<close>

fun live_nonce :: "u64 list \<Rightarrow> u64 option" where
  "live_nonce [] = None"
| "live_nonce (n # draws) = (if n \<noteq> 0 then Some n else live_nonce draws)"

section \<open>Construction\<close>

definition initial_state :: "node_id \<Rightarrow> node_algorithm \<Rightarrow> node_state" where
  "initial_state node_id algorithm =
     \<lparr>ns_node_id = node_id, ns_algorithm = algorithm,
      ns_role = (case algorithm of RaftAlgorithm \<Rightarrow> Some Follower | PaxosAlgorithm \<Rightarrow> None),
      ns_term = 0, ns_leader = None, ns_voted_for = None, ns_log_len = 0, ns_commit_index = None,
      ns_last_applied = None\<rparr>"

definition paxos_with_id_inner ::
  "bool \<Rightarrow> env \<Rightarrow> node_id \<Rightarrow> paxos_config \<Rightarrow> node_id list \<Rightarrow> 'ps \<Rightarrow> ('v, 'ps, 'rs) node" where
  "paxos_with_id_inner multi_paxos e node_id config peers storage =
     (let total_nodes = length peers + 1 in
      \<lparr>n_node_id = node_id, n_peers = peers,
       n_protocol = Paxos (paxos_new_with_config multi_paxos e node_id total_nodes config storage),
       n_state = initial_state node_id PaxosAlgorithm, n_algorithm = PaxosAlgorithm,
       n_receiver_alive = False, n_pending = []\<rparr>)"

definition raft_with_id_inner ::
  "env \<Rightarrow> node_id \<Rightarrow> raft_config \<Rightarrow> node_id list \<Rightarrow> 'rs \<Rightarrow> ('v, 'ps, 'rs) node option" where
  "raft_with_id_inner e node_id config peers storage =
     (let total_nodes = length peers + 1 in
      map_option (\<lambda>protocol.
        \<lparr>n_node_id = node_id, n_peers = peers, n_protocol = Raft protocol,
         n_state = initial_state node_id RaftAlgorithm, n_algorithm = RaftAlgorithm,
         n_receiver_alive = False, n_pending = []\<rparr>)
      (raft_new e node_id total_nodes config storage))"

text \<open>
  The public constructors: \<open>secs\<close> is the UNIX time in seconds, the incarnation of the node (a clock
  before 1970 panics).
\<close>

definition paxos_node ::
  "int \<Rightarrow> bool \<Rightarrow> env \<Rightarrow> string \<Rightarrow> paxos_config \<Rightarrow> node_id list \<Rightarrow> 'ps \<Rightarrow> ('v, 'ps, 'rs) node option" where
  "paxos_node secs multi_paxos e name config peers storage =
     (if secs < 0 then None
      else Some (paxos_with_id_inner multi_paxos e (NodeId name (nat secs)) config peers storage))"

definition raft_node ::
  "int \<Rightarrow> env \<Rightarrow> string \<Rightarrow> raft_config \<Rightarrow> node_id list \<Rightarrow> 'rs \<Rightarrow> ('v, 'ps, 'rs) node option" where
  "raft_node secs e name config peers storage =
     (if secs < 0 then None else raft_with_id_inner e (NodeId name (nat secs)) config peers storage)"

text \<open>The storages of a node's protocol: the user's behind the adapters.\<close>

definition adapted ::
  "('ps, 'v) paxos_storage \<Rightarrow> ('rs, 'v) raft_storage \<Rightarrow> ('v pending, 'ps, 'rs) storages" where
  "adapted pops rops = \<lparr>st_paxos = pending_paxos_storage pops, st_raft = pending_raft_storage rops\<rparr>"

definition compute_state :: "('v, 'ps, 'rs) node \<Rightarrow> node_state" where
  "compute_state nd =
     (let snap = protocol_peek_state (n_protocol nd) in
      \<lparr>ns_node_id = n_node_id nd, ns_algorithm = n_algorithm nd, ns_role = snap_role snap,
       ns_term = snap_term snap, ns_leader = snap_leader snap, ns_voted_for = snap_voted_for snap,
       ns_log_len = snap_log_len snap, ns_commit_index = snap_commit_index snap,
       ns_last_applied = snap_last_applied snap\<rparr>)"

section \<open>Steps\<close>

datatype flow = Continue | Failed node_error | Panicked

type_synonym ('v, 'ps, 'rs, 'b) outcome = "flow \<times> ('v, 'ps, 'rs) node \<times> ('v, 'b) effect list"

text \<open>The \<open>?\<close> operator: what follows runs only when nothing has stopped the step.\<close>

definition and_then ::
  "('v, 'ps, 'rs, 'b) outcome \<Rightarrow> (('v, 'ps, 'rs) node \<Rightarrow> ('v, 'ps, 'rs, 'b) outcome) \<Rightarrow> ('v, 'ps, 'rs, 'b) outcome" where
  "and_then r f =
     (case r of
        (Continue, nd, fx) \<Rightarrow> (case f nd of (fl, nd', fx') \<Rightarrow> (fl, nd', fx @ fx'))
      | _ \<Rightarrow> r)"

definition publish_state :: "('v, 'ps, 'rs) node \<Rightarrow> ('v, 'ps, 'rs, 'b) outcome" where
  "publish_state nd = (Continue, nd\<lparr>n_state := compute_state nd\<rparr>, [Published (compute_state nd)])"

definition send_one ::
  "('v pending, 'b) codec \<Rightarrow> node_id \<Rightarrow> node_id list \<Rightarrow> 'v pending wire_variant outgoing \<Rightarrow> ('v, 'b) effect list" where
  "send_one codec node_id senders out =
     (case to_bytes codec (Message node_id (o_message out)) of
        Err _ \<Rightarrow> []
      | Ok bytes \<Rightarrow>
          (case o_target out of
             Peer target \<Rightarrow> (case List.find (\<lambda>peer. peer = target) senders of Some peer \<Rightarrow> [Sent peer bytes] | None \<Rightarrow> [])
           | Broadcast \<Rightarrow> map (\<lambda>peer. Sent peer bytes) senders))"

definition send_outgoing ::
  "('v pending, 'b) codec \<Rightarrow> node_id \<Rightarrow> 'v pending wire_out \<Rightarrow> node_id list \<Rightarrow> ('v, 'b) effect list" where
  "send_outgoing codec node_id outgoing senders = concat (map (send_one codec node_id senders) outgoing)"

text \<open>The loop over the decisions: the caller of \<open>propose\<close> is told, then the subscriber.\<close>

fun deliver_decisions ::
  "'v pending decision list \<Rightarrow> 'v pending_map \<Rightarrow> ('v, 'b) effect list \<times> 'v pending_map" where
  "deliver_decisions [] m = ([], m)"
| "deliver_decisions (d # ds) m =
     (let slot = d_slot d; nonce = pd_nonce (d_value d); value = pd_value (d_value d);
          public = Decided slot value;
          (tx, m1) = remove_for_decision nonce value m;
          (fx, m2) = deliver_decisions ds m1
      in ((case tx of Some t \<Rightarrow> [Completed t (Ok public)] | None \<Rightarrow> []) @ [Offered public] @ fx, m2))"

definition process_decisions ::
  "('v pending, 'ps, 'rs) storages \<Rightarrow> ('v, 'ps, 'rs) node \<Rightarrow> ('v, 'ps, 'rs, 'b) outcome" where
  "process_decisions st nd =
     (case protocol_drain_decisions st (n_protocol nd) of
        (Err x, p) \<Rightarrow> (Failed (Storage x), nd\<lparr>n_protocol := p\<rparr>, [])
      | (Ok decisions, p) \<Rightarrow>
          (case deliver_decisions decisions (n_pending nd) of
             (fx, m) \<Rightarrow> (Continue, nd\<lparr>n_protocol := p, n_pending := m\<rparr>, fx)))"

text \<open>What every handler does with the result of a protocol operation: persist, send, deliver.\<close>

definition after_protocol ::
  "('v pending, 'ps, 'rs) storages \<Rightarrow> ('v pending, 'b) codec
   \<Rightarrow> (('v pending, 'ps, 'rs) protocol_impl \<times> 'v pending wire_out) option \<Rightarrow> ('v, 'ps, 'rs) node
   \<Rightarrow> ('v, 'ps, 'rs, 'b) outcome" where
  "after_protocol st codec r nd =
     (case r of
        None \<Rightarrow> (Panicked, nd, [])
      | Some (p, outgoing) \<Rightarrow>
          (case protocol_flush_persist st p of
             None \<Rightarrow> (Panicked, nd\<lparr>n_protocol := p\<rparr>, [])
           | Some (Err x, p1) \<Rightarrow> (Failed (Storage x), nd\<lparr>n_protocol := p1\<rparr>, [])
           | Some (Ok _, p1) \<Rightarrow>
               and_then (Continue, nd\<lparr>n_protocol := p1\<rparr>, send_outgoing codec (n_node_id nd) outgoing (n_peers nd))
                 (process_decisions st)))"

definition handle_submission ::
  "('v pending, 'ps, 'rs) storages \<Rightarrow> ('v pending, 'b) codec \<Rightarrow> env \<Rightarrow> 'v submission \<Rightarrow> ('v, 'ps, 'rs) node
   \<Rightarrow> ('v, 'ps, 'rs, 'b) outcome" where
  "handle_submission st codec e submission nd =
     (case pending_insert (sub_pending submission) (sub_completion submission) (n_pending nd) of
        (fx, m) \<Rightarrow>
          and_then (and_then (Continue, nd\<lparr>n_pending := m\<rparr>, fx)
            (\<lambda>nd1. after_protocol st codec (protocol_propose e (sub_pending submission) (n_protocol nd1)) nd1))
            publish_state)"

text \<open>Lost proposals are proposed again one by one, each at its own time.\<close>

fun repropose ::
  "('v pending, 'ps, 'rs) storages \<Rightarrow> ('v pending, 'b) codec \<Rightarrow> (nat \<Rightarrow> env) \<Rightarrow> 'v pending list \<Rightarrow> ('v, 'ps, 'rs) node
   \<Rightarrow> ('v, 'ps, 'rs, 'b) outcome" where
  "repropose st codec es [] nd = (Continue, nd, [])"
| "repropose st codec es (value # lost) nd =
     and_then (after_protocol st codec (protocol_propose (es 0) value (n_protocol nd)) nd)
       (repropose st codec (\<lambda>k. es (Suc k)) lost)"

definition handle_incoming_bytes ::
  "('v pending, 'ps, 'rs) storages \<Rightarrow> ('v pending, 'b) codec \<Rightarrow> (nat \<Rightarrow> env) \<Rightarrow> 'b \<Rightarrow> ('v, 'ps, 'rs) node
   \<Rightarrow> ('v, 'ps, 'rs, 'b) outcome" where
  "handle_incoming_bytes st codec es data nd =
     (case from_bytes codec data of
        Err _ \<Rightarrow> (Continue, nd, [])
      | Ok msg \<Rightarrow>
          and_then (and_then
            (after_protocol st codec (handle_wire_message (es 0) (m_sender msg) (m_variant msg) (n_protocol nd)) nd)
            (\<lambda>nd1. case protocol_take_lost_proposals (n_protocol nd1) of
               (lost, p) \<Rightarrow> repropose st codec (\<lambda>k. es (Suc k)) lost (nd1\<lparr>n_protocol := p\<rparr>)))
            publish_state)"

definition handle_retries ::
  "('v pending, 'ps, 'rs) storages \<Rightarrow> ('v pending, 'b) codec \<Rightarrow> env \<Rightarrow> nat \<Rightarrow> ('v, 'ps, 'rs) node
   \<Rightarrow> ('v, 'ps, 'rs, 'b) outcome" where
  "handle_retries st codec e now nd =
     and_then (after_protocol st codec (protocol_on_tick e now (n_protocol nd)) nd) publish_state"

section \<open>The event loop\<close>

text \<open>
  What \<open>select!\<close> may yield. A dead receiver is no longer polled: its events do not occur, and the
  loop below passes over them.
\<close>

datatype ('v, 'b) node_event =
    Submitted env "'v submission"
  | HandlesDropped
  | Received "nat \<Rightarrow> env" 'b
  | ReceiveFailed
  | TickDue env nat

datatype finish = Running | Exited "(unit, node_error) result" | Crashed

definition finish_of :: "flow \<Rightarrow> finish" where
  "finish_of fl = (case fl of Continue \<Rightarrow> Running | Failed x \<Rightarrow> Exited (Err x) | Panicked \<Rightarrow> Crashed)"

definition loop_step ::
  "('v pending, 'ps, 'rs) storages \<Rightarrow> ('v pending, 'b) codec \<Rightarrow> ('v, 'b) node_event \<Rightarrow> ('v, 'ps, 'rs) node
   \<Rightarrow> finish \<times> ('v, 'ps, 'rs) node \<times> ('v, 'b) effect list" where
  "loop_step st codec ev nd =
     (case ev of
        Submitted e submission \<Rightarrow> map_prod finish_of id (handle_submission st codec e submission nd)
      | HandlesDropped \<Rightarrow> (Exited (Ok ()), nd, [])
      | Received es data \<Rightarrow>
          if n_receiver_alive nd then map_prod finish_of id (handle_incoming_bytes st codec es data nd)
          else (Running, nd, [])
      | ReceiveFailed \<Rightarrow>
          if n_receiver_alive nd then
            let total_cluster = length (n_peers nd) + 1; quorum = total_cluster div 2 + 1
            in if 1 < quorum \<and> \<not> protocol_is_idle (n_protocol nd) then (Exited (Err NoQuorum), nd, [])
               else (Running, nd\<lparr>n_receiver_alive := False\<rparr>, [])
          else (Running, nd, [])
      | TickDue e now \<Rightarrow> map_prod finish_of id (handle_retries st codec e now nd))"

text \<open>Leaving the loop in any way drops the pending map.\<close>

fun node_loop ::
  "('v pending, 'ps, 'rs) storages \<Rightarrow> ('v pending, 'b) codec \<Rightarrow> ('v, 'b) node_event list \<Rightarrow> ('v, 'ps, 'rs) node
   \<Rightarrow> finish \<times> ('v, 'ps, 'rs) node \<times> ('v, 'b) effect list" where
  "node_loop st codec [] nd = (Running, nd, [])"
| "node_loop st codec (ev # evs) nd =
     (case loop_step st codec ev nd of
        (Running, nd1, fx) \<Rightarrow> (case node_loop st codec evs nd1 of (fin, nd2, fx') \<Rightarrow> (fin, nd2, fx @ fx'))
      | (fin, nd1, fx) \<Rightarrow> (fin, nd1\<lparr>n_pending := []\<rparr>, fx @ cancel_pending (n_pending nd1)))"

definition node_run ::
  "('v pending, 'ps, 'rs) storages \<Rightarrow> ('v pending, 'b) codec \<Rightarrow> env \<Rightarrow> ('v, 'b) node_event list \<Rightarrow> ('v, 'ps, 'rs) node
   \<Rightarrow> finish \<times> ('v, 'ps, 'rs) node \<times> ('v, 'b) effect list" where
  "node_run st codec e evs nd =
     (case protocol_recover st e (n_protocol nd) of
        None \<Rightarrow> (Crashed, nd, [])
      | Some (Err x, p) \<Rightarrow> (Exited (Err (Storage x)), nd\<lparr>n_protocol := p\<rparr>, [])
      | Some (Ok _, p) \<Rightarrow>
          (case publish_state (nd\<lparr>n_protocol := p\<rparr>) of
             (_, nd1, fx) \<Rightarrow>
               (case node_loop st codec evs (nd1\<lparr>n_receiver_alive := (n_peers nd1 \<noteq> []), n_pending := []\<rparr>) of
                  (fin, nd2, fx') \<Rightarrow> (fin, nd2, fx @ fx'))))"

section \<open>The handle\<close>

datatype try_send = Accepted_Send | Full_Send | Closed_Send

text \<open>
  \<open>NodeHandle::propose\<close>: \<open>sent\<close> is what \<open>try_send\<close> answered, \<open>awaited\<close> what arrived on the one-shot,
  with nothing when its sender was dropped.
\<close>

definition handle_propose ::
  "try_send \<Rightarrow> ('v decided, propose_error) result option \<Rightarrow> ('v decided, propose_error) result" where
  "handle_propose sent awaited =
     (case sent of
        Full_Send \<Rightarrow> Err ChannelFull
      | Closed_Send \<Rightarrow> Err NotRunning
      | Accepted_Send \<Rightarrow> (case awaited of Some r \<Rightarrow> r | None \<Rightarrow> Err Cancelled))"

end
