(* ===== verification/RaftLocal.thy ===== *)
theory RaftLocal
  imports RaftProtocol
begin

text \<open>
  Facts about the Raft operations one node at a time: the commit rule, the merge of
  \<open>AppendEntries\<close> into the log, the absence of panics, and what every operation leaves alone.
\<close>

declare upt_Suc [simp del]

section \<open>Applying committed entries\<close>

lemma collect_decisions_Some:
  "(\<forall>i\<in>set idxs. i < length log) \<Longrightarrow>
   collect_decisions log idxs = Some (map (\<lambda>i. Decision i (e_value (log ! i))) idxs)"
  by (induction idxs) auto

lemma collect_decisions_SomeD:
  "collect_decisions log idxs = Some ds \<Longrightarrow>
   (\<forall>i\<in>set idxs. i < length log) \<and> ds = map (\<lambda>i. Decision i (e_value (log ! i))) idxs"
  by (induction idxs arbitrary: ds) (auto split: if_splits)

lemma apply_committed_entries_frame:
  assumes "apply_committed_entries s = Some s'"
  obtains ds la where "s' = s\<lparr>r_pending_decisions := r_pending_decisions s @ ds, r_last_applied := la\<rparr>"
proof (cases "s' = s")
  case True
  show thesis by (rule that [where ds = "[]" and la = "r_last_applied s"]) (simp add: True)
next
  case False
  with assms obtain ds la where
    "s' = s\<lparr>r_pending_decisions := r_pending_decisions s @ ds, r_last_applied := la\<rparr>"
    by (auto simp: apply_committed_entries_def Let_def split: option.splits if_splits)
  then show thesis by (rule that)
qed

lemma apply_committed_entries_total:
  assumes "\<And>c. r_commit_index s = Some c \<Longrightarrow> c < length (r_log s)"
  shows "\<exists>s'. apply_committed_entries s = Some s'"
proof -
  have "\<exists>ds. collect_decisions (r_log s) [start..<Suc c] = Some ds"
    if "r_commit_index s = Some c" for start c
    using assms [OF that] collect_decisions_Some [of "[start..<Suc c]" "r_log s"] by auto
  then show ?thesis
    by (auto simp: apply_committed_entries_def Let_def split: option.splits)
qed

section \<open>The commit rule\<close>

lemma length_sort_desc [simp]: "length (sort_desc xs) = length xs"
  by (simp add: sort_desc_def)

lemma sort_desc_mono:
  assumes "i \<le> j" and "j < length xs"
  shows "opt_key (sort_desc xs ! j) \<le> opt_key (sort_desc xs ! i)"
proof -
  let ?ys = "sort_key opt_key xs"
  have "sorted (map opt_key ?ys)" by simp
  moreover have "length ?ys - Suc j \<le> length ?ys - Suc i" using assms by simp
  moreover have "length ?ys - Suc i < length ?ys" using assms by simp
  ultimately have "map opt_key ?ys ! (length ?ys - Suc j) \<le> map opt_key ?ys ! (length ?ys - Suc i)"
    by (intro sorted_nth_mono) auto
  with assms show ?thesis by (simp add: sort_desc_def rev_nth)
qed

text \<open>The entry at position \<open>q - 1\<close> of the sorted list is reached by at least \<open>q\<close> of the values.\<close>

lemma sort_desc_count:
  assumes "0 < q" and "q \<le> length xs"
  shows "q \<le> length (filter (\<lambda>m. opt_key (sort_desc xs ! (q - 1)) \<le> opt_key m) xs)"
proof -
  let ?P = "\<lambda>m. opt_key (sort_desc xs ! (q - 1)) \<le> opt_key m"
  have "\<forall>m\<in>set (take q (sort_desc xs)). ?P m"
  proof
    fix m assume "m \<in> set (take q (sort_desc xs))"
    then obtain i where i: "i < q" "m = sort_desc xs ! i"
      using assms by (auto simp: in_set_conv_nth)
    with assms show "?P m" by (auto intro: sort_desc_mono)
  qed
  then have "filter ?P (take q (sort_desc xs)) = take q (sort_desc xs)" by (simp add: filter_id_conv)
  then have "q \<le> length (filter ?P (take q (sort_desc xs)))" using assms by simp
  also have "\<dots> \<le> length (filter ?P (sort_desc xs))"
  proof -
    have "filter ?P (sort_desc xs) =
        filter ?P (take q (sort_desc xs)) @ filter ?P (drop q (sort_desc xs))"
      by (metis append_take_drop_id filter_append)
    then show ?thesis by simp
  qed
  also have "\<dots> = length (filter ?P xs)"
    by (simp add: sort_desc_def rev_filter [symmetric] filter_sort)
  finally show ?thesis .
qed

text \<open>The nodes whose \<open>match_index\<close> reaches \<open>c\<close>.\<close>

definition replicas :: "('v, 's) raft_protocol \<Rightarrow> u64 \<Rightarrow> node_id set" where
  "replicas s c = {n. \<exists>m\<ge>c. hm_get (r_match_index s) n = Some (Some m)}"

lemma replicas_count:
  assumes "hm_wf m"
  shows "length (filter (\<lambda>v. Suc c \<le> opt_key v) (hm_values m)) =
    card {n. \<exists>i\<ge>c. hm_get m n = Some (Some i)}"
proof -
  let ?xs = "filter (\<lambda>p. Suc c \<le> opt_key (snd p)) m"
  have "length (filter (\<lambda>v. Suc c \<le> opt_key v) (hm_values m)) = length ?xs"
    by (simp add: hm_values_def filter_map comp_def)
  also have "\<dots> = card (set (map fst ?xs))"
    using assms distinct_card [of "map fst ?xs"] by (simp add: hm_wf_def distinct_map_filter)
  also have "set (map fst ?xs) = {n. \<exists>i\<ge>c. hm_get m n = Some (Some i)}"
    using assms by (force simp: opt_key_def hm_in_set [symmetric] split: option.splits)
  finally show ?thesis .
qed

lemma try_advance_commit_apply:
  assumes "try_advance_commit s = Some s'"
  obtains "s' = s"
  | c where "c < length (r_log s)" "e_term (r_log s ! c) = r_current_term s"
      "\<And>cur. r_commit_index s = Some cur \<Longrightarrow> cur < c"
      "hm_wf (r_match_index s) \<Longrightarrow> raft_quorum s \<le> card (replicas s c)"
      "apply_committed_entries (s\<lparr>r_commit_index := Some c, r_pending_persist_commit_index := True\<rparr>) = Some s'"
proof (cases "s' = s")
  case True
  then show thesis by (rule that(1))
next
  case False
  let ?xs = "hm_values (r_match_index s)" and ?q = "raft_quorum s"
  from False assms obtain c where
      q: "?q \<le> length ?xs" and c: "sort_desc ?xs ! (?q - 1) = Some c" "c < length (r_log s)"
      "e_term (r_log s ! c) = r_current_term s"
      "case r_commit_index s of None \<Rightarrow> True | Some cur \<Rightarrow> c > cur"
    and ap: "apply_committed_entries
        (s\<lparr>r_commit_index := Some c, r_pending_persist_commit_index := True\<rparr>) = Some s'"
    by (auto simp: try_advance_commit_def Let_def split: if_splits option.splits)
  have "0 < ?q" by (simp add: raft_quorum_def quorum_of_def)
  from sort_desc_count [OF this q] c(1)
  have count: "?q \<le> length (filter (\<lambda>m. Suc c \<le> opt_key m) ?xs)" by (simp add: opt_key_def)
  show thesis
    using c count replicas_count [of "r_match_index s" c] ap
    by (intro that(2) [where c = c]) (auto simp: replicas_def split: option.splits)
qed

lemma try_advance_commit_cases:
  assumes "try_advance_commit s = Some s'"
  obtains "s' = s"
  | c ds la where "c < length (r_log s)" "e_term (r_log s ! c) = r_current_term s"
      "\<And>cur. r_commit_index s = Some cur \<Longrightarrow> cur < c"
      "hm_wf (r_match_index s) \<Longrightarrow> raft_quorum s \<le> card (replicas s c)"
      "s' = s\<lparr>r_commit_index := Some c, r_pending_persist_commit_index := True,
              r_pending_decisions := r_pending_decisions s @ ds, r_last_applied := la\<rparr>"
  using assms
proof (cases rule: try_advance_commit_apply)
  case 1
  then show thesis by (rule that(1))
next
  case (2 c)
  from 2(5) obtain ds la where
    "s' = s\<lparr>r_commit_index := Some c, r_pending_persist_commit_index := True,
              r_pending_decisions := r_pending_decisions s @ ds, r_last_applied := la\<rparr>"
    by (elim apply_committed_entries_frame) simp
  with 2(1-4) show thesis by (intro that(2) [where c = c and ds = ds and la = la])
qed

lemma try_advance_commit_total: "\<exists>s'. try_advance_commit s = Some s'"
proof -
  have "\<exists>s'. apply_committed_entries
      (s\<lparr>r_commit_index := Some c, r_pending_persist_commit_index := True\<rparr>) = Some s'"
    if "c < length (r_log s)" for c
    using that by (intro apply_committed_entries_total) simp
  then show ?thesis
    by (auto simp: try_advance_commit_def Let_def split: option.splits)
qed

lemma try_advance_commit_frame:
  assumes "try_advance_commit s = Some s'"
  obtains ci pf ds la where
    "s' = s\<lparr>r_commit_index := ci, r_pending_persist_commit_index := pf, r_pending_decisions := ds,
            r_last_applied := la\<rparr>"
  using assms
proof (cases rule: try_advance_commit_cases)
  case 1
  then show thesis
    by (intro that [where ci = "r_commit_index s" and pf = "r_pending_persist_commit_index s"
          and ds = "r_pending_decisions s" and la = "r_last_applied s"]) simp
next
  case (2 c ds la)
  then show thesis
    by (intro that [where ci = "Some c" and pf = True
          and ds = "r_pending_decisions s @ ds" and la = la]) simp
qed

section \<open>Merging entries into the log\<close>

text \<open>
  What the append loop does to the log, as a function of the log alone: skip the entries that
  are already there with the same term, and replace everything from the first difference on.
\<close>

fun merge_log :: "nat \<Rightarrow> 'v log_entry list \<Rightarrow> 'v log_entry list \<Rightarrow> 'v log_entry list" where
  "merge_log start [] log = log"
| "merge_log start (en # ens) log =
     (if start < length log \<and> e_term (log ! start) = e_term en then merge_log (Suc start) ens log
      else take start log @ en # ens)"

lemma append_entry_sel [simp]:
  "r_node_id (append_entry i en s) = r_node_id s"
  "r_total_nodes (append_entry i en s) = r_total_nodes s"
  "r_config (append_entry i en s) = r_config s"
  "r_current_term (append_entry i en s) = r_current_term s"
  "r_voted_for (append_entry i en s) = r_voted_for s"
  "r_commit_index (append_entry i en s) = r_commit_index s"
  "r_last_applied (append_entry i en s) = r_last_applied s"
  "r_role (append_entry i en s) = r_role s"
  "r_leader (append_entry i en s) = r_leader s"
  "r_next_index (append_entry i en s) = r_next_index s"
  "r_match_index (append_entry i en s) = r_match_index s"
  "r_election_deadline (append_entry i en s) = r_election_deadline s"
  "r_votes_received (append_entry i en s) = r_votes_received s"
  "r_last_heartbeat_sent (append_entry i en s) = r_last_heartbeat_sent s"
  "r_pending_decisions (append_entry i en s) = r_pending_decisions s"
  "r_pending_persist_term (append_entry i en s) = r_pending_persist_term s"
  "r_pending_persist_voted_for (append_entry i en s) = r_pending_persist_voted_for s"
  "r_pending_persist_commit_index (append_entry i en s) = r_pending_persist_commit_index s"
  "r_pending_proposals (append_entry i en s) = r_pending_proposals s"
  "r_lost_proposals (append_entry i en s) = r_lost_proposals s"
  "r_storage (append_entry i en s) = r_storage s"
  by (simp_all add: append_entry_def)

lemma append_loop_sel [simp]:
  "r_node_id (append_loop i ens s) = r_node_id s"
  "r_total_nodes (append_loop i ens s) = r_total_nodes s"
  "r_config (append_loop i ens s) = r_config s"
  "r_current_term (append_loop i ens s) = r_current_term s"
  "r_voted_for (append_loop i ens s) = r_voted_for s"
  "r_commit_index (append_loop i ens s) = r_commit_index s"
  "r_last_applied (append_loop i ens s) = r_last_applied s"
  "r_role (append_loop i ens s) = r_role s"
  "r_leader (append_loop i ens s) = r_leader s"
  "r_next_index (append_loop i ens s) = r_next_index s"
  "r_match_index (append_loop i ens s) = r_match_index s"
  "r_election_deadline (append_loop i ens s) = r_election_deadline s"
  "r_votes_received (append_loop i ens s) = r_votes_received s"
  "r_last_heartbeat_sent (append_loop i ens s) = r_last_heartbeat_sent s"
  "r_pending_decisions (append_loop i ens s) = r_pending_decisions s"
  "r_pending_persist_term (append_loop i ens s) = r_pending_persist_term s"
  "r_pending_persist_voted_for (append_loop i ens s) = r_pending_persist_voted_for s"
  "r_pending_persist_commit_index (append_loop i ens s) = r_pending_persist_commit_index s"
  "r_pending_proposals (append_loop i ens s) = r_pending_proposals s"
  "r_lost_proposals (append_loop i ens s) = r_lost_proposals s"
  "r_storage (append_loop i ens s) = r_storage s"
  by (induction ens arbitrary: i s) simp_all

lemma truncate_unverified_sel [simp]:
  "r_node_id (truncate_unverified m s) = r_node_id s"
  "r_total_nodes (truncate_unverified m s) = r_total_nodes s"
  "r_config (truncate_unverified m s) = r_config s"
  "r_current_term (truncate_unverified m s) = r_current_term s"
  "r_voted_for (truncate_unverified m s) = r_voted_for s"
  "r_commit_index (truncate_unverified m s) = r_commit_index s"
  "r_last_applied (truncate_unverified m s) = r_last_applied s"
  "r_role (truncate_unverified m s) = r_role s"
  "r_leader (truncate_unverified m s) = r_leader s"
  "r_next_index (truncate_unverified m s) = r_next_index s"
  "r_match_index (truncate_unverified m s) = r_match_index s"
  "r_election_deadline (truncate_unverified m s) = r_election_deadline s"
  "r_votes_received (truncate_unverified m s) = r_votes_received s"
  "r_last_heartbeat_sent (truncate_unverified m s) = r_last_heartbeat_sent s"
  "r_pending_decisions (truncate_unverified m s) = r_pending_decisions s"
  "r_pending_persist_term (truncate_unverified m s) = r_pending_persist_term s"
  "r_pending_persist_voted_for (truncate_unverified m s) = r_pending_persist_voted_for s"
  "r_pending_persist_log_from (truncate_unverified m s) = r_pending_persist_log_from s"
  "r_pending_persist_commit_index (truncate_unverified m s) = r_pending_persist_commit_index s"
  "r_pending_proposals (truncate_unverified m s) = r_pending_proposals s"
  "r_lost_proposals (truncate_unverified m s) = r_lost_proposals s"
  "r_storage (truncate_unverified m s) = r_storage s"
  by (simp_all add: truncate_unverified_def Let_def split: option.splits)

text \<open>Past the end of the log the loop only appends.\<close>

lemma append_loop_push:
  "length (r_log s) = i \<Longrightarrow> r_log (append_loop i ens s) = r_log s @ ens"
  by (induction ens arbitrary: i s) (auto simp: append_entry_def)

lemma append_loop_log:
  "i \<le> length (r_log s) \<Longrightarrow> r_log (append_loop i ens s) = merge_log i ens (r_log s)"
proof (induction ens arbitrary: i s)
  case (Cons en ens)
  show ?case
  proof (cases "i < length (r_log s) \<and> e_term (r_log s ! i) = e_term en")
    case True
    then have "append_entry i en s = s" by (simp add: append_entry_def)
    with True Cons show ?thesis by simp
  next
    case False
    with Cons.prems have "r_log (append_entry i en s) = take i (r_log s) @ [en]"
      by (auto simp: append_entry_def)
    with False Cons.prems show ?thesis by (auto simp: append_loop_push)
  qed
qed simp

text \<open>
  The merged log, cut after the new entries: the old prefix, then one entry per new entry, each
  the new one or an old one of the same term at the same place.
\<close>

lemma merge_log_length:
  "i \<le> length log \<Longrightarrow> i + length ens \<le> length (merge_log i ens log)"
proof (induction ens arbitrary: i)
  case (Cons en ens)
  then show ?case using Cons.IH [of "Suc i"] by (auto simp: Suc_le_eq)
qed simp

lemma merge_log_prefix: "i \<le> length log \<Longrightarrow> take i (merge_log i ens log) = take i log"
proof (induction ens arbitrary: i)
  case (Cons en ens)
  show ?case
  proof (cases "i < length log \<and> e_term (log ! i) = e_term en")
    case True
    with Cons have "take (Suc i) (merge_log (Suc i) ens log) = take (Suc i) log" by simp
    then have "take i (merge_log (Suc i) ens log) = take i log" by (rule take_eq_mono) simp
    with True show ?thesis by simp
  qed (use Cons in auto)
qed simp

lemma merge_log_nth:
  assumes "i \<le> length log" and "j < length ens"
  shows "merge_log i ens log ! (i + j) = ens ! j
    \<or> i + j < length log \<and> merge_log i ens log ! (i + j) = log ! (i + j)
       \<and> e_term (log ! (i + j)) = e_term (ens ! j)"
  using assms
proof (induction ens arbitrary: i j)
  case (Cons en ens)
  show ?case
  proof (cases "i < length log \<and> e_term (log ! i) = e_term en")
    case True
    show ?thesis
    proof (cases j)
      case 0
      have "take (Suc i) (merge_log (Suc i) ens log) = take (Suc i) log"
        using True by (intro merge_log_prefix) simp
      then have "merge_log (Suc i) ens log ! i = log ! i" by (rule take_eq_nth) simp
      with True 0 show ?thesis by simp
    next
      case (Suc k)
      with True Cons.IH [of "Suc i" k] Cons.prems show ?thesis by simp
    qed
  next
    case False
    with Cons.prems show ?thesis by (auto simp: nth_append min_def)
  qed
qed simp

definition append_start :: "u64 option \<Rightarrow> nat" where
  "append_start prev_log_index = (case prev_log_index of Some i \<Rightarrow> i + 1 | None \<Rightarrow> 0)"

lemma verified_index_None [simp]: "verified_index p n = None \<longleftrightarrow> p = None \<and> n = 0"
  by (auto simp: verified_index_def split: option.splits)

lemma verified_index_empty [simp]: "verified_index None 0 = None"
  by simp

lemma verified_index_Some: "verified_index p n = Some l \<Longrightarrow> Suc l = append_start p + n"
  by (auto simp: verified_index_def append_start_def split: option.splits if_splits)

text \<open>The log after an accepted \<open>AppendEntries\<close>.\<close>

definition accepted_log :: "u64 option \<Rightarrow> 'v log_entry list \<Rightarrow> 'v log_entry list \<Rightarrow> 'v log_entry list" where
  "accepted_log prev ens log =
     (if prev = None \<and> ens = [] then log
      else take (append_start prev + length ens) (merge_log (append_start prev) ens log))"

lemma truncated_log:
  assumes "append_start prev \<le> length (r_log s)"
  shows "r_log (truncate_unverified (verified_index prev (length ens))
      (append_loop (append_start prev) ens s)) = accepted_log prev ens (r_log s)"
proof (cases "verified_index prev (length ens)")
  case None
  then have "prev = None" "ens = []" by simp_all
  then show ?thesis by (simp add: truncate_unverified_def accepted_log_def)
next
  case (Some l)
  then have "\<not> (prev = None \<and> ens = [])" by auto
  with verified_index_Some [OF Some] Some assms show ?thesis
    by (auto simp: truncate_unverified_def accepted_log_def append_loop_log Let_def)
qed

lemma accepted_log_length:
  assumes "append_start prev \<le> length log" and "\<not> (prev = None \<and> ens = [])"
  shows "length (accepted_log prev ens log) = append_start prev + length ens"
proof -
  have "append_start prev + length ens \<le> length (merge_log (append_start prev) ens log)"
    using assms(1) by (rule merge_log_length)
  moreover have "accepted_log prev ens log =
      take (append_start prev + length ens) (merge_log (append_start prev) ens log)"
    using assms(2) by (auto simp: accepted_log_def)
  ultimately show ?thesis by simp
qed

text \<open>The merge looks at terms only, so it commutes with a change of the values.\<close>

lemma merge_log_map:
  "map (map_entry f) (merge_log i ens log) = merge_log i (map (map_entry f) ens) (map (map_entry f) log)"
  by (induction i ens log rule: merge_log.induct) (auto simp: take_map)

lemma accepted_log_map:
  "map (map_entry f) (accepted_log prev ens log) = accepted_log prev (map (map_entry f) ens) (map (map_entry f) log)"
  by (simp add: accepted_log_def merge_log_map flip: take_map)

section \<open>What a state change asks storage to do\<close>

text \<open>The pending log writes turn the stored log \<open>old\<close> into the log in memory.\<close>

definition log_intent_ok :: "'v log_entry list \<Rightarrow> ('v, 's) raft_protocol \<Rightarrow> bool" where
  "log_intent_ok old s \<longleftrightarrow>
     (case r_pending_truncate_from s of None \<Rightarrow> old | Some i \<Rightarrow> take i old)
       @ (case r_pending_persist_log_from s of None \<Rightarrow> [] | Some j \<Rightarrow> drop j (r_log s)) = r_log s
     \<and> (case r_pending_persist_log_from s of None \<Rightarrow> True | Some j \<Rightarrow> j \<le> length (r_log s))"

lemma append_loop_push_intent:
  assumes "log_intent_ok old s" and "r_pending_persist_log_from s \<noteq> None" and "length (r_log s) = i"
  shows "log_intent_ok old (append_loop i ens s)"
  using assms
proof (induction ens arbitrary: i s)
  case (Cons en ens)
  let ?s = "append_entry i en s"
  from Cons.prems have "log_intent_ok old ?s" "r_pending_persist_log_from ?s \<noteq> None"
      "length (r_log ?s) = Suc i"
    by (auto simp: log_intent_ok_def append_entry_def split: option.splits)
  with Cons.IH show ?case by simp
qed simp

lemma append_loop_intent:
  assumes "r_pending_truncate_from s = None" and "r_pending_persist_log_from s = None"
    and "i \<le> length (r_log s)"
  shows "append_loop i ens s = s
    \<or> log_intent_ok (r_log s) (append_loop i ens s) \<and> length (r_log (append_loop i ens s)) = i + length ens"
  using assms
proof (induction ens arbitrary: i)
  case (Cons en ens)
  show ?case
  proof (cases "i < length (r_log s) \<and> e_term (r_log s ! i) = e_term en")
    case True
    then have "append_entry i en s = s" by (simp add: append_entry_def)
    with True Cons show ?thesis using Cons.IH [of "Suc i"] by simp
  next
    case False
    let ?s = "append_entry i en s"
    from False Cons.prems have "log_intent_ok (r_log s) ?s" "r_pending_persist_log_from ?s \<noteq> None"
        "length (r_log ?s) = Suc i"
      by (auto simp: log_intent_ok_def append_entry_def split: option.splits if_splits)
    then show ?thesis
      using append_loop_push_intent [of "r_log s" ?s "Suc i" ens] append_loop_push [of ?s "Suc i" ens]
      by simp
  qed
qed simp

lemma accepted_log_intent:
  assumes "r_pending_truncate_from s = None" and "r_pending_persist_log_from s = None"
    and "append_start prev \<le> length (r_log s)"
  shows "log_intent_ok (r_log s) (truncate_unverified (verified_index prev (length ens))
      (append_loop (append_start prev) ens s))"
  using append_loop_intent [OF assms, of ens]
proof
  assume "append_loop (append_start prev) ens s = s"
  with assms show ?thesis
    by (auto simp: truncate_unverified_def log_intent_ok_def Let_def split: option.splits)
next
  assume *: "log_intent_ok (r_log s) (append_loop (append_start prev) ens s) \<and>
    length (r_log (append_loop (append_start prev) ens s)) = append_start prev + length ens"
  then have "truncate_unverified (verified_index prev (length ens))
      (append_loop (append_start prev) ens s) = append_loop (append_start prev) ens s"
    by (auto simp: truncate_unverified_def Let_def dest!: verified_index_Some split: option.splits)
  with * show ?thesis by simp
qed

end
