(* ===== verification/RaftSpec.thy ===== *)
theory RaftSpec
  imports RaftLocal
begin

text \<open>
  An abstract specification of the replicated log: what the Raft nodes of a cluster do to
  their term, vote, role and log, one small step at a time, over a network that may lose,
  duplicate and reorder messages (the set of all messages ever sent). History variables record
  every vote, the log of the leader of every term and the acknowledgements, so that the
  safety arguments are invariants of single states. The theory proves election safety and log
  matching; \<open>RaftCluster\<close> shows that the program refines it.
\<close>

section \<open>State\<close>

record 'v core =
  co_term :: u64
  co_vote :: "node_id option"
  co_log :: "'v log_entry list"
  co_role :: role
  co_votes :: "node_id set"
  co_commit :: "u64 option"

type_synonym 'v packet = "node_id \<times> node_id \<times> 'v raft_message"

text \<open>
  \<open>ac_lead t\<close> is the leader of term \<open>t\<close> with the length its log had at the election and its
  log now; \<open>ac_acked m t\<close> is how many entries of that log node \<open>m\<close> has acknowledged.
\<close>

record 'v acluster =
  ac_core :: "node_id \<Rightarrow> 'v core"
  ac_net :: "'v packet set"
  ac_voted :: "(node_id \<times> u64 \<times> node_id) set"
  ac_lead :: "u64 \<Rightarrow> (node_id \<times> nat \<times> 'v log_entry list) option"
  ac_acked :: "node_id \<Rightarrow> u64 \<Rightarrow> nat"
  ac_decided :: "(u64 \<times> 'v) set"

definition core_init :: "'v core" where
  "core_init = \<lparr>co_term = 0, co_vote = None, co_log = [], co_role = Follower, co_votes = {},
     co_commit = None\<rparr>"

definition acluster_init :: "'v acluster" where
  "acluster_init = \<lparr>ac_core = (\<lambda>_. core_init), ac_net = {}, ac_voted = {}, ac_lead = (\<lambda>_. None),
     ac_acked = (\<lambda>_ _. 0), ac_decided = {}\<rparr>"

definition set_core :: "'v acluster \<Rightarrow> node_id \<Rightarrow> 'v core \<Rightarrow> 'v acluster" where
  "set_core a n c = a\<lparr>ac_core := (ac_core a)(n := c)\<rparr>"

lemma set_core_sel [simp]:
  "ac_core (set_core a n c) = (ac_core a)(n := c)"
  "ac_net (set_core a n c) = ac_net a"
  "ac_voted (set_core a n c) = ac_voted a"
  "ac_lead (set_core a n c) = ac_lead a"
  "ac_acked (set_core a n c) = ac_acked a"
  "ac_decided (set_core a n c) = ac_decided a"
  by (simp_all add: set_core_def)

section \<open>Steps\<close>

definition log_last_index :: "'v log_entry list \<Rightarrow> u64 option" where
  "log_last_index l = (if l = [] then None else Some (length l - 1))"

definition log_last_term :: "'v log_entry list \<Rightarrow> u64" where
  "log_last_term l = (if l = [] then 0 else e_term (last l))"

text \<open>The election restriction.\<close>

definition up_to_date :: "'v log_entry list \<Rightarrow> u64 \<Rightarrow> u64 option \<Rightarrow> bool" where
  "up_to_date l cand_term cand_index \<longleftrightarrow>
     cand_term > log_last_term l
     \<or> cand_term = log_last_term l \<and> opt_key cand_index \<ge> opt_key (log_last_index l)"

definition prev_ok :: "'v log_entry list \<Rightarrow> u64 option \<Rightarrow> u64 \<Rightarrow> bool" where
  "prev_ok l prev prev_term \<longleftrightarrow>
     (case prev of None \<Rightarrow> True | Some i \<Rightarrow> i < length l \<and> e_term (l ! i) = prev_term)"

text \<open>An \<open>AppendEntries\<close> that carries everything from position \<open>k\<close> on.\<close>

definition ae_prev :: "nat \<Rightarrow> u64 option" where
  "ae_prev k = (if k = 0 then None else Some (k - 1))"

definition ae_prev_term :: "nat \<Rightarrow> 'v log_entry list \<Rightarrow> u64" where
  "ae_prev_term k l = (if k = 0 then 0 else e_term (l ! (k - 1)))"

lemma append_start_ae_prev [simp]: "append_start (ae_prev k) = k"
  by (simp add: append_start_def ae_prev_def)

definition later :: "u64 \<Rightarrow> u64 option \<Rightarrow> bool" where
  "later c old \<longleftrightarrow> (case old of None \<Rightarrow> True | Some d \<Rightarrow> c > d)"

definition learn_commit :: "u64 option \<Rightarrow> u64 option \<Rightarrow> u64 option \<Rightarrow> u64 option" where
  "learn_commit leader_commit verified old =
     (case (leader_commit, verified) of
        (Some lc, Some lst) \<Rightarrow> (if later (min lc lst) old then Some (min lc lst) else old)
      | _ \<Rightarrow> old)"

text \<open>The history of an election: the log of the winner, which counts as acknowledged by it.\<close>

definition elect :: "node_id \<Rightarrow> 'v acluster \<Rightarrow> 'v acluster" where
  "elect n a =
     (let c = ac_core a n; t = co_term c; l = co_log c in
      a\<lparr>ac_core := (ac_core a)(n := c\<lparr>co_role := Leader\<rparr>),
        ac_lead := (ac_lead a)(t := (case ac_lead a t of None \<Rightarrow> Some (n, length l, l) | Some x \<Rightarrow> Some x)),
        ac_acked := (ac_acked a)(n := (ac_acked a n)(t := max (length l) (ac_acked a n t)))\<rparr>)"

text \<open>A leader adds an entry to its log, which it thereby acknowledges.\<close>

definition extend :: "node_id \<Rightarrow> 'v \<Rightarrow> 'v acluster \<Rightarrow> 'v acluster" where
  "extend n v a =
     (let c = ac_core a n; t = co_term c; l = co_log c @ [LogEntry t v] in
      a\<lparr>ac_core := (ac_core a)(n := c\<lparr>co_log := l\<rparr>),
        ac_lead := (ac_lead a)(t := map_option (\<lambda>(x, k, _). (x, k, l)) (ac_lead a t)),
        ac_acked := (ac_acked a)(n := (ac_acked a n)(t := max (length l) (ac_acked a n t)))\<rparr>)"

inductive astep :: "bool \<Rightarrow> node_id set \<Rightarrow> 'v acluster \<Rightarrow> 'v acluster \<Rightarrow> bool"
  for ordered :: bool and N :: "node_id set"
where
  bump: "n \<in> N \<Longrightarrow> c = ac_core a n \<Longrightarrow> t > co_term c \<Longrightarrow>
    astep ordered N a
      (set_core a n (c\<lparr>co_term := t, co_vote := None, co_role := Follower, co_votes := {}\<rparr>))"
| follow: "n \<in> N \<Longrightarrow> c = ac_core a n \<Longrightarrow> co_role c \<noteq> Leader \<Longrightarrow>
    astep ordered N a (set_core a n (c\<lparr>co_role := Follower\<rparr>))"
| grant: "n \<in> N \<Longrightarrow> c = ac_core a n \<Longrightarrow>
    (cand, n, RequestVote (co_term c) cand li lt) \<in> ac_net a \<Longrightarrow>
    co_vote c = None \<or> co_vote c = Some cand \<Longrightarrow> up_to_date (co_log c) lt li \<Longrightarrow>
    astep ordered N a
      ((set_core a n (c\<lparr>co_vote := Some cand\<rparr>))
        \<lparr>ac_voted := insert (n, co_term c, cand) (ac_voted a),
         ac_net := insert (n, cand, RequestVoteResponse (co_term c) True) (ac_net a)\<rparr>)"
| accept: "n \<in> N \<Longrightarrow> c = ac_core a n \<Longrightarrow>
    (l, n, AppendEntries (co_term c) l prev pt ens lc) \<in> ac_net a \<Longrightarrow>
    co_role c \<noteq> Leader \<Longrightarrow> prev_ok (co_log c) prev pt \<Longrightarrow>
    k = append_start prev + length ens \<Longrightarrow> (ordered \<Longrightarrow> ac_acked a n (co_term c) \<le> k) \<Longrightarrow>
    astep ordered N a
      ((set_core a n (c\<lparr>co_role := Follower, co_log := accepted_log prev ens (co_log c),
            co_commit := learn_commit lc (verified_index prev (length ens)) (co_commit c)\<rparr>))
        \<lparr>ac_acked := (ac_acked a)(n := (ac_acked a n)(co_term c := max k (ac_acked a n (co_term c)))),
         ac_net := insert (n, l, AppendEntriesResponse (co_term c) True
                             (verified_index prev (length ens)) None None) (ac_net a)\<rparr>)"
| campaign: "n \<in> N \<Longrightarrow> c = ac_core a n \<Longrightarrow> co_role c \<noteq> Leader \<Longrightarrow>
    astep ordered N a
      ((set_core a n (c\<lparr>co_term := Suc (co_term c), co_vote := Some n, co_role := Candidate,
            co_votes := {n}\<rparr>))
        \<lparr>ac_voted := insert (n, Suc (co_term c), n) (ac_voted a),
         ac_net := ac_net a \<union> (\<lambda>m. (n, m, RequestVote (Suc (co_term c)) n
             (log_last_index (co_log c)) (log_last_term (co_log c)))) ` (N - {n})\<rparr>)"
| tally: "n \<in> N \<Longrightarrow> c = ac_core a n \<Longrightarrow> co_role c = Candidate \<Longrightarrow>
    (m, n, RequestVoteResponse (co_term c) True) \<in> ac_net a \<Longrightarrow>
    astep ordered N a (set_core a n (c\<lparr>co_votes := insert m (co_votes c)\<rparr>))"
| win: "n \<in> N \<Longrightarrow> c = ac_core a n \<Longrightarrow> co_role c = Candidate \<Longrightarrow>
    quorum_of (card N) \<le> card (co_votes c) \<Longrightarrow> astep ordered N a (elect n a)"
| resume: "N = {n} \<Longrightarrow> c = ac_core a n \<Longrightarrow> co_vote c = Some n \<Longrightarrow> astep ordered N a (elect n a)"
| append: "n \<in> N \<Longrightarrow> c = ac_core a n \<Longrightarrow> co_role c = Leader \<Longrightarrow> astep ordered N a (extend n v a)"
| send: "n \<in> N \<Longrightarrow> c = ac_core a n \<Longrightarrow> co_role c = Leader \<Longrightarrow> m \<in> N - {n} \<Longrightarrow> k \<le> length (co_log c) \<Longrightarrow>
    astep ordered N a
      (a\<lparr>ac_net := insert (n, m, AppendEntries (co_term c) n (ae_prev k) (ae_prev_term k (co_log c))
            (drop k (co_log c)) (co_commit c)) (ac_net a)\<rparr>)"
| commit: "n \<in> N \<Longrightarrow> c = ac_core a n \<Longrightarrow> co_role c = Leader \<Longrightarrow> i < length (co_log c) \<Longrightarrow>
    e_term (co_log c ! i) = co_term c \<Longrightarrow> later i (co_commit c) \<Longrightarrow>
    majority N {m \<in> N. i < ac_acked a m (co_term c)} \<Longrightarrow>
    astep ordered N a (set_core a n (c\<lparr>co_commit := Some i\<rparr>))"
| decide: "n \<in> N \<Longrightarrow> c = ac_core a n \<Longrightarrow> co_commit c = Some d \<Longrightarrow> i \<le> d \<Longrightarrow> i < length (co_log c) \<Longrightarrow>
    astep ordered N a (a\<lparr>ac_decided := insert (i, e_value (co_log c ! i)) (ac_decided a)\<rparr>)"
| restart: "n \<in> N \<Longrightarrow> c = ac_core a n \<Longrightarrow> (ordered \<Longrightarrow> opt_key ci \<le> opt_key (co_commit c)) \<Longrightarrow>
    astep ordered N a
      (set_core a n (c\<lparr>co_role := Follower, co_votes := {}, co_commit := ci\<rparr>))"

inductive areach :: "bool \<Rightarrow> node_id set \<Rightarrow> 'v acluster \<Rightarrow> bool"
  for ordered :: bool and N :: "node_id set"
where
  init: "areach ordered N acluster_init"
| step: "areach ordered N a \<Longrightarrow> astep ordered N a b \<Longrightarrow> areach ordered N b"

section \<open>Votes\<close>

definition net_inv :: "node_id set \<Rightarrow> 'v acluster \<Rightarrow> bool" where
  "net_inv N a \<longleftrightarrow> (\<forall>x y m. (x, y, m) \<in> ac_net a \<longrightarrow> x \<in> N \<and> y \<in> N \<and> x \<noteq> y)"

definition vote_inv :: "node_id set \<Rightarrow> 'v acluster \<Rightarrow> bool" where
  "vote_inv N a \<longleftrightarrow>
     (\<forall>m t c. (m, t, c) \<in> ac_voted a \<longrightarrow> m \<in> N \<and> t \<le> co_term (ac_core a m)
        \<and> (t = co_term (ac_core a m) \<longrightarrow> co_vote (ac_core a m) = Some c))
   \<and> (\<forall>m t c c'. (m, t, c) \<in> ac_voted a \<longrightarrow> (m, t, c') \<in> ac_voted a \<longrightarrow> c = c')
   \<and> (\<forall>m c. co_vote (ac_core a m) = Some c \<longrightarrow> (m, co_term (ac_core a m), c) \<in> ac_voted a)
   \<and> (\<forall>m c t. (m, c, RequestVoteResponse t True) \<in> ac_net a \<longrightarrow> (m, t, c) \<in> ac_voted a)
   \<and> (\<forall>n. co_role (ac_core a n) = Candidate \<longrightarrow>
        co_votes (ac_core a n) \<subseteq> {m. (m, co_term (ac_core a n), n) \<in> ac_voted a})"

lemma elect_sel [simp]:
  "ac_core (elect n a) = (ac_core a)(n := (ac_core a n)\<lparr>co_role := Leader\<rparr>)"
  "ac_net (elect n a) = ac_net a"
  "ac_voted (elect n a) = ac_voted a"
  "ac_decided (elect n a) = ac_decided a"
  by (simp_all add: elect_def Let_def)

lemma elect_lead_new:
  "ac_lead a (co_term (ac_core a n)) = None \<Longrightarrow> ac_lead (elect n a) = (ac_lead a)(co_term (ac_core a n)
     := Some (n, length (co_log (ac_core a n)), co_log (ac_core a n)))"
  by (simp add: elect_def Let_def)

lemma elect_lead_old:
  "ac_lead a (co_term (ac_core a n)) = Some x \<Longrightarrow> ac_lead (elect n a) = ac_lead a"
  by (auto simp: elect_def Let_def)

lemma extend_sel [simp]:
  "ac_core (extend n v a) = (ac_core a)(n := (ac_core a n)\<lparr>co_log :=
     co_log (ac_core a n) @ [LogEntry (co_term (ac_core a n)) v]\<rparr>)"
  "ac_net (extend n v a) = ac_net a"
  "ac_voted (extend n v a) = ac_voted a"
  "ac_decided (extend n v a) = ac_decided a"
  by (simp_all add: extend_def Let_def)

lemma extend_lead:
  "ac_lead a (co_term (ac_core a n)) = Some (m, k, l) \<Longrightarrow> ac_lead (extend n v a) = (ac_lead a)(co_term (ac_core a n)
     := Some (m, k, co_log (ac_core a n) @ [LogEntry (co_term (ac_core a n)) v]))"
  by (simp add: extend_def Let_def)

lemma net_inv_step: "astep ordered N a b \<Longrightarrow> net_inv N a \<Longrightarrow> net_inv N b"
  by (induction rule: astep.induct) (auto simp: net_inv_def)

lemma vote_inv_step: "astep ordered N a b \<Longrightarrow> vote_inv N a \<Longrightarrow> vote_inv N b"
  apply (induction rule: astep.induct)
  subgoal by (fastforce simp: vote_inv_def)
  subgoal by (auto simp: vote_inv_def)
  subgoal by (auto simp: vote_inv_def)
  subgoal by (auto simp: vote_inv_def)
  subgoal by (fastforce simp: vote_inv_def)
  subgoal by (auto simp: vote_inv_def)
  subgoal by (auto simp: vote_inv_def)
  subgoal by (auto simp: vote_inv_def)
  subgoal by (auto simp: vote_inv_def)
  subgoal by (auto simp: vote_inv_def)
  subgoal by (auto simp: vote_inv_def)
  subgoal by (auto simp: vote_inv_def)
  subgoal by (auto simp: vote_inv_def)
  done

section \<open>Leaders\<close>

abbreviation voters :: "node_id set \<Rightarrow> 'v acluster \<Rightarrow> u64 \<Rightarrow> node_id \<Rightarrow> node_id set" where
  "voters N a t c \<equiv> {m \<in> N. (m, t, c) \<in> ac_voted a}"

definition lead_ok :: "node_id set \<Rightarrow> 'v acluster \<Rightarrow> u64 \<Rightarrow> node_id \<Rightarrow> nat \<Rightarrow> 'v log_entry list \<Rightarrow> bool" where
  "lead_ok N a t n k l \<longleftrightarrow>
     n \<in> N \<and> majority N (voters N a t n) \<and> t \<le> co_term (ac_core a n) \<and> k \<le> length l
     \<and> (co_term (ac_core a n) = t \<longrightarrow> co_role (ac_core a n) \<noteq> Candidate \<and> co_log (ac_core a n) = l)"

definition lead_inv :: "node_id set \<Rightarrow> 'v acluster \<Rightarrow> bool" where
  "lead_inv N a \<longleftrightarrow>
     (\<forall>t n k l. ac_lead a t = Some (n, k, l) \<longrightarrow> lead_ok N a t n k l)
   \<and> (\<forall>n. co_role (ac_core a n) = Leader \<longrightarrow>
        (\<exists>k. ac_lead a (co_term (ac_core a n)) = Some (n, k, co_log (ac_core a n))))"

lemma lead_invI:
  assumes "\<And>t n k l. ac_lead a t = Some (n, k, l) \<Longrightarrow> lead_ok N a t n k l"
    and "\<And>n. co_role (ac_core a n) = Leader \<Longrightarrow>
        \<exists>k. ac_lead a (co_term (ac_core a n)) = Some (n, k, co_log (ac_core a n))"
  shows "lead_inv N a"
  using assms unfolding lead_inv_def by blast

lemma leader_leads:
  "lead_inv N a \<Longrightarrow> co_role (ac_core a n) = Leader \<Longrightarrow>
   \<exists>k. ac_lead a (co_term (ac_core a n)) = Some (n, k, co_log (ac_core a n))"
  unfolding lead_inv_def by blast

lemma lead_invD:
  assumes "lead_inv N a" and "ac_lead a t = Some (n, k, l)"
  shows "n \<in> N" and "majority N (voters N a t n)" and "t \<le> co_term (ac_core a n)" and "k \<le> length l"
    and "co_term (ac_core a n) = t \<Longrightarrow> co_role (ac_core a n) \<noteq> Candidate"
    and "co_term (ac_core a n) = t \<Longrightarrow> co_log (ac_core a n) = l"
  using assms unfolding lead_inv_def lead_ok_def by blast+

text \<open>What an \<open>AppendEntries\<close> carries is a slice of the log \<open>l\<close>.\<close>

definition ae_slice :: "'v log_entry list \<Rightarrow> u64 option \<Rightarrow> u64 \<Rightarrow> 'v log_entry list \<Rightarrow> bool" where
  "ae_slice l prev pt ens \<longleftrightarrow>
     append_start prev + length ens \<le> length l \<and> take (length ens) (drop (append_start prev) l) = ens
     \<and> (case prev of None \<Rightarrow> True | Some p \<Rightarrow> e_term (l ! p) = pt)"

definition ae_inv :: "'v acluster \<Rightarrow> bool" where
  "ae_inv a \<longleftrightarrow>
     (\<forall>x y t n prev pt ens lc. (x, y, AppendEntries t n prev pt ens lc) \<in> ac_net a \<longrightarrow>
        x = n \<and> (\<exists>k l. ac_lead a t = Some (n, k, l) \<and> ae_slice l prev pt ens
                   \<and> k \<le> append_start prev + length ens))"

lemma two_leaders_same:
  assumes "vote_inv N a" and "majority N (voters N a t m)" and "majority N (voters N a t n)"
  shows "m = n"
proof -
  from majorities.quorum_common_member [OF assms(2,3)] obtain x where
    "(x, t, m) \<in> ac_voted a" "(x, t, n) \<in> ac_voted a" by blast
  with assms(1) show ?thesis unfolding vote_inv_def by blast
qed

lemma ae_slice_append: "ae_slice l prev pt ens \<Longrightarrow> ae_slice (l @ l') prev pt ens"
  by (auto simp: ae_slice_def append_start_def nth_append split: option.splits)

lemma ae_slice_drop: "k \<le> length l \<Longrightarrow> ae_slice l (ae_prev k) (ae_prev_term k l) (drop k l)"
  by (auto simp: ae_slice_def ae_prev_def ae_prev_term_def append_start_def)

lemma voters_more:
  "majority N (voters N a t n) \<Longrightarrow> majority N {m \<in> N. P m \<or> (m, t, n) \<in> ac_voted a}"
  by (rule majority_mono) auto

lemma win_majority:
  assumes "vote_inv N a" and "finite N" and "co_role (ac_core a n) = Candidate"
    and "quorum_of (card N) \<le> card (co_votes (ac_core a n))"
  shows "majority N (voters N a (co_term (ac_core a n)) n)"
proof -
  from assms(1,3) have "co_votes (ac_core a n) \<subseteq> voters N a (co_term (ac_core a n)) n"
    unfolding vote_inv_def by blast
  then have "card (co_votes (ac_core a n)) \<le> card (voters N a (co_term (ac_core a n)) n)"
    using assms(2) by (intro card_mono) auto
  with assms show ?thesis by (auto simp: majority_def)
qed

lemma resume_majority:
  assumes "vote_inv N a" and "N = {n}" and "co_vote (ac_core a n) = Some n"
  shows "majority N (voters N a (co_term (ac_core a n)) n)"
proof -
  from assms have "voters N a (co_term (ac_core a n)) n = {n}" by (auto simp: vote_inv_def)
  with assms(2) show ?thesis by (simp add: majority_def quorum_of_def)
qed

text \<open>An election that makes \<open>n\<close> the leader of its term, when a majority voted for it.\<close>

lemma elect_lead_inv:
  assumes inv: "vote_inv N a" "lead_inv N a"
    and n: "n \<in> N" and maj: "majority N (voters N a (co_term (ac_core a n)) n)"
  shows "lead_inv N (elect n a)"
proof -
  let ?t = "co_term (ac_core a n)"
  have same: "m = n" if "ac_lead a ?t = Some (m, k, l)" for m k l
    using that inv two_leaders_same [OF inv(1) _ maj] by (auto simp: lead_inv_def lead_ok_def)
  show ?thesis
  proof (cases "ac_lead a ?t")
    case None
    with inv(2) n maj show ?thesis by (auto simp: lead_inv_def lead_ok_def elect_lead_new)
  next
    case (Some x)
    with inv(2) n same show ?thesis by (cases x) (fastforce simp: lead_inv_def lead_ok_def elect_lead_old)
  qed
qed

lemma lead_inv_step:
  assumes "astep ordered N a b" and "finite N" and "net_inv N a" and "vote_inv N a" and "ae_inv a"
    and "lead_inv N a"
  shows "lead_inv N b"
  using assms
proof (induction rule: astep.induct)
  case (bump n c a t)
  then show ?case by (fastforce simp: lead_inv_def lead_ok_def)
next
  case (follow n c a)
  then show ?case by (auto simp: lead_inv_def lead_ok_def)
next
  case (grant n c a cand li lt)
  then show ?case by (auto simp: lead_inv_def lead_ok_def intro: voters_more)
next
  case (accept n c a l prev pt ens lc k)
  then obtain k' l' where "ac_lead a (co_term c) = Some (l, k', l')" "l \<noteq> n"
    unfolding ae_inv_def net_inv_def by blast
  with accept show ?case by (auto simp: lead_inv_def lead_ok_def)
next
  case (campaign n c a)
  then show ?case by (fastforce simp: lead_inv_def lead_ok_def intro: voters_more)
next
  case (tally n c a m)
  then show ?case by (auto simp: lead_inv_def lead_ok_def)
next
  case (win n c a)
  from win.prems win.hyps win_majority [of N a n] have "majority N (voters N a (co_term (ac_core a n)) n)" by simp
  with win.prems win.hyps elect_lead_inv [of N a n] show ?case by simp
next
  case (resume n c a)
  from resume.prems resume.hyps resume_majority [of N a n]
  have "majority N (voters N a (co_term (ac_core a n)) n)" by blast
  with resume.prems resume.hyps elect_lead_inv [of N a n] show ?case by blast
next
  case (append n c a v)
  then obtain k where lead: "ac_lead a (co_term c) = Some (n, k, co_log c)"
    using leader_leads [of N a n] by blast
  from append.prems have inv: "lead_inv N a" by simp
  have role: "co_role (ac_core a n) = Leader" and c: "c = ac_core a n" using append.hyps by simp_all
  note upd = extend_lead [OF lead [unfolded c]]
  show ?case
  proof (rule lead_invI)
    fix t m j l assume "ac_lead (extend n v a) t = Some (m, j, l)"
    then consider "t = co_term c" "m = n" "j = k" "l = co_log c @ [LogEntry (co_term c) v]"
      | "t \<noteq> co_term c" "ac_lead a t = Some (m, j, l)"
      by (auto simp: upd c split: if_splits)
    then show "lead_ok N (extend n v a) t m j l"
    proof cases
      case 1
      with lead_invD(1-4) [OF inv lead] role show ?thesis by (simp add: lead_ok_def c)
    next
      case 2
      with lead_invD [OF inv 2(2)] show ?thesis by (auto simp: lead_ok_def c)
    qed
  next
    fix m assume "co_role (ac_core (extend n v a) m) = Leader"
    with leader_leads [OF inv, of m]
    show "\<exists>k. ac_lead (extend n v a) (co_term (ac_core (extend n v a) m))
        = Some (m, k, co_log (ac_core (extend n v a) m))"
      using lead c by (cases "m = n") (auto simp: upd)
  qed
next
  case (send n c a m k)
  then show ?case by (auto simp: lead_inv_def lead_ok_def)
next
  case (commit n c a i)
  then show ?case by (auto simp: lead_inv_def lead_ok_def)
next
  case (decide n c a d i)
  then show ?case by (auto simp: lead_inv_def lead_ok_def)
next
  case (restart n c a ci)
  then show ?case by (auto simp: lead_inv_def lead_ok_def)
qed

section \<open>Log matching\<close>

text \<open>Every entry of a log stands, with all before it, in the log of the leader of its term.\<close>

definition traced :: "'v acluster \<Rightarrow> 'v log_entry list \<Rightarrow> bool" where
  "traced a log \<longleftrightarrow>
     (\<forall>i<length log. \<exists>n k l. ac_lead a (e_term (log ! i)) = Some (n, k, l) \<and> i < length l
        \<and> take (Suc i) log = take (Suc i) l)"

definition log_inv :: "'v acluster \<Rightarrow> bool" where
  "log_inv a \<longleftrightarrow> (\<forall>n. traced a (co_log (ac_core a n)))
     \<and> (\<forall>t n k l. ac_lead a t = Some (n, k, l) \<longrightarrow> traced a l)"

definition lead_le :: "'v acluster \<Rightarrow> 'v acluster \<Rightarrow> bool" where
  "lead_le a b \<longleftrightarrow>
     (\<forall>t n k l. ac_lead a t = Some (n, k, l) \<longrightarrow> (\<exists>l'. ac_lead b t = Some (n, k, l @ l')))"

lemma lead_leD: "lead_le a b \<Longrightarrow> ac_lead a t = Some (n, k, l) \<Longrightarrow> \<exists>l'. ac_lead b t = Some (n, k, l @ l')"
  by (simp add: lead_le_def)

lemma lead_le_same: "ac_lead b = ac_lead a \<Longrightarrow> lead_le a b"
  by (simp add: lead_le_def)

lemma lead_le_step: "astep ordered N a b \<Longrightarrow> lead_inv N a \<Longrightarrow> lead_le a b"
proof (induction rule: astep.induct)
  case (win n c a)
  then show ?case by (auto simp: lead_le_def elect_def Let_def)
next
  case (resume n c a)
  then show ?case by (auto simp: lead_le_def elect_def Let_def)
next
  case (append n c a v)
  then obtain k where "ac_lead a (co_term c) = Some (n, k, co_log c)"
    using leader_leads [of N a n] by blast
  with append.hyps show ?case by (auto simp: lead_le_def extend_lead)
qed (auto intro: lead_le_same)

lemma traced_mono: "lead_le a b \<Longrightarrow> traced a log \<Longrightarrow> traced b log"
proof (unfold traced_def, intro allI impI)
  fix i assume le: "lead_le a b" and i: "i < length log"
    and "\<forall>i<length log. \<exists>n k l. ac_lead a (e_term (log ! i)) = Some (n, k, l) \<and> i < length l
        \<and> take (Suc i) log = take (Suc i) l"
  then obtain n k l where *: "ac_lead a (e_term (log ! i)) = Some (n, k, l)" "i < length l"
      "take (Suc i) log = take (Suc i) l" by blast
  with lead_leD [OF le *(1)]
  show "\<exists>n k l. ac_lead b (e_term (log ! i)) = Some (n, k, l) \<and> i < length l
      \<and> take (Suc i) log = take (Suc i) l" by fastforce
qed

lemma traced_agree:
  assumes "traced a x" and "traced a y" and "i < length x" and "i < length y"
    and "e_term (x ! i) = e_term (y ! i)"
  shows "take (Suc i) x = take (Suc i) y"
  using assms unfolding traced_def by (metis option.inject prod.inject)

lemma traced_take: "traced a l \<Longrightarrow> traced a (take k l)"
  by (auto simp: traced_def min_absorb1 Suc_le_eq)

text \<open>An accepted \<open>AppendEntries\<close> leaves a prefix of the log of its leader.\<close>

lemma accepted_log_leader:
  assumes tr: "traced a log" "traced a l" and sl: "ae_slice l prev pt ens" and ok: "prev_ok log prev pt"
    and some: "\<not> (prev = None \<and> ens = [])"
  shows "accepted_log prev ens log = take (append_start prev + length ens) l"
proof -
  let ?i = "append_start prev" and ?n = "append_start prev + length ens"
  have le: "?i \<le> length log" using ok by (auto simp: prev_ok_def append_start_def split: option.splits)
  have pre: "take ?i log = take ?i l"
  proof (cases prev)
    case (Some p)
    with ok sl have "p < length log" "p < length l" "e_term (log ! p) = e_term (l ! p)"
      by (auto simp: prev_ok_def ae_slice_def append_start_def)
    with traced_agree [OF tr] Some show ?thesis by (simp add: append_start_def)
  qed (simp add: append_start_def)
  have ens: "ens ! j = l ! (?i + j)" if "j < length ens" for j
  proof -
    have "take (length ens) (drop ?i l) ! j = drop ?i l ! j" using that by (rule nth_take)
    also have "\<dots> = l ! (?i + j)" using sl that by (intro nth_drop) (auto simp: ae_slice_def)
    finally show ?thesis using sl by (simp add: ae_slice_def)
  qed
  have "length (accepted_log prev ens log) = ?n" using le some by (rule accepted_log_length)
  moreover have "accepted_log prev ens log ! j = l ! j" if j: "j < ?n" for j
  proof (cases "j < ?i")
    case True
    have "take ?i (merge_log ?i ens log) = take ?i l" using merge_log_prefix [OF le] pre by simp
    with True j show ?thesis using some by (auto simp: accepted_log_def dest: take_eq_nth)
  next
    case False
    then obtain d where d: "j = ?i + d" "d < length ens" using j by (metis add_less_cancel_left le_Suc_ex not_less)
    have "merge_log ?i ens log ! j = l ! j"
      using merge_log_nth [OF le d(2)]
    proof
      assume "?i + d < length log \<and> merge_log ?i ens log ! (?i + d) = log ! (?i + d)
         \<and> e_term (log ! (?i + d)) = e_term (ens ! d)"
      moreover have "?i + d < length l" using sl d by (simp add: ae_slice_def)
      ultimately have "take (Suc j) log = take (Suc j) l"
        using traced_agree [OF tr, of j] ens d by simp
      then have "log ! j = l ! j" by (rule take_eq_nth) simp
      with \<open>?i + d < length log \<and> _\<close> d show ?thesis by simp
    qed (use d ens in simp)
    with j some show ?thesis by (auto simp: accepted_log_def)
  qed
  moreover have "?n \<le> length l" using sl by (simp add: ae_slice_def)
  ultimately show ?thesis by (intro nth_equalityI) auto
qed

text \<open>Steps that send no \<open>AppendEntries\<close> keep what is known about those on the way.\<close>

lemma ae_inv_mono:
  assumes "ae_inv a" and le: "lead_le a b"
    and "\<And>x y t n prev pt ens lc. (x, y, AppendEntries t n prev pt ens lc) \<in> ac_net b \<Longrightarrow>
           (x, y, AppendEntries t n prev pt ens lc) \<in> ac_net a"
  shows "ae_inv b"
  unfolding ae_inv_def
proof (intro allI impI)
  fix x y t n prev pt ens lc
  assume "(x, y, AppendEntries t n prev pt ens lc) \<in> ac_net b"
  with assms(1,3) obtain k l where *: "x = n" "ac_lead a t = Some (n, k, l)" "ae_slice l prev pt ens"
      "k \<le> append_start prev + length ens"
    unfolding ae_inv_def by blast
  with lead_leD [OF le *(2)] ae_slice_append [OF *(3)]
  show "x = n \<and> (\<exists>k l. ac_lead b t = Some (n, k, l) \<and> ae_slice l prev pt ens
      \<and> k \<le> append_start prev + length ens)" by blast
qed

lemma ae_inv_step:
  assumes st: "astep ordered N a b" and lead: "lead_inv N a" and inv: "ae_inv a"
  shows "ae_inv b"
  using st
proof (cases rule: astep.cases)
  case (send n c m k)
  then obtain j where j: "ac_lead a (co_term c) = Some (n, j, co_log c)"
    using lead leader_leads [of N a n] by blast
  from lead_invD(4) [OF lead this] ae_slice_drop [of k "co_log c"] send
  have "ae_slice (co_log c) (ae_prev k) (ae_prev_term k (co_log c)) (drop k (co_log c))"
    "j \<le> k + length (drop k (co_log c))" by simp_all
  with j inv send(1) show ?thesis unfolding ae_inv_def by auto
qed (rule ae_inv_mono [OF inv lead_le_step [OF st lead]]; simp; blast)+

lemma traced_extend:
  assumes "traced a l" and "ac_lead a t = Some (n, k, l @ [LogEntry t v])"
  shows "traced a (l @ [LogEntry t v])"
  using assms by (auto simp: traced_def nth_append less_Suc_eq)

lemma log_inv_step:
  assumes st: "astep ordered N a b" and inv: "lead_inv N a" "ae_inv a" "log_inv a"
  shows "log_inv b"
proof -
  have le: "lead_le a b" by (rule lead_le_step [OF st inv(1)])
  have old: "traced b (co_log (ac_core a n))" "ac_lead a t = Some (m, k, l) \<Longrightarrow> traced b l" for n t m k l
    using inv(3) traced_mono [OF le] by (auto simp: log_inv_def)
  have same: "log_inv b" if "\<And>n. co_log (ac_core b n) = co_log (ac_core a n)" "ac_lead b = ac_lead a"
    using that old unfolding log_inv_def by (metis)
  show ?thesis
    using st
  proof (cases rule: astep.cases)
    case (accept n c l prev pt ens lc k)
    then obtain k' l' where *: "ac_lead a (co_term c) = Some (l, k', l')" "ae_slice l' prev pt ens"
      using inv(2) unfolding ae_inv_def by blast
    have "traced b (accepted_log prev ens (co_log c))"
    proof (cases "prev = None \<and> ens = []")
      case False
      have "traced a (co_log c)" "traced a l'" using inv(3) * accept by (auto simp: log_inv_def)
      from accepted_log_leader [OF this *(2) _ False] accept
      have "accepted_log prev ens (co_log c) = take (append_start prev + length ens) l'" by simp
      with old(2) [OF *(1)] show ?thesis by (simp add: traced_take)
    qed (use old accept in \<open>simp add: accepted_log_def\<close>)
    with old accept show ?thesis by (auto simp: log_inv_def)
  next
    case (win n c)
    with old show ?thesis by (auto simp: log_inv_def elect_def Let_def split: option.splits if_splits)
  next
    case (resume n c)
    with old show ?thesis by (auto simp: log_inv_def elect_def Let_def split: option.splits if_splits)
  next
    case (append n c v)
    then obtain k where lead: "ac_lead a (co_term (ac_core a n)) = Some (n, k, co_log (ac_core a n))"
      using inv(1) leader_leads [of N a n] by blast
    let ?l = "co_log (ac_core a n) @ [LogEntry (co_term (ac_core a n)) v]"
    have "traced b ?l"
      using append extend_lead [OF lead, of v] old(1) by (intro traced_extend [where n = n and k = k]) simp_all
    with old show ?thesis unfolding append(1) log_inv_def by (auto simp: extend_lead [OF lead])
  qed (rule same; simp)+
qed

section \<open>Safety of the abstract cluster\<close>

text \<open>A successful response on the way was an acknowledgement.\<close>

definition reply_inv :: "'v acluster \<Rightarrow> bool" where
  "reply_inv a \<longleftrightarrow>
     (\<forall>m n t i ct ci. (m, n, AppendEntriesResponse t True (Some i) ct ci) \<in> ac_net a \<longrightarrow> i < ac_acked a m t)"

lemma acked_mono: "astep ordered N a b \<Longrightarrow> ac_acked a m t \<le> ac_acked b m t"
  by (induction rule: astep.induct) (auto simp: elect_def extend_def Let_def)

lemma reply_inv_step:
  assumes st: "astep ordered N a b" and inv: "reply_inv a"
  shows "reply_inv b"
  unfolding reply_inv_def
proof (intro allI impI)
  fix m n t i ct ci
  assume msg: "(m, n, AppendEntriesResponse t True (Some i) ct ci) \<in> ac_net b"
  show "i < ac_acked b m t"
  proof (cases "(m, n, AppendEntriesResponse t True (Some i) ct ci) \<in> ac_net a")
    case True
    with inv acked_mono [OF st, of m t] show ?thesis unfolding reply_inv_def by fastforce
  next
    case False
    with st msg show ?thesis by cases (auto dest!: verified_index_Some [OF sym])
  qed
qed

text \<open>A candidate asks for votes in its own name.\<close>

definition asker_inv :: "'v acluster \<Rightarrow> bool" where
  "asker_inv a \<longleftrightarrow> (\<forall>x y t c li lt. (x, y, RequestVote t c li lt) \<in> ac_net a \<longrightarrow> c = x)"

lemma asker_inv_step: "astep ordered N a b \<Longrightarrow> asker_inv a \<Longrightarrow> asker_inv b"
  by (induction rule: astep.induct) (simp add: asker_inv_def; blast)+

definition safe_inv :: "node_id set \<Rightarrow> 'v acluster \<Rightarrow> bool" where
  "safe_inv N a \<longleftrightarrow> net_inv N a \<and> vote_inv N a \<and> lead_inv N a \<and> ae_inv a \<and> log_inv a \<and> reply_inv a
     \<and> asker_inv a"

lemma areach_safe:
  assumes "areach ordered N a" and "finite N"
  shows "safe_inv N a"
  using assms
proof (induction rule: areach.induct)
  case init
  show ?case
    by (auto simp: safe_inv_def net_inv_def vote_inv_def lead_inv_def ae_inv_def log_inv_def traced_def
        reply_inv_def asker_inv_def acluster_init_def core_init_def)
next
  case (step a b)
  note st = step.hyps(2)
  from step.IH [OF step.prems] have inv: "net_inv N a" "vote_inv N a" "lead_inv N a" "ae_inv a" "log_inv a" "reply_inv a"
      "asker_inv a"
    by (simp_all add: safe_inv_def)
  show ?case
    unfolding safe_inv_def
    using net_inv_step [OF st inv(1)] vote_inv_step [OF st inv(2)]
      lead_inv_step [OF st step.prems inv(1,2,4,3)] ae_inv_step [OF st inv(3,4)]
      log_inv_step [OF st inv(3-5)] reply_inv_step [OF st inv(6)] asker_inv_step [OF st inv(7)] by blast
qed

text \<open>At most one leader per term.\<close>

lemma abstract_election_safety:
  assumes "safe_inv N a" and "co_role (ac_core a m) = Leader" and "co_role (ac_core a n) = Leader"
    and "co_term (ac_core a m) = co_term (ac_core a n)"
  shows "m = n"
proof -
  from assms have inv: "lead_inv N a" by (simp add: safe_inv_def)
  from leader_leads [OF inv assms(2)] leader_leads [OF inv assms(3)] assms(4) show ?thesis
    by (metis option.inject prod.inject)
qed

text \<open>Logs that agree on the term of an entry agree up to that entry.\<close>

lemma abstract_log_matching:
  assumes "safe_inv N a" and "i < length (co_log (ac_core a m))" and "i < length (co_log (ac_core a n))"
    and "e_term (co_log (ac_core a m) ! i) = e_term (co_log (ac_core a n) ! i)"
  shows "take (Suc i) (co_log (ac_core a m)) = take (Suc i) (co_log (ac_core a n))"
  using assms by (intro traced_agree [of a]) (auto simp: safe_inv_def log_inv_def)

end
