(* ===== verification/RaftSafety.thy ===== *)
theory RaftSafety
  imports RaftSpec
begin

text \<open>
  State machine safety of the abstract cluster: when the \<open>AppendEntries\<close> of one term reach a
  follower in the order of their length, a later leader has every entry that an earlier one
  committed, so that two nodes never decide different values for a slot.
\<close>

section \<open>Terms of log entries\<close>

definition agree :: "nat \<Rightarrow> 'v log_entry list \<Rightarrow> 'v log_entry list \<Rightarrow> bool" where
  "agree c x y \<longleftrightarrow> c < length x \<and> c < length y \<and> take (Suc c) x = take (Suc c) y"

lemma agree_append_left: "agree c x y \<Longrightarrow> agree c (x @ z) y"
  by (auto simp: agree_def)

lemma agree_append_right: "agree c x y \<Longrightarrow> agree c x (y @ z)"
  by (auto simp: agree_def)

lemma agree_sym: "agree c x y \<Longrightarrow> agree c y x"
  by (simp add: agree_def)

lemma agree_trans: "agree c x y \<Longrightarrow> agree c y z \<Longrightarrow> agree c x z"
  by (simp add: agree_def)

lemma agree_le: "agree c x y \<Longrightarrow> d \<le> c \<Longrightarrow> agree d x y"
  by (auto simp: agree_def intro: take_eq_mono)

lemma agree_nth: "agree c x y \<Longrightarrow> i \<le> c \<Longrightarrow> x ! i = y ! i"
  by (auto simp: agree_def intro: take_eq_nth)

lemma agree_take: "c < k \<Longrightarrow> agree c x y \<Longrightarrow> agree c (take k x) y"
  by (auto simp: agree_def min_def)

lemma agree_refl: "c < length x \<Longrightarrow> agree c x x"
  by (simp add: agree_def)

lemma agree_take_self: "c < k \<Longrightarrow> k \<le> length x \<Longrightarrow> agree c (take k x) x"
  by (auto simp: agree_def min_def)

definition lead_terms :: "u64 \<Rightarrow> nat \<Rightarrow> 'v log_entry list \<Rightarrow> bool" where
  "lead_terms t k l \<longleftrightarrow> sorted (map e_term l)
     \<and> (\<forall>i<length l. if i < k then e_term (l ! i) < t else e_term (l ! i) = t)"

definition core_terms :: "u64 \<Rightarrow> 'v log_entry list \<Rightarrow> bool" where
  "core_terms t l \<longleftrightarrow> sorted (map e_term l) \<and> (\<forall>en\<in>set l. e_term en \<le> t)"

definition term_inv :: "'v acluster \<Rightarrow> bool" where
  "term_inv a \<longleftrightarrow>
     (\<forall>t n k l. ac_lead a t = Some (n, k, l) \<longrightarrow> lead_terms t k l)
   \<and> (\<forall>n. core_terms (co_term (ac_core a n)) (co_log (ac_core a n)))"

lemma core_terms_mono: "core_terms t l \<Longrightarrow> t \<le> u \<Longrightarrow> core_terms u l"
  by (auto simp: core_terms_def)

lemma lead_terms_core: "lead_terms t k l \<Longrightarrow> core_terms t l"
  by (auto simp: core_terms_def lead_terms_def in_set_conv_nth split: if_splits)
     (metis less_or_eq_imp_le)

lemma core_terms_take: "core_terms t l \<Longrightarrow> core_terms t (take k l)"
  by (auto simp: core_terms_def sorted_wrt_take simp flip: take_map dest: in_set_takeD)

lemma lead_terms_append: "lead_terms t k l \<Longrightarrow> k \<le> length l \<Longrightarrow> lead_terms t k (l @ [LogEntry t v])"
  using lead_terms_core [of t k l]
  by (auto simp: lead_terms_def core_terms_def nth_append sorted_append)

text \<open>What accepting an \<open>AppendEntries\<close> does to the log, and where the message comes from.\<close>

lemma accept_leader:
  assumes inv: "safe_inv N a" and c: "c = ac_core a n"
    and "(l, n, AppendEntries (co_term c) l prev pt ens lc) \<in> ac_net a" and "prev_ok (co_log c) prev pt"
  shows "\<exists>k' l'. ac_lead a (co_term c) = Some (l, k', l') \<and> k' \<le> append_start prev + length ens
    \<and> append_start prev + length ens \<le> length l' \<and> l \<noteq> n
    \<and> accepted_log prev ens (co_log c) =
        (if prev = None \<and> ens = [] then co_log c else take (append_start prev + length ens) l')"
proof -
  from assms obtain k' l' where *: "ac_lead a (co_term c) = Some (l, k', l')" "ae_slice l' prev pt ens"
      "k' \<le> append_start prev + length ens" "l \<noteq> n"
    unfolding safe_inv_def ae_inv_def net_inv_def by blast
  have "traced a (co_log c)" "traced a l'" using inv * c by (auto simp: safe_inv_def log_inv_def)
  from accepted_log_leader [OF this *(2) assms(4)] *
  show ?thesis by (auto simp: ae_slice_def accepted_log_def)
qed

lemma elect_fresh:
  assumes "vote_inv N a" and "lead_inv N a" and "co_role (ac_core a n) = Candidate"
    and "majority N (voters N a (co_term (ac_core a n)) n)"
  shows "ac_lead a (co_term (ac_core a n)) = None"
proof (rule ccontr)
  assume "ac_lead a (co_term (ac_core a n)) \<noteq> None"
  then obtain m k l where l: "ac_lead a (co_term (ac_core a n)) = Some (m, k, l)" by auto
  have "m = n" using two_leaders_same [OF assms(1) lead_invD(2) [OF assms(2) l] assms(4)] .
  with lead_invD(5) [OF assms(2) l] assms(3) show False by simp
qed

lemma term_inv_elect:
  assumes inv: "term_inv a" "log_inv a"
  shows "term_inv (elect n a)"
proof (cases "ac_lead a (co_term (ac_core a n))")
  case None
  let ?l = "co_log (ac_core a n)" and ?t = "co_term (ac_core a n)"
  have core: "core_terms ?t ?l" using inv(1) by (simp add: term_inv_def)
  have "e_term (?l ! i) < ?t" if i: "i < length ?l" for i
  proof -
    have "e_term (?l ! i) \<le> ?t" using core i by (simp add: core_terms_def)
    moreover have "e_term (?l ! i) \<noteq> ?t"
      using inv(2) i None unfolding log_inv_def traced_def by (metis option.distinct(1))
    ultimately show ?thesis by simp
  qed
  with core have "lead_terms ?t (length ?l) ?l" by (simp add: lead_terms_def core_terms_def)
  with inv(1) show ?thesis unfolding term_inv_def elect_lead_new [OF None] by auto
next
  case (Some x)
  with inv(1) show ?thesis unfolding term_inv_def elect_lead_old [OF Some] by auto
qed

lemma term_inv_step:
  assumes st: "astep ordered N a b" and inv: "safe_inv N a" "term_inv a"
  shows "term_inv b"
proof -
  have same: "term_inv b" if "ac_lead b = ac_lead a" "\<And>n. co_log (ac_core b n) = co_log (ac_core a n)"
      "\<And>n. co_term (ac_core a n) \<le> co_term (ac_core b n)"
    using that inv(2) core_terms_mono unfolding term_inv_def by metis
  show ?thesis
    using st
  proof (cases rule: astep.cases)
    case (accept n c l prev pt ens lc k)
    with inv(1) obtain k' l' where *: "ac_lead a (co_term c) = Some (l, k', l')"
      "accepted_log prev ens (co_log c) = (if prev = None \<and> ens = [] then co_log c else take k l')"
      using accept_leader [OF inv(1) accept(3,4,6)] by auto
    have "core_terms (co_term c) (take k l')"
      using inv(2) * unfolding term_inv_def by (metis core_terms_take lead_terms_core)
    with inv(2) *(2) show ?thesis unfolding accept(1,3) term_inv_def by auto
  next
    case (win n c)
    with inv show ?thesis by (auto intro: term_inv_elect simp: safe_inv_def)
  next
    case (resume n c)
    with inv show ?thesis by (auto intro: term_inv_elect simp: safe_inv_def)
  next
    case (append n c v)
    with inv(1) obtain k where lead: "ac_lead a (co_term (ac_core a n)) = Some (n, k, co_log (ac_core a n))"
      using leader_leads [of N a n] by (auto simp: safe_inv_def)
    have k: "k \<le> length (co_log (ac_core a n))"
      using lead_invD(4) [OF _ lead] inv(1) by (auto simp: safe_inv_def)
    have "lead_terms (co_term (ac_core a n)) k (co_log (ac_core a n) @ [LogEntry (co_term (ac_core a n)) v])"
      using inv(2) lead k by (auto intro: lead_terms_append simp: term_inv_def)
    with inv(2) lead_terms_core [OF this] show ?thesis
      unfolding append(1) term_inv_def extend_lead [OF lead] by auto
  qed (rule same; simp)+
qed

section \<open>Acknowledgements\<close>

definition ack_inv :: "'v acluster \<Rightarrow> bool" where
  "ack_inv a \<longleftrightarrow>
     (\<forall>m t. 0 < ac_acked a m t \<longrightarrow> t \<le> co_term (ac_core a m)
        \<and> (\<exists>n k l. ac_lead a t = Some (n, k, l) \<and> ac_acked a m t \<le> length l))
   \<and> (\<forall>m n k l i. ac_lead a (co_term (ac_core a m)) = Some (n, k, l) \<longrightarrow>
        i < ac_acked a m (co_term (ac_core a m)) \<longrightarrow> agree i (co_log (ac_core a m)) l)
   \<and> (\<forall>m. co_role (ac_core a m) = Leader \<longrightarrow>
        ac_acked a m (co_term (ac_core a m)) = length (co_log (ac_core a m)))"

lemma ack_invD:
  assumes "ack_inv a"
  shows "0 < ac_acked a m t \<Longrightarrow> t \<le> co_term (ac_core a m)"
    and "ac_lead a t = Some (n, k, l) \<Longrightarrow> ac_acked a m t \<le> length l"
    and "ac_lead a t = None \<Longrightarrow> ac_acked a m t = 0"
    and "ac_lead a (co_term (ac_core a m)) = Some (n, k, l) \<Longrightarrow>
      i < ac_acked a m (co_term (ac_core a m)) \<Longrightarrow> agree i (co_log (ac_core a m)) l"
    and "co_role (ac_core a m) = Leader \<Longrightarrow> ac_acked a m (co_term (ac_core a m)) = length (co_log (ac_core a m))"
  using assms unfolding ack_inv_def by (metis le0 not_gr_zero option.inject prod.inject option.distinct(1))+

lemma elect_lead_cases:
  assumes "lead_inv N a" and "vote_inv N a" and "majority N (voters N a (co_term (ac_core a n)) n)"
  obtains k where "ac_lead (elect n a) = (ac_lead a)(co_term (ac_core a n) := Some (n, k, co_log (ac_core a n)))"
    and "ac_lead a (co_term (ac_core a n)) = None \<and> k = length (co_log (ac_core a n))
      \<or> ac_lead a (co_term (ac_core a n)) = Some (n, k, co_log (ac_core a n))"
proof (cases "ac_lead a (co_term (ac_core a n))")
  case None
  with that [of "length (co_log (ac_core a n))"] show thesis by (simp add: elect_lead_new)
next
  case (Some x)
  then obtain m k l where x: "ac_lead a (co_term (ac_core a n)) = Some (m, k, l)" by (cases x) auto
  have "m = n" using two_leaders_same [OF assms(2) lead_invD(2) [OF assms(1) x] assms(3)] .
  with x lead_invD(6) [OF assms(1) x] have "ac_lead a (co_term (ac_core a n)) = Some (n, k, co_log (ac_core a n))"
    by simp
  with that [of k] show thesis by (auto simp: elect_lead_old fun_upd_idem)
qed

lemma acked_le_log:
  assumes "ack_inv a" and "lead_inv N a" and "vote_inv N a"
    and "majority N (voters N a (co_term (ac_core a n)) n)"
  shows "ac_acked a m (co_term (ac_core a n)) \<le> length (co_log (ac_core a n))"
  using elect_lead_cases [OF assms(2-4)] ack_invD(2,3) [OF assms(1)] by (metis le0)

lemma elect_acked:
  assumes "ack_inv a" and "lead_inv N a" and "vote_inv N a"
    and "majority N (voters N a (co_term (ac_core a n)) n)"
  shows "ac_acked (elect n a) m t =
     (if m = n \<and> t = co_term (ac_core a n) then length (co_log (ac_core a n)) else ac_acked a m t)"
  using acked_le_log [OF assms, of n] by (auto simp: elect_def Let_def)

lemma extend_acked:
  assumes "ack_inv a" and "co_role (ac_core a n) = Leader"
  shows "ac_acked (extend n v a) m t =
     (if m = n \<and> t = co_term (ac_core a n) then Suc (length (co_log (ac_core a n))) else ac_acked a m t)"
  using ack_invD(5) [OF assms] by (simp add: extend_def Let_def)

text \<open>The steps by what they do to logs, leaders and acknowledgements.\<close>

definition quiet :: "'v acluster \<Rightarrow> 'v acluster \<Rightarrow> bool" where
  "quiet a b \<longleftrightarrow> ac_lead b = ac_lead a \<and> ac_acked b = ac_acked a
     \<and> (\<forall>m. co_log (ac_core b m) = co_log (ac_core a m) \<and> co_term (ac_core a m) \<le> co_term (ac_core b m)
          \<and> (co_role (ac_core b m) = Leader \<longrightarrow>
               co_role (ac_core a m) = Leader \<and> co_term (ac_core b m) = co_term (ac_core a m)))"

lemma quiet_same:
  "ac_lead b = ac_lead a \<Longrightarrow> ac_acked b = ac_acked a \<Longrightarrow> ac_core b = ac_core a \<Longrightarrow> quiet a b"
  by (simp add: quiet_def)

lemma quiet_core:
  assumes "ac_lead b = ac_lead a" and "ac_acked b = ac_acked a"
    and "(ac_core b)(n := ac_core a n) = ac_core a"
    and "co_log (ac_core b n) = co_log (ac_core a n)" and "co_term (ac_core a n) \<le> co_term (ac_core b n)"
    and "co_role (ac_core b n) = Leader \<longrightarrow>
      co_role (ac_core a n) = Leader \<and> co_term (ac_core b n) = co_term (ac_core a n)"
  shows "quiet a b"
proof -
  have "m = n \<or> ac_core b m = ac_core a m" for m using assms(3) by (metis fun_upd_other)
  with assms show ?thesis unfolding quiet_def by (metis order_refl)
qed

lemma verified_index_alt:
  "verified_index prev n = (if append_start prev + n = 0 then None else Some (append_start prev + n - 1))"
  by (cases "verified_index prev n") (auto dest: verified_index_Some simp: append_start_def)

lemma astep_kinds:
  assumes st: "astep ordered N a b" and inv: "safe_inv N a" and fin: "finite N"
  obtains (quiet) "quiet a b"
  | (accept) n u L k' l' k lg lc prev pt ens where
      "u = co_term (ac_core a n)" "ac_lead a u = Some (L, k', l')" "k' \<le> k" "k \<le> length l'"
      "lg = (if k = 0 then co_log (ac_core a n) else take k l')"
      "(L, n, AppendEntries u L prev pt ens lc) \<in> ac_net a" "ordered \<Longrightarrow> ac_acked a n u \<le> k"
      "ac_core b = (ac_core a)(n := (ac_core a n)\<lparr>co_role := Follower, co_log := lg,
          co_commit := learn_commit lc (if k = 0 then None else Some (k - 1)) (co_commit (ac_core a n))\<rparr>)"
      "ac_lead b = ac_lead a" "ac_acked b = (ac_acked a)(n := (ac_acked a n)(u := max k (ac_acked a n u)))"
  | (elect) n where "b = elect n a" "n \<in> N" "majority N (voters N a (co_term (ac_core a n)) n)"
      "co_role (ac_core a n) = Candidate \<or> N = {n}"
  | (extend) n v where "b = extend n v a" "n \<in> N" "co_role (ac_core a n) = Leader"
  using st
proof (cases rule: astep.cases)
  case (accept n c l prev pt ens lc k)
  note msg = accept_leader [OF inv accept(3,4,6)]
  have zero: "append_start prev + length ens = 0 \<longleftrightarrow> prev = None \<and> ens = []"
    by (auto simp: append_start_def split: option.splits)
  from msg obtain k' l' where *: "ac_lead a (co_term c) = Some (l, k', l')" "k' \<le> k" "k \<le> length l'"
    "accepted_log prev ens (co_log c) = (if k = 0 then co_log c else take k l')"
    unfolding accept(7) zero by blast
  show thesis
    by (rule that(2) [of "co_term c" n l k' l' k _ prev pt ens lc, OF _ *(1-3) refl])
       (use accept(4,8) * verified_index_alt [of prev "length ens"] in
         \<open>simp_all add: accept(1,3) flip: accept(7)\<close>)
next
  case (win n c)
  then show thesis using inv fin win_majority [of N a n] by (intro that(3) [of n]) (auto simp: safe_inv_def)
next
  case (resume n c)
  then show thesis using inv resume_majority [of N a n] by (intro that(3) [of n]) (auto simp: safe_inv_def)
next
  case (append n c v)
  then show thesis by (intro that(4) [of n v]) auto
next
  case (bump n c t)
  then have "quiet a b" by (intro quiet_core [of _ _ n]) simp_all
  then show thesis by (rule that(1))
next
  case (follow n c)
  then have "quiet a b" by (intro quiet_core [of _ _ n]) simp_all
  then show thesis by (rule that(1))
next
  case (grant n c cand li lt)
  then have "quiet a b" by (intro quiet_core [of _ _ n]) simp_all
  then show thesis by (rule that(1))
next
  case (campaign n c)
  then have "quiet a b" by (intro quiet_core [of _ _ n]) simp_all
  then show thesis by (rule that(1))
next
  case (tally n c m)
  then have "quiet a b" by (intro quiet_core [of _ _ n]) simp_all
  then show thesis by (rule that(1))
next
  case (send n c m k)
  then have "quiet a b" by (intro quiet_same) simp_all
  then show thesis by (rule that(1))
next
  case (commit n c i)
  then have "quiet a b" by (intro quiet_core [of _ _ n]) simp_all
  then show thesis by (rule that(1))
next
  case (decide n c d i)
  then have "quiet a b" by (intro quiet_same) simp_all
  then show thesis by (rule that(1))
next
  case (restart n c ci)
  then have "quiet a b" by (intro quiet_core [of _ _ n]) simp_all
  then show thesis by (rule that(1))
qed

lemma ack_invI:
  assumes "\<And>m t. 0 < ac_acked a m t \<Longrightarrow> t \<le> co_term (ac_core a m)
        \<and> (\<exists>n k l. ac_lead a t = Some (n, k, l) \<and> ac_acked a m t \<le> length l)"
    and "\<And>m n k l i. ac_lead a (co_term (ac_core a m)) = Some (n, k, l) \<Longrightarrow>
        i < ac_acked a m (co_term (ac_core a m)) \<Longrightarrow> agree i (co_log (ac_core a m)) l"
    and "\<And>m. co_role (ac_core a m) = Leader \<Longrightarrow>
        ac_acked a m (co_term (ac_core a m)) = length (co_log (ac_core a m))"
  shows "ack_inv a"
  using assms unfolding ack_inv_def by blast

lemma ack_inv1:
  "ack_inv a \<Longrightarrow> 0 < ac_acked a m t \<Longrightarrow> \<exists>n k l. ac_lead a t = Some (n, k, l) \<and> ac_acked a m t \<le> length l"
  unfolding ack_inv_def by blast

lemma ack_inv_quiet:
  assumes q: "quiet a b" and inv: "ack_inv a"
  shows "ack_inv b"
proof (rule ack_invI)
  fix m t assume "0 < ac_acked b m t"
  with q inv show "t \<le> co_term (ac_core b m)
      \<and> (\<exists>n k l. ac_lead b t = Some (n, k, l) \<and> ac_acked b m t \<le> length l)"
    unfolding quiet_def using ack_invD(1) [OF inv] ack_inv1 [OF inv] by (metis order_trans)
next
  fix m n k l i
  assume *: "ac_lead b (co_term (ac_core b m)) = Some (n, k, l)" "i < ac_acked b m (co_term (ac_core b m))"
  then have "0 < ac_acked a m (co_term (ac_core b m))" using q by (simp add: quiet_def)
  from ack_invD(1) [OF inv this] q have "co_term (ac_core b m) = co_term (ac_core a m)"
    unfolding quiet_def by (metis order_antisym)
  with * q ack_invD(4) [OF inv] show "agree i (co_log (ac_core b m)) l" by (simp add: quiet_def)
next
  fix m assume "co_role (ac_core b m) = Leader"
  with q ack_invD(5) [OF inv] show "ac_acked b m (co_term (ac_core b m)) = length (co_log (ac_core b m))"
    by (simp add: quiet_def)
qed

lemma ack_inv_elect:
  assumes inv: "ack_inv a" "lead_inv N a" "vote_inv N a"
    and maj: "majority N (voters N a (co_term (ac_core a n)) n)"
  shows "ack_inv (elect n a)"
proof -
  obtain k where k: "ac_lead (elect n a) = (ac_lead a)(co_term (ac_core a n) := Some (n, k, co_log (ac_core a n)))"
      "ac_lead a (co_term (ac_core a n)) = None \<and> k = length (co_log (ac_core a n))
        \<or> ac_lead a (co_term (ac_core a n)) = Some (n, k, co_log (ac_core a n))"
    by (rule elect_lead_cases [OF inv(2,3) maj])
  note len = acked_le_log [OF inv maj] and elect_acked = elect_acked [OF inv maj]
  show ?thesis
  proof (rule ack_invI)
    fix m t assume "0 < ac_acked (elect n a) m t"
    then show "t \<le> co_term (ac_core (elect n a) m)
        \<and> (\<exists>n' k l. ac_lead (elect n a) t = Some (n', k, l) \<and> ac_acked (elect n a) m t \<le> length l)"
      using ack_invD(1) [OF inv(1)] ack_inv1 [OF inv(1)] len by (auto simp: k(1) elect_acked)
  next
    fix m n' k' l i
    assume *: "ac_lead (elect n a) (co_term (ac_core (elect n a) m)) = Some (n', k', l)"
      "i < ac_acked (elect n a) m (co_term (ac_core (elect n a) m))"
    show "agree i (co_log (ac_core (elect n a) m)) l"
    proof (cases "m = n")
      case True
      from *(1) True have "l = co_log (ac_core a n)" by (auto simp: k(1))
      moreover from *(2) True have "i < length (co_log (ac_core a n))" by (simp add: elect_acked)
      ultimately have "l = co_log (ac_core a n)" "i < length (co_log (ac_core a n))" by auto
      with True show ?thesis by (simp add: agree_refl)
    next
      case False
      from *(2) False have i: "i < ac_acked a m (co_term (ac_core a m))" by (simp add: elect_acked)
      then have "ac_lead a (co_term (ac_core a m)) \<noteq> None" using ack_invD(3) [OF inv(1)] by fastforce
      with *(1) False k(2) have "ac_lead a (co_term (ac_core a m)) = Some (n', k', l)"
        by (auto simp: k(1) split: if_splits)
      from ack_invD(4) [OF inv(1) this i] False show ?thesis by simp
    qed
  next
    fix m assume "co_role (ac_core (elect n a) m) = Leader"
    with ack_invD(5) [OF inv(1)]
    show "ac_acked (elect n a) m (co_term (ac_core (elect n a) m)) = length (co_log (ac_core (elect n a) m))"
      by (auto simp: elect_acked)
  qed
qed

lemma ack_inv_extend:
  assumes inv: "ack_inv a" "lead_inv N a" and role: "co_role (ac_core a n) = Leader"
  shows "ack_inv (extend n v a)"
proof -
  obtain k where lead: "ac_lead a (co_term (ac_core a n)) = Some (n, k, co_log (ac_core a n))"
    using leader_leads [OF inv(2) role] by blast
  have len: "ac_acked a m (co_term (ac_core a n)) \<le> length (co_log (ac_core a n))" for m
    using ack_invD(2) [OF inv(1) lead] .
  note extend_acked = extend_acked [OF inv(1) role]
  show ?thesis
  proof (rule ack_invI)
    fix m t assume "0 < ac_acked (extend n v a) m t"
    then show "t \<le> co_term (ac_core (extend n v a) m)
        \<and> (\<exists>n' k l. ac_lead (extend n v a) t = Some (n', k, l) \<and> ac_acked (extend n v a) m t \<le> length l)"
      using ack_invD(1) [OF inv(1)] ack_inv1 [OF inv(1)] len
      by (auto simp: extend_lead [OF lead] extend_acked le_SucI)
  next
    fix m n' k' l i
    assume *: "ac_lead (extend n v a) (co_term (ac_core (extend n v a) m)) = Some (n', k', l)"
      "i < ac_acked (extend n v a) m (co_term (ac_core (extend n v a) m))"
    show "agree i (co_log (ac_core (extend n v a) m)) l"
    proof (cases "m = n")
      case True
      from *(1) True have "l = co_log (ac_core (extend n v a) n)" by (auto simp: extend_lead [OF lead])
      moreover from *(2) True have "i < length (co_log (ac_core (extend n v a) n))" by (simp add: extend_acked)
      ultimately have "l = co_log (ac_core (extend n v a) n)" "i < length (co_log (ac_core (extend n v a) n))"
        by auto
      with True show ?thesis by (simp add: agree_refl)
    next
      case False
      from *(2) False have i: "i < ac_acked a m (co_term (ac_core a m))" by (simp add: extend_acked)
      from *(1) False lead obtain l' l'' where l': "ac_lead a (co_term (ac_core a m)) = Some (n', k', l')" "l = l' @ l''"
        by (auto simp: extend_lead [OF lead] split: if_splits)
      from ack_invD(4) [OF inv(1) l'(1) i] l'(2) False show ?thesis by (simp add: agree_append_right)
    qed
  next
    fix m assume "co_role (ac_core (extend n v a) m) = Leader"
    with ack_invD(5) [OF inv(1), of m]
    show "ac_acked (extend n v a) m (co_term (ac_core (extend n v a) m)) = length (co_log (ac_core (extend n v a) m))"
      by (auto simp: extend_acked)
  qed
qed

lemma ack_inv_step:
  assumes st: "astep True N a b" and inv: "safe_inv N a" "ack_inv a" and fin: "finite N"
  shows "ack_inv b"
  using st inv(1) fin
proof (cases rule: astep_kinds)
  case quiet
  then show ?thesis using inv(2) by (rule ack_inv_quiet)
next
  case (accept n u L k' l' k lg lc prev pt ens)
  have le: "ac_acked a n u \<le> k" using accept(7) by simp
  then have upd: "ac_acked b = (ac_acked a)(n := (ac_acked a n)(u := k))" using accept(10) by simp
  note [simp] = accept(8,9) upd
  show ?thesis
  proof (rule ack_invI)
    fix m t assume "0 < ac_acked b m t"
    then show "t \<le> co_term (ac_core b m)
        \<and> (\<exists>n k l. ac_lead b t = Some (n, k, l) \<and> ac_acked b m t \<le> length l)"
      using ack_invD(1) [OF inv(2)] ack_inv1 [OF inv(2)] ack_invD(2) [OF inv(2) accept(2)] accept(1,2,4)
      by (auto split: if_splits)
  next
    fix m n' j l i
    assume *: "ac_lead b (co_term (ac_core b m)) = Some (n', j, l)"
      "i < ac_acked b m (co_term (ac_core b m))"
    show "agree i (co_log (ac_core b m)) l"
    proof (cases "m = n")
      case True
      with * accept(1,2,4,5) show ?thesis by (auto intro: agree_take_self)
    next
      case False
      with * ack_invD(4) [OF inv(2), of m] show ?thesis by simp
    qed
  next
    fix m assume "co_role (ac_core b m) = Leader"
    with ack_invD(5) [OF inv(2), of m]
    show "ac_acked b m (co_term (ac_core b m)) = length (co_log (ac_core b m))"
      by (cases "m = n") auto
  qed
next
  case (elect n)
  with inv ack_inv_elect [of a N n] show ?thesis by (simp add: safe_inv_def)
next
  case (extend n v)
  with inv ack_inv_extend [of a N n v] show ?thesis by (simp add: safe_inv_def)
qed

text \<open>Terms, logs of leaders and acknowledgements only grow, and a node acknowledges only in its term.\<close>

definition grows :: "'v acluster \<Rightarrow> 'v acluster \<Rightarrow> bool" where
  "grows a b \<longleftrightarrow> lead_le a b
     \<and> (\<forall>m. co_term (ac_core a m) \<le> co_term (ac_core b m))
     \<and> (\<forall>m t. ac_acked a m t \<le> ac_acked b m t)
     \<and> (\<forall>m t. t < co_term (ac_core a m) \<longrightarrow> ac_acked b m t = ac_acked a m t)"

lemma growsD:
  assumes "grows a b"
  shows "ac_lead a t = Some (n, k, l) \<Longrightarrow> \<exists>l'. ac_lead b t = Some (n, k, l @ l')"
    and "co_term (ac_core a m) \<le> co_term (ac_core b m)"
    and "ac_acked a m t \<le> ac_acked b m t"
    and "t < co_term (ac_core a m) \<Longrightarrow> ac_acked b m t = ac_acked a m t"
  using assms unfolding grows_def lead_le_def by blast+

lemma grows_step:
  assumes st: "astep ordered N a b" and inv: "safe_inv N a" "ack_inv a" and fin: "finite N"
  shows "grows a b"
proof -
  have le: "lead_le a b" using lead_le_step [OF st] inv(1) by (simp add: safe_inv_def)
  show ?thesis
    using st inv(1) fin
  proof (cases rule: astep_kinds)
    case quiet
    with le show ?thesis by (auto simp: grows_def quiet_def)
  next
    case (accept n u L k' l' k lg lc prev pt ens)
    with le show ?thesis by (auto simp: grows_def)
  next
    case (elect n)
    have *: "lead_inv N a" "vote_inv N a" using inv(1) by (simp_all add: safe_inv_def)
    note acked_le_log [OF inv(2) * elect(3), of n]
    with le elect(1) show ?thesis by (auto simp: grows_def elect_acked [OF inv(2) * elect(3)])
  next
    case (extend n v)
    from ack_invD(5) [OF inv(2) extend(3)] le extend(1) show ?thesis
      by (auto simp: grows_def extend_acked [OF inv(2) extend(3)])
  qed
qed

section \<open>Entries that can no longer be committed\<close>

text \<open>
  Entry \<open>c\<close> of the leader of term \<open>t\<close> can never be committed in that term: a majority has left
  the term without acknowledging it.
\<close>

definition dead :: "node_id set \<Rightarrow> 'v acluster \<Rightarrow> u64 \<Rightarrow> nat \<Rightarrow> bool" where
  "dead N a t c \<longleftrightarrow>
     (\<exists>R. majority N R \<and> (\<forall>m\<in>R. t < co_term (ac_core a m) \<and> ac_acked a m t \<le> c))"

lemma dead_mono:
  assumes g: "grows a b" and "dead N a t c"
  shows "dead N b t c"
proof -
  from assms(2) obtain R where R: "majority N R" "\<And>m. m \<in> R \<Longrightarrow> t < co_term (ac_core a m) \<and> ac_acked a m t \<le> c"
    by (auto simp: dead_def)
  have "t < co_term (ac_core b m) \<and> ac_acked b m t \<le> c" if "m \<in> R" for m
    using R(2) [OF that] growsD(2) [OF g, of m] growsD(4) [OF g, of t m] by simp
  with R(1) show ?thesis by (auto simp: dead_def)
qed

text \<open>Every node keeps what it has acknowledged, unless it can no longer be committed.\<close>

definition retain_inv :: "node_id set \<Rightarrow> 'v acluster \<Rightarrow> bool" where
  "retain_inv N a \<longleftrightarrow>
     (\<forall>m t n k l c. ac_lead a t = Some (n, k, l) \<longrightarrow> k \<le> c \<longrightarrow> c < ac_acked a m t \<longrightarrow>
        agree c (co_log (ac_core a m)) l \<or> dead N a t c)"

text \<open>A candidate has what those who voted for it have acknowledged.\<close>

definition cand_inv :: "node_id set \<Rightarrow> 'v acluster \<Rightarrow> bool" where
  "cand_inv N a \<longleftrightarrow>
     (\<forall>m x t n k l c. (m, co_term (ac_core a x), x) \<in> ac_voted a \<longrightarrow> co_role (ac_core a x) = Candidate \<longrightarrow>
        t < co_term (ac_core a x) \<longrightarrow> ac_lead a t = Some (n, k, l) \<longrightarrow> k \<le> c \<longrightarrow> c < ac_acked a m t \<longrightarrow>
        agree c (co_log (ac_core a x)) l \<or> dead N a t c)"

text \<open>The log a leader starts with has every entry an earlier leader may still commit.\<close>

definition jump_inv :: "node_id set \<Rightarrow> 'v acluster \<Rightarrow> bool" where
  "jump_inv N a \<longleftrightarrow>
     (\<forall>t t' n n' k k' l l' c. ac_lead a t = Some (n, k, l) \<longrightarrow> ac_lead a t' = Some (n', k', l') \<longrightarrow>
        t < t' \<longrightarrow> k \<le> c \<longrightarrow> c < length l \<longrightarrow> c < k' \<and> agree c l' l \<or> dead N a t c)"

text \<open>A vote is for a candidate that asked for it, with the log it still has.\<close>

definition req_inv :: "'v acluster \<Rightarrow> bool" where
  "req_inv a \<longleftrightarrow>
     (\<forall>m t x. (m, t, x) \<in> ac_voted a \<longrightarrow> t \<le> co_term (ac_core a x))
   \<and> (\<forall>x y t x' li lt. (x, y, RequestVote t x' li lt) \<in> ac_net a \<longrightarrow> x' = x \<and> t \<le> co_term (ac_core a x)
        \<and> (co_term (ac_core a x) = t \<longrightarrow> co_role (ac_core a x) = Candidate \<longrightarrow>
             li = log_last_index (co_log (ac_core a x)) \<and> lt = log_last_term (co_log (ac_core a x))))"

lemma req_inv_step: "astep ordered N a b \<Longrightarrow> req_inv a \<Longrightarrow> req_inv b"
  apply (induction rule: astep.induct)
  subgoal by (fastforce simp: req_inv_def)
  subgoal by (auto simp: req_inv_def)
  subgoal by (fastforce simp: req_inv_def)
  subgoal by (auto simp: req_inv_def)
  subgoal by (fastforce simp: req_inv_def)
  subgoal by (auto simp: req_inv_def)
  subgoal by (auto simp: req_inv_def)
  subgoal by (auto simp: req_inv_def)
  subgoal by (auto simp: req_inv_def)
  subgoal by (auto simp: req_inv_def)
  subgoal by (auto simp: req_inv_def)
  subgoal by (auto simp: req_inv_def)
  subgoal by (auto simp: req_inv_def)
  done

text \<open>The election restriction: a candidate at least as up to date as a voter has what the voter has.\<close>

lemma up_to_date_has:
  assumes safe: "safe_inv N a" and terms: "term_inv a" and jump: "jump_inv N a"
    and lead: "ac_lead a t = Some (n, k, l)" and c: "k \<le> c" and ag: "agree c (co_log (ac_core a m)) l"
    and up: "up_to_date (co_log (ac_core a m)) (log_last_term (co_log (ac_core a x)))
        (log_last_index (co_log (ac_core a x)))"
  shows "agree c (co_log (ac_core a x)) l \<or> dead N a t c"
proof -
  let ?lm = "co_log (ac_core a m)" and ?lx = "co_log (ac_core a x)"
  have tr: "traced a ?lm" "traced a ?lx" using safe by (auto simp: safe_inv_def log_inv_def)
  have cm: "c < length ?lm" "c < length l" using ag by (auto simp: agree_def)
  have "e_term (l ! c) = t" using terms lead c cm unfolding term_inv_def lead_terms_def by (metis not_le)
  with agree_nth [OF ag] have "e_term (?lm ! c) = t" by simp
  moreover have "e_term (?lm ! c) \<le> e_term (last ?lm)"
  proof -
    have "sorted (map e_term ?lm)" using terms by (simp add: term_inv_def core_terms_def)
    from sorted_nth_mono [OF this, of c "length ?lm - 1"] cm show ?thesis
      by (cases "?lm = []") (auto simp: last_conv_nth)
  qed
  ultimately have u: "t \<le> log_last_term ?lm" using cm by (auto simp: log_last_term_def)
  have ne: "?lx \<noteq> []"
    using up u cm
    by (auto simp: up_to_date_def log_last_index_def log_last_term_def opt_key_def split: if_splits)
  let ?j = "length ?lx - 1"
  have lastx: "log_last_term ?lx = e_term (?lx ! ?j)" using ne by (simp add: log_last_term_def last_conv_nth)
  have j: "?j < length ?lx" using ne by simp
  show ?thesis
  proof (cases "log_last_term ?lx = log_last_term ?lm")
    case True
    let ?i = "length ?lm - 1"
    have "?i \<le> ?j" using up True ne cm
      by (auto simp: up_to_date_def log_last_index_def opt_key_def split: if_splits)
    have i: "?i < length ?lm" "log_last_term ?lm = e_term (?lm ! ?i)"
      using cm by (auto simp: log_last_term_def last_conv_nth)
    obtain n' k' l' where "ac_lead a (e_term (?lm ! ?i)) = Some (n', k', l')" "take (Suc ?i) ?lm = take (Suc ?i) l'"
      using tr(1) i(1) unfolding traced_def by metis
    moreover obtain n'' k'' l'' where "ac_lead a (e_term (?lx ! ?j)) = Some (n'', k'', l'')"
        "take (Suc ?j) ?lx = take (Suc ?j) l''"
      using tr(2) j unfolding traced_def by metis
    ultimately have "take (Suc ?i) ?lm = take (Suc ?i) l''" "take (Suc ?j) ?lx = take (Suc ?j) l''"
      using True lastx i(2) by simp_all
    then have "take (Suc ?i) ?lx = take (Suc ?i) ?lm"
      using take_eq_mono [of "Suc ?j" ?lx l'' "Suc ?i"] \<open>?i \<le> ?j\<close> by simp
    then have "agree ?i ?lx ?lm" using i(1) j \<open>?i \<le> ?j\<close> by (simp add: agree_def)
    then have "agree c ?lx ?lm" by (rule agree_le) (use cm in simp)
    with ag show ?thesis by (blast intro: agree_trans)
  next
    case False
    let ?w = "log_last_term ?lx"
    have w: "t < ?w" using up u False by (auto simp: up_to_date_def)
    obtain n' k' l' where l': "ac_lead a ?w = Some (n', k', l')" "?j < length l'"
        "take (Suc ?j) ?lx = take (Suc ?j) l'"
      using tr(2) j unfolding traced_def lastx by metis
    have "l' ! ?j = ?lx ! ?j" using take_eq_nth [OF l'(3), of ?j] by simp
    then have "e_term (l' ! ?j) = ?w" using lastx by simp
    with terms l' have "k' \<le> ?j" unfolding term_inv_def lead_terms_def by (metis less_irrefl not_le)
    moreover have "c < k' \<and> agree c l' l \<or> dead N a t c"
      using jump lead l'(1) w c cm unfolding jump_inv_def by blast
    moreover have "agree ?j ?lx l'" using l' j by (simp add: agree_def)
    ultimately show ?thesis by (meson agree_le agree_trans less_imp_le_nat order_trans)
  qed
qed

lemma retain_invD:
  "retain_inv N a \<Longrightarrow> ac_lead a t = Some (n, k, l) \<Longrightarrow> k \<le> c \<Longrightarrow> c < ac_acked a m t \<Longrightarrow>
   agree c (co_log (ac_core a m)) l \<or> dead N a t c"
  unfolding retain_inv_def by blast

lemma jump_invD:
  "jump_inv N a \<Longrightarrow> ac_lead a t = Some (n, k, l) \<Longrightarrow> ac_lead a t' = Some (n', k', l') \<Longrightarrow> t < t' \<Longrightarrow> k \<le> c \<Longrightarrow>
   c < length l \<Longrightarrow> c < k' \<and> agree c l' l \<or> dead N a t c"
  unfolding jump_inv_def by blast

text \<open>An entry that was acknowledged before a step was in the log of the leader then.\<close>

lemma acked_before:
  assumes g: "grows a b" and ack: "ack_inv a" and lead: "ac_lead b t = Some (n, k, l)" and c: "c < ac_acked a m t"
  obtains l' l'' where "ac_lead a t = Some (n, k, l')" and "l = l' @ l''" and "c < length l'"
proof -
  from ack_inv1 [OF ack, of m t] c obtain n' k' l' where *: "ac_lead a t = Some (n', k', l')" "c < length l'" by auto
  from growsD(1) [OF g *(1)] lead that * show thesis by auto
qed

lemma retain_inv_step:
  assumes st: "astep True N a b" and fin: "finite N"
    and inv: "safe_inv N a" "ack_inv a" "retain_inv N a" "jump_inv N a"
  shows "retain_inv N b"
  unfolding retain_inv_def
proof (intro allI impI)
  fix m t n k l c
  assume lead: "ac_lead b t = Some (n, k, l)" and kc: "k \<le> c" and c: "c < ac_acked b m t"
  have g: "grows a b" by (rule grows_step [OF st inv(1,2) fin])
  have old: "agree c (co_log (ac_core a m)) l \<or> dead N b t c" if *: "c < ac_acked a m t"
  proof -
    obtain l' l'' where "ac_lead a t = Some (n, k, l')" "l = l' @ l''"
      using acked_before [OF g inv(2) lead *] by metis
    with retain_invD [OF inv(3) _ kc *] dead_mono [OF g] show ?thesis by (auto intro: agree_append_right)
  qed
  show "agree c (co_log (ac_core b m)) l \<or> dead N b t c"
    using st inv(1) fin
  proof (cases rule: astep_kinds)
    case quiet
    with old c show ?thesis by (simp add: quiet_def)
  next
    case (accept n' u L k' l' K lg lc prev pt ens)
    show ?thesis
    proof (cases "m = n'")
      case True
      have t: "t \<le> u" using ack_invD(1) [OF inv(2), of n' t] c accept(1,10) True by (auto split: if_splits)
      show ?thesis
      proof (cases "K = 0")
        case True
        then show ?thesis using old c \<open>m = n'\<close> accept(5,8,10) by (auto split: if_splits)
      next
        case False
        then have log: "co_log (ac_core b m) = take K l'" using accept(5,8) \<open>m = n'\<close> by simp
        show ?thesis
        proof (cases "t = u")
          case True
          then have "c < K" "l = l'" using c accept(2,7,9,10) lead \<open>m = n'\<close> by auto
          with accept(4) show ?thesis unfolding log by (simp add: agree_take_self)
        next
          case False
          with t have "t < u" by simp
          have "ac_lead a t = Some (n, k, l)" using lead accept(9) by simp
          moreover have "c < length l"
            using ack_invD(2) [OF inv(2) calculation, of m] c False accept(10) by (auto split: if_splits)
          ultimately have "c < k' \<and> agree c l' l \<or> dead N a t c"
            using jump_invD [OF inv(4) _ accept(2) \<open>t < u\<close> kc] by simp
          with accept(3) dead_mono [OF g] show ?thesis unfolding log by (auto intro: agree_take)
        qed
      qed
    next
      case False
      with old c accept(8,10) show ?thesis by simp
    qed
  next
    case (elect n')
    have li: "lead_inv N a" "vote_inv N a" using inv(1) by (simp_all add: safe_inv_def)
    note acked = elect_acked [OF inv(2) li elect(3)]
    from elect_lead_cases [OF li elect(3)] obtain k' where
      k': "ac_lead b = (ac_lead a)(co_term (ac_core a n') := Some (n', k', co_log (ac_core a n')))"
      unfolding elect(1) by metis
    show ?thesis
    proof (cases "m = n' \<and> t = co_term (ac_core a n')")
      case True
      with c lead k' show ?thesis unfolding elect(1) by (auto simp: acked intro: agree_refl)
    next
      case False
      then show ?thesis using old c unfolding elect(1) by (auto simp: acked split: if_splits)
    qed
  next
    case (extend n' v)
    obtain k' where k': "ac_lead a (co_term (ac_core a n')) = Some (n', k', co_log (ac_core a n'))"
      using leader_leads [of N a n'] extend(3) inv(1) by (auto simp: safe_inv_def)
    note acked = extend_acked [OF inv(2) extend(3), of v]
    show ?thesis
    proof (cases "m = n' \<and> t = co_term (ac_core a n')")
      case True
      with c lead show ?thesis
        unfolding extend(1) by (auto simp: acked extend_lead [OF k'] intro: agree_refl)
    next
      case False
      then show ?thesis using old c unfolding extend(1)
        by (auto simp: acked intro: agree_append_left split: if_splits)
    qed
  qed
qed

text \<open>Votes for a term come from nodes that have reached it.\<close>

lemma voter_term: "vote_inv N a \<Longrightarrow> (m, t, x) \<in> ac_voted a \<Longrightarrow> t \<le> co_term (ac_core a m)"
  unfolding vote_inv_def by blast

lemma cand_inv_step:
  assumes st: "astep True N a b" and fin: "finite N"
    and inv: "safe_inv N a" "ack_inv a" "retain_inv N a" "jump_inv N a" "term_inv a" "req_inv a" "cand_inv N a"
  shows "cand_inv N b"
  unfolding cand_inv_def
proof (intro allI impI)
  fix m x t n k l c
  assume v: "(m, co_term (ac_core b x), x) \<in> ac_voted b" and role: "co_role (ac_core b x) = Candidate"
    and t: "t < co_term (ac_core b x)" and lead: "ac_lead b t = Some (n, k, l)" and kc: "k \<le> c"
    and c: "c < ac_acked b m t"
  have g: "grows a b" by (rule grows_step [OF st inv(1,2) fin])
  have vi: "vote_inv N a" "net_inv N a" using inv(1) by (simp_all add: safe_inv_def)
  let ?goal = "agree c (co_log (ac_core b x)) l \<or> dead N b t c"
  have old: ?goal if "(m, co_term (ac_core b x), x) \<in> ac_voted a" "co_role (ac_core a x) = Candidate"
    "co_term (ac_core a x) = co_term (ac_core b x)" "co_log (ac_core a x) = co_log (ac_core b x)"
  proof -
    have c': "c < ac_acked a m t" using growsD(4) [OF g, of t m] voter_term [OF vi(1) that(1)] t c by simp
    obtain l' l'' where l': "ac_lead a t = Some (n, k, l')" "l = l' @ l''"
      using acked_before [OF g inv(2) lead c'] by metis
    have "agree c (co_log (ac_core a x)) l' \<or> dead N a t c"
      using inv(7) that t l' kc c' unfolding cand_inv_def by metis
    with dead_mono [OF g] l'(2) that(4) show ?thesis by (auto intro: agree_append_right)
  qed
  show ?goal
    using st
  proof (cases rule: astep.cases)
    case (grant n' c' cand li lt)
    show ?thesis
    proof (cases "m = n' \<and> x = cand")
      case True
      have ne: "cand \<noteq> n'" using grant vi(2) unfolding net_inv_def by blast
      have b: "ac_core b x = ac_core a x" "ac_lead b = ac_lead a" "ac_acked b = ac_acked a"
        using grant True ne by simp_all
      have "(n', co_term (ac_core a x), cand) \<in> ac_voted b" using v True b by simp
      then have "co_term (ac_core a x) \<le> co_term (ac_core a n')"
        using grant(1,3) voter_term [OF vi(1)] by auto
      moreover have "co_term (ac_core a n') \<le> co_term (ac_core a x)"
        using grant(3,4) inv(6) True unfolding req_inv_def by blast
      ultimately have tx: "co_term (ac_core a x) = co_term (ac_core a n')" by simp
      have "up_to_date (co_log (ac_core a n')) (log_last_term (co_log (ac_core a x)))
          (log_last_index (co_log (ac_core a x)))"
        using grant inv(6) role True b tx unfolding req_inv_def by metis
      moreover have "agree c (co_log (ac_core a n')) l \<or> dead N a t c"
        using retain_invD [OF inv(3) _ kc] lead c b True by simp
      ultimately show ?thesis
        using up_to_date_has [OF inv(1,5,4) _ kc, of t n l n' x] lead b dead_mono [OF g] by auto
    next
      case False
      then have "(m, co_term (ac_core b x), x) \<in> ac_voted a" using v grant by auto
      with old role grant show ?thesis by (auto split: if_splits)
    qed
  next
    case (campaign n' c')
    show ?thesis
    proof (cases "x = n'")
      case True
      have "m = n'" using v campaign True inv(6) unfolding req_inv_def by fastforce
      then show ?thesis
        using retain_invD [OF inv(3) _ kc, of t n l n'] lead c campaign True dead_mono [OF g] by auto
    next
      case False
      with v role campaign show ?thesis by (intro old) auto
    qed
  qed (use v role in \<open>intro old; auto split: if_splits\<close>)+
qed

lemma jump_inv_step:
  assumes st: "astep True N a b" and fin: "finite N"
    and inv: "safe_inv N a" "ack_inv a" "retain_inv N a" "jump_inv N a" "cand_inv N a"
  shows "jump_inv N b"
  unfolding jump_inv_def
proof (intro allI impI)
  fix t t' n n' k k' l l' c
  assume l: "ac_lead b t = Some (n, k, l)" and l': "ac_lead b t' = Some (n', k', l')" and tt: "t < t'"
    and kc: "k \<le> c" and c: "c < length l"
  have g: "grows a b" by (rule grows_step [OF st inv(1,2) fin])
  have vi: "vote_inv N a" "lead_inv N a" using inv(1) by (simp_all add: safe_inv_def)
  let ?goal = "c < k' \<and> agree c l' l \<or> dead N b t c"
  have old: ?goal if "ac_lead a t = Some (n, k, x)" "ac_lead a t' = Some (n', k', y)" "c < length x" for x y
  proof -
    from growsD(1) [OF g that(1)] growsD(1) [OF g that(2)] l l' obtain x' y' where "l = x @ x'" "l' = y @ y'" by auto
    with jump_invD [OF inv(4) that(1,2) tt kc that(3)] dead_mono [OF g] show ?thesis
      by (auto intro: agree_append_left agree_append_right)
  qed
  show ?goal
    using st inv(1) fin
  proof (cases rule: astep_kinds)
    case quiet
    with old l l' c show ?thesis by (simp add: quiet_def)
  next
    case (accept n u L k' l' K lg lc prev pt ens)
    with old l l' c show ?thesis by simp
  next
    case (elect x)
    let ?T = "co_term (ac_core a x)" and ?lx = "co_log (ac_core a x)"
    obtain j where j: "ac_lead b = (ac_lead a)(?T := Some (x, j, ?lx))"
      "ac_lead a ?T = None \<and> j = length ?lx \<or> ac_lead a ?T = Some (x, j, ?lx)"
      using elect_lead_cases [OF vi(2,1) elect(3)] unfolding elect(1) by metis
    show ?thesis
    proof (cases "ac_lead a ?T = None \<and> t' = ?T")
      case False
      with j l l' c kc show ?thesis by (intro old) (auto split: if_splits)
    next
      case True
      then have T: "t' = ?T" "k' = length ?lx" "l' = ?lx" "ac_lead a t = Some (n, k, l)"
        using j l l' tt by auto
      have vot: "agree c ?lx l \<or> dead N a t c" if "m \<in> voters N a ?T x" "c < ac_acked a m t" for m
        using that elect(4)
      proof (elim disjE)
        assume "co_role (ac_core a x) = Candidate"
        with inv(5) that T(4) kc tt T(1) show ?thesis unfolding cand_inv_def by blast
      next
        assume "N = {x}"
        with retain_invD [OF inv(3) T(4) kc that(2)] that show ?thesis by simp
      qed
      show ?thesis
      proof (cases "\<exists>m \<in> voters N a ?T x. c < ac_acked a m t")
        case True
        with vot T dead_mono [OF g] show ?thesis by (auto simp: agree_def)
      next
        case False
        then have "dead N a t c"
          using elect(3) tt T(1) voter_term [OF vi(1)] unfolding dead_def
          by (intro exI [of _ "voters N a ?T x"]) (force simp: not_less)
        with dead_mono [OF g] show ?thesis by simp
      qed
    qed
  next
    case (extend x v)
    let ?T = "co_term (ac_core a x)" and ?lx = "co_log (ac_core a x)"
    obtain j where j: "ac_lead a ?T = Some (x, j, ?lx)" using leader_leads [OF vi(2) extend(3)] by blast
    note lb = extend_lead [OF j, of v, folded extend(1)]
    obtain y where y: "ac_lead a t' = Some (n', k', y)" using l' lb j by (auto split: if_splits)
    show ?thesis
    proof (cases "t = ?T \<and> c = length ?lx")
      case False
      with l lb j c obtain z where "ac_lead a t = Some (n, k, z)" "c < length z"
        by (cases "t = ?T") (auto simp: less_Suc_eq)
      with y show ?thesis by (intro old)
    next
      case True
      have "t < co_term (ac_core b m) \<and> ac_acked b m t \<le> c" if "m \<in> voters N a t' n'" for m
      proof -
        have "t < co_term (ac_core a m)" using voter_term [OF vi(1)] that tt by fastforce
        moreover have "ac_acked a m t \<le> c" using ack_invD(2) [OF inv(2) j] True by simp
        ultimately show ?thesis using growsD(2) [OF g, of m] growsD(4) [OF g, of t m] by simp
      qed
      with lead_invD(2) [OF vi(2) y] show ?thesis unfolding dead_def by blast
    qed
  qed
qed

section \<open>Committed entries\<close>

text \<open>Entry \<open>c\<close> of the leader of term \<open>t\<close> is committed: of its own term, and acknowledged by a majority.\<close>

definition committed :: "node_id set \<Rightarrow> 'v acluster \<Rightarrow> u64 \<Rightarrow> nat \<Rightarrow> 'v log_entry list \<Rightarrow> bool" where
  "committed N a t c l \<longleftrightarrow>
     (\<exists>n k. ac_lead a t = Some (n, k, l) \<and> k \<le> c \<and> c < length l \<and> majority N {m \<in> N. c < ac_acked a m t})"

lemma committed_mono:
  assumes g: "grows a b" and "committed N a t c l"
  obtains l' where "committed N b t c (l @ l')"
proof -
  from assms(2) obtain n k where *: "ac_lead a t = Some (n, k, l)" "k \<le> c" "c < length l"
      "majority N {m \<in> N. c < ac_acked a m t}" by (auto simp: committed_def)
  have "majority N {m \<in> N. c < ac_acked b m t}"
    using *(4) by (rule majority_mono) (auto intro: less_le_trans growsD(3) [OF g])
  with growsD(1) [OF g *(1)] * that show thesis by (fastforce simp: committed_def)
qed

text \<open>Leader completeness: what is committed in a term is in the log of every later leader.\<close>

lemma committed_later:
  assumes "jump_inv N a" and com: "committed N a t c l" and "ac_lead a t' = Some (n', k', l')" and "t < t'"
  shows "c < k' \<and> agree c l' l"
proof -
  have "\<not> dead N a t c"
  proof
    assume "dead N a t c"
    then obtain R where R: "majority N R" "\<forall>m\<in>R. ac_acked a m t \<le> c" by (auto simp: dead_def)
    from com have "majority N {m \<in> N. c < ac_acked a m t}" by (auto simp: committed_def)
    from majorities.quorum_common_member [OF this R(1)] R(2) show False by fastforce
  qed
  with assms show ?thesis by (auto simp: committed_def dest: jump_invD)
qed

lemma committed_agree:
  assumes "jump_inv N a" and "committed N a t c l" and "committed N a t' c' l'" and "i \<le> c" and "i \<le> c'"
  shows "l ! i = l' ! i"
proof (cases t t' rule: linorder_cases)
  case less
  with assms have "agree c l' l" using committed_later [OF assms(1,2)] by (auto simp: committed_def)
  with assms(4) show ?thesis by (simp add: agree_nth)
next
  case greater
  with assms have "agree c' l l'" using committed_later [OF assms(1,3)] by (auto simp: committed_def)
  with assms(5) show ?thesis by (simp add: agree_nth)
next
  case equal
  with assms(2,3) show ?thesis by (auto simp: committed_def)
qed

definition backed :: "node_id set \<Rightarrow> 'v acluster \<Rightarrow> node_id \<Rightarrow> u64 \<Rightarrow> 'v log_entry list \<Rightarrow> u64 \<Rightarrow> bool" where
  "backed N a n u log d \<longleftrightarrow>
     (\<exists>t c l. committed N a t c l \<and> d \<le> c \<and> agree d log l \<and> (t < u \<or> t = u \<and> d < ac_acked a n u))"

definition commit_inv :: "node_id set \<Rightarrow> 'v acluster \<Rightarrow> bool" where
  "commit_inv N a \<longleftrightarrow>
     (\<forall>n d. co_commit (ac_core a n) = Some d \<longrightarrow>
        backed N a n (co_term (ac_core a n)) (co_log (ac_core a n)) d)
   \<and> (\<forall>x y t n prev pt ens d. (x, y, AppendEntries t n prev pt ens (Some d)) \<in> ac_net a \<longrightarrow>
        (\<exists>k log. ac_lead a t = Some (n, k, log) \<and> backed N a n t log d))
   \<and> (\<forall>i v. (i, v) \<in> ac_decided a \<longrightarrow> (\<exists>t c l. committed N a t c l \<and> i \<le> c \<and> v = e_value (l ! i)))"

lemma backed_mono:
  assumes g: "grows a b" and "backed N a n u log d" and "u \<le> u'"
  shows "backed N b n u' (log @ log') d"
proof -
  from assms(2) obtain t c l where *: "committed N a t c l" "d \<le> c" "agree d log l"
      "t < u \<or> t = u \<and> d < ac_acked a n u"
    by (auto simp: backed_def)
  obtain l' where l': "committed N b t c (l @ l')" by (rule committed_mono [OF g *(1)])
  have "agree d (log @ log') (l @ l')" using *(3) by (intro agree_append_left agree_append_right)
  moreover have "t < u' \<or> t = u' \<and> d < ac_acked b n u'"
    using *(4) assms(3) growsD(3) [OF g, of n u] by (cases "u = u'") auto
  ultimately show ?thesis using l' *(2) unfolding backed_def by blast
qed

lemma backed_le: "backed N a n u log d \<Longrightarrow> d' \<le> d \<Longrightarrow> backed N a n u log d'"
proof -
  assume "backed N a n u log d" and le: "d' \<le> d"
  then obtain t c l where "committed N a t c l" "d \<le> c" "agree d log l" "t < u \<or> t = u \<and> d < ac_acked a n u"
    by (auto simp: backed_def)
  with le agree_le [of d log l d'] show ?thesis
    unfolding backed_def by (intro exI [of _ t] exI [of _ c] exI [of _ l]) auto
qed

text \<open>A follower that accepts an \<open>AppendEntries\<close> keeps its committed prefix.\<close>

lemma accept_backed:
  assumes inv: "jump_inv N a" and lead: "ac_lead a u = Some (L, k', l')" and k: "k' \<le> k" "k \<le> length l'"
    and acked: "ac_acked a n u \<le> k" and old: "backed N a n u log d"
  shows "backed N a n u (take k l') d"
proof -
  from old obtain t c l where *: "committed N a t c l" "d \<le> c" "agree d log l"
      "t < u \<or> t = u \<and> d < ac_acked a n u" by (auto simp: backed_def)
  have "agree d (take k l') l"
  proof (cases "t < u")
    case True
    from committed_later [OF inv *(1) lead True] have "c < k'" "agree c l' l" by simp_all
    with k *(2) show ?thesis by (auto intro: agree_take agree_le)
  next
    case False
    with *(4) have "t = u" "d < ac_acked a n u" by auto
    moreover have "l = l'" using *(1) lead \<open>t = u\<close> by (auto simp: committed_def)
    ultimately show ?thesis using acked k(2) by (auto intro: agree_take_self)
  qed
  with * show ?thesis unfolding backed_def by blast
qed

lemma learn_commit_cases:
  "learn_commit lc (if k = 0 then None else Some (k - 1)) old = Some d \<Longrightarrow>
   old = Some d \<or> (\<exists>x. lc = Some x \<and> d \<le> x \<and> d < k)"
  by (auto simp: learn_commit_def split: option.splits if_splits)

lemma accept_commit:
  assumes inv: "jump_inv N a" and g: "grows a b" and lead: "ac_lead a u = Some (L, k', l')" and k: "k' \<le> k" "k \<le> length l'"
    and acked: "ac_acked a n u \<le> k" "ac_acked b n u = k"
    and lg: "lg = (if k = 0 then log else take k l')"
    and old: "\<And>d. ci = Some d \<Longrightarrow> backed N a n u log d"
    and msg: "\<And>d. lc = Some d \<Longrightarrow> \<exists>k log. ac_lead a u = Some (L, k, log) \<and> backed N a L u log d"
    and d: "learn_commit lc (if k = 0 then None else Some (k - 1)) ci = Some d"
  shows "backed N b n u lg d"
  using learn_commit_cases [OF d]
proof
  assume "ci = Some d"
  from old [OF this] accept_backed [OF inv lead k acked(1)] have "backed N a n u lg d"
    unfolding lg by simp
  from backed_mono [OF g this, of u "[]"] show ?thesis by simp
next
  assume "\<exists>x. lc = Some x \<and> d \<le> x \<and> d < k"
  then obtain x where x: "lc = Some x" "d \<le> x" "d < k" by blast
  from msg [OF x(1)] lead have "backed N a L u l' x" by auto
  from backed_mono [OF g backed_le [OF this x(2)], of u "[]"]
  obtain t c l where *: "committed N b t c l" "d \<le> c" "agree d l' l" "t \<le> u"
    by (auto simp: backed_def)
  from *(3) x(3) lg have "agree d lg l" by (auto intro: agree_take)
  with * x(3) acked(2) show ?thesis unfolding backed_def by (metis le_neq_implies_less)
qed

lemma commit_inv_core_step:
  assumes st: "astep True N a b" and fin: "finite N"
    and inv: "safe_inv N a" "ack_inv a" "jump_inv N a" "term_inv a" "commit_inv N a"
    and d: "co_commit (ac_core b n) = Some d"
  shows "backed N b n (co_term (ac_core b n)) (co_log (ac_core b n)) d"
proof -
  have g: "grows a b" by (rule grows_step [OF st inv(1,2) fin])
  have cur: "backed N a n (co_term (ac_core a n)) (co_log (ac_core a n)) d"
    if "co_commit (ac_core a n) = Some d" for n d
    using inv(5) that unfolding commit_inv_def by blast
  have old: ?thesis if "co_commit (ac_core b n) = co_commit (ac_core a n)"
    "co_log (ac_core b n) = co_log (ac_core a n) @ x" for x
    using backed_mono [OF g cur growsD(2) [OF g]] that d by simp
  show ?thesis
    using st
  proof (cases rule: astep.cases)
    case (accept n' c l prev pt ens lc k)
    show ?thesis
    proof (cases "n = n'")
      case True
      obtain k' l' where *: "ac_lead a (co_term c) = Some (l, k', l')" "k' \<le> k" "k \<le> length l'"
          "accepted_log prev ens (co_log c) = (if prev = None \<and> ens = [] then co_log c else take k l')"
        using accept_leader [OF inv(1) accept(3,4,6)] unfolding accept(7) by blast
      have zero: "k = 0 \<longleftrightarrow> prev = None \<and> ens = []"
        by (auto simp: accept(7) append_start_def split: option.splits)
      have msg: "\<exists>k log. ac_lead a (co_term c) = Some (l, k, log) \<and> backed N a l (co_term c) log d"
        if "lc = Some d" for d
        using inv(5) accept(4) that unfolding commit_inv_def by blast
      have "backed N b n (co_term c) (accepted_log prev ens (co_log c)) d"
        by (rule accept_commit [OF inv(3) g *(1-3), where ci = "co_commit c" and lc = lc and log = "co_log c"])
           (use accept cur [of n'] msg d True *(4) zero in
             \<open>auto simp: verified_index_alt max_def split: if_splits\<close>)
      with True accept show ?thesis by simp
    qed (use accept in \<open>intro old [of "[]"]; simp\<close>)
  next
    case (commit n' c i)
    show ?thesis
    proof (cases "n = n'")
      case True
      have lead: "lead_inv N a" using inv(1) by (simp add: safe_inv_def)
      obtain k where k: "ac_lead a (co_term (ac_core a n')) = Some (n', k, co_log (ac_core a n'))"
        using leader_leads [OF lead] commit by blast
      have "lead_terms (co_term (ac_core a n')) k (co_log (ac_core a n'))"
        using inv(4) k by (auto simp: term_inv_def)
      then have "k \<le> i" using commit unfolding lead_terms_def by (metis less_irrefl not_le)
      with k commit have "committed N b (co_term (ac_core a n')) i (co_log (ac_core a n'))"
        by (auto simp: committed_def)
      moreover have "i < ac_acked b n' (co_term (ac_core a n'))"
        using ack_invD(5) [OF inv(2), of n'] commit by simp
      ultimately show ?thesis using commit d True unfolding backed_def by (auto intro!: exI agree_refl)
    qed (use commit in \<open>intro old [of "[]"]; simp\<close>)
  next
    case (restart n' c ci)
    show ?thesis
    proof (cases "n = n'")
      case True
      with d restart obtain d' where "co_commit (ac_core a n') = Some d'" "d \<le> d'"
        by (auto simp: opt_key_def split: option.splits)
      from backed_mono [OF g backed_le [OF cur [OF this(1)] this(2)] order_refl, of "[]"]
      show ?thesis using restart True by simp
    qed (use restart in \<open>intro old [of "[]"]; simp\<close>)
  next
    case (append n' c v)
    then show ?thesis
      by (cases "n = n'") (use old [of "[LogEntry (co_term c) v]"] old [of "[]"] in auto)
  qed (rule old [of "[]"]; simp)+
qed

lemma astep_new_ae:
  "astep ordered N a b \<Longrightarrow> (x, y, AppendEntries t n prev pt ens lc) \<in> ac_net b \<Longrightarrow>
   (x, y, AppendEntries t n prev pt ens lc) \<in> ac_net a
   \<or> ac_core b = ac_core a \<and> ac_lead b = ac_lead a \<and> co_role (ac_core a n) = Leader
      \<and> t = co_term (ac_core a n) \<and> lc = co_commit (ac_core a n)"
  by (cases rule: astep.cases) auto

lemma commit_inv_step:
  assumes st: "astep True N a b" and fin: "finite N"
    and inv: "safe_inv N a" "ack_inv a" "jump_inv N a" "term_inv a" "commit_inv N a"
  shows "commit_inv N b"
proof -
  have g: "grows a b" by (rule grows_step [OF st inv(1,2) fin])
  have old_ae: "\<exists>k log. ac_lead b t = Some (n, k, log) \<and> backed N b n t log d"
    if msg: "(x, y, AppendEntries t n prev pt ens (Some d)) \<in> ac_net a" for x y t n prev pt ens d
  proof -
    obtain k log where *: "ac_lead a t = Some (n, k, log)" "backed N a n t log d"
      using inv(5) msg unfolding commit_inv_def by blast
    with growsD(1) [OF g *(1)] backed_mono [OF g *(2) order_refl] show ?thesis by blast
  qed
  have "\<exists>k log. ac_lead b t = Some (n, k, log) \<and> backed N b n t log d"
    if msg: "(x, y, AppendEntries t n prev pt ens (Some d)) \<in> ac_net b" for x y t n prev pt ens d
    using astep_new_ae [OF st msg]
  proof
    assume *: "ac_core b = ac_core a \<and> ac_lead b = ac_lead a \<and> co_role (ac_core a n) = Leader
      \<and> t = co_term (ac_core a n) \<and> Some d = co_commit (ac_core a n)"
    have "lead_inv N a" using inv(1) by (simp add: safe_inv_def)
    from leader_leads [OF this] * obtain j where
      "ac_lead a (co_term (ac_core a n)) = Some (n, j, co_log (ac_core a n))" by blast
    moreover have "backed N b n (co_term (ac_core b n)) (co_log (ac_core b n)) d"
      using commit_inv_core_step [OF st fin inv] * by simp
    ultimately show ?thesis using * by simp
  qed (rule old_ae)
  moreover have "\<exists>t c l. committed N b t c l \<and> i \<le> c \<and> v = e_value (l ! i)" if dec: "(i, v) \<in> ac_decided b" for i v
  proof (cases "(i, v) \<in> ac_decided a")
    case True
    with inv(5) obtain t c l where *: "committed N a t c l" "i \<le> c" "v = e_value (l ! i)"
      unfolding commit_inv_def by blast
    moreover obtain l' where "committed N b t c (l @ l')" by (rule committed_mono [OF g *(1)])
    moreover have "c < length l" using *(1) by (auto simp: committed_def)
    ultimately show ?thesis by (intro exI [of _ t] exI [of _ c] exI [of _ "l @ l'"]) (simp add: nth_append)
  next
    case False
    from st dec False obtain n d where n: "ac_core b = ac_core a" "co_commit (ac_core a n) = Some d" "i \<le> d"
      "v = e_value (co_log (ac_core a n) ! i)"
      by (cases rule: astep.cases) auto
    from commit_inv_core_step [OF st fin inv, of n d] n obtain t c l where
      "committed N b t c l" "d \<le> c" "agree d (co_log (ac_core a n)) l" by (auto simp: backed_def)
    with n(3,4) agree_nth [of d _ l i] show ?thesis by (metis order_trans)
  qed
  ultimately show ?thesis
    using commit_inv_core_step [OF st fin inv] unfolding commit_inv_def by blast
qed

section \<open>State machine safety\<close>

definition full_inv :: "node_id set \<Rightarrow> 'v acluster \<Rightarrow> bool" where
  "full_inv N a \<longleftrightarrow> safe_inv N a \<and> term_inv a \<and> ack_inv a \<and> req_inv a \<and> retain_inv N a \<and> cand_inv N a
     \<and> jump_inv N a \<and> commit_inv N a"

lemma areach_full:
  assumes "areach True N a" and fin: "finite N"
  shows "full_inv N a"
  using assms(1)
proof (induction rule: areach.induct)
  case init
  have "safe_inv N acluster_init" by (rule areach_safe [OF areach.init fin])
  then show ?case
    by (simp add: full_inv_def term_inv_def core_terms_def ack_inv_def req_inv_def retain_inv_def cand_inv_def
        jump_inv_def commit_inv_def acluster_init_def core_init_def)
next
  case (step a b)
  note st = step.hyps(2)
  from step.IH have inv: "safe_inv N a" "term_inv a" "ack_inv a" "req_inv a" "retain_inv N a" "cand_inv N a"
      "jump_inv N a" "commit_inv N a"
    by (simp_all add: full_inv_def)
  have "safe_inv N b" by (rule areach_safe [OF areach.step [OF step.hyps] fin])
  then show ?case
    unfolding full_inv_def
    using term_inv_step [OF st inv(1,2)] ack_inv_step [OF st inv(1,3) fin] req_inv_step [OF st inv(4)]
      retain_inv_step [OF st fin inv(1,3,5,7)] cand_inv_step [OF st fin inv(1,3,5,7,2,4,6)]
      jump_inv_step [OF st fin inv(1,3,5,7,6)] commit_inv_step [OF st fin inv(1,3,7,2,8)]
    by blast
qed

text \<open>No slot is ever decided with two values.\<close>

lemma abstract_state_machine_safety:
  assumes "full_inv N a" and "(i, v) \<in> ac_decided a" and "(i, w) \<in> ac_decided a"
  shows "v = w"
proof -
  from assms have inv: "commit_inv N a" "jump_inv N a" by (simp_all add: full_inv_def)
  obtain t c l where v: "committed N a t c l" "i \<le> c" "v = e_value (l ! i)"
    using inv(1) assms(2) unfolding commit_inv_def by blast
  obtain t' c' l' where w: "committed N a t' c' l'" "i \<le> c'" "w = e_value (l' ! i)"
    using inv(1) assms(3) unfolding commit_inv_def by blast
  from committed_agree [OF inv(2) v(1) w(1) v(2) w(2)] v(3) w(3) show ?thesis by simp
qed

text \<open>Nodes agree on their logs as far as both have committed.\<close>

lemma abstract_committed_prefix:
  assumes "full_inv N a" and "co_commit (ac_core a n) = Some c" and "co_commit (ac_core a m) = Some d" and "c \<le> d"
  shows "c < length (co_log (ac_core a n)) \<and> c < length (co_log (ac_core a m))
    \<and> take (Suc c) (co_log (ac_core a n)) = take (Suc c) (co_log (ac_core a m))"
proof -
  from assms have inv: "commit_inv N a" "jump_inv N a" by (simp_all add: full_inv_def)
  obtain t e l where l: "committed N a t e l" "c \<le> e" "agree c (co_log (ac_core a n)) l"
    using inv(1) assms(2) unfolding commit_inv_def backed_def by blast
  obtain t' e' l' where l': "committed N a t' e' l'" "d \<le> e'" "agree d (co_log (ac_core a m)) l'"
    using inv(1) assms(3) unfolding commit_inv_def backed_def by blast
  have "l ! i = l' ! i" if "i \<le> c" for i
    using committed_agree [OF inv(2) l(1) l'(1)] that l(2) l'(2) assms(4) by simp
  moreover have "agree c (co_log (ac_core a m)) l'" by (rule agree_le [OF l'(3) assms(4)])
  ultimately have "co_log (ac_core a n) ! i = co_log (ac_core a m) ! i" if "i < Suc c" for i
    using that agree_nth [OF l(3), of i] agree_nth [of c _ l' i] by simp
  moreover have "c < length (co_log (ac_core a n))" "c < length (co_log (ac_core a m))"
    using l(3) l'(3) assms(4) by (auto simp: agree_def)
  ultimately show ?thesis by (simp add: nth_take_lemma)
qed

end
