(* ===== verification/RaftRefine.thy ===== *)
theory RaftRefine
  imports RaftSafety
begin

text \<open>
  The operations of one Raft node refine the steps of the abstract cluster: each operation of
  \<open>RaftProtocol\<close> that starts in a state matching the abstract node ends in one that matches it
  again after some abstract steps, and every message it sends has been sent abstractly. Values
  are compared after \<open>norm\<close>, what the storage keeps of a value.
\<close>

section \<open>Matching states and messages\<close>

definition core_of :: "('v \<Rightarrow> 'v) \<Rightarrow> ('v, 's) raft_protocol \<Rightarrow> 'v core" where
  "core_of norm s = \<lparr>co_term = r_current_term s, co_vote = r_voted_for s,
     co_log = map (map_entry norm) (r_log s), co_role = r_role s, co_votes = r_votes_received s,
     co_commit = r_commit_index s\<rparr>"

fun norm_msg :: "('v \<Rightarrow> 'v) \<Rightarrow> 'v raft_message \<Rightarrow> 'v raft_message" where
  "norm_msg norm (AppendEntries t l prev pt ens lc) =
     AppendEntries t l prev pt (map (map_entry norm) ens) lc"
| "norm_msg norm (RForward v hops) = RForward (norm v) hops"
| "norm_msg norm m = m"

text \<open>The messages the abstract cluster tracks.\<close>

fun tracked :: "'v raft_message \<Rightarrow> bool" where
  "tracked (RequestVote _ _ _ _) = True"
| "tracked (RequestVoteResponse _ granted) = granted"
| "tracked (AppendEntries _ _ _ _ _ _) = True"
| "tracked (AppendEntriesResponse _ success _ _ _) = success"
| "tracked (RForward _ _) = False"

definition match_ok :: "node_id set \<Rightarrow> 'v acluster \<Rightarrow> ('v, 's) raft_protocol \<Rightarrow> bool" where
  "match_ok N a s \<longleftrightarrow> hm_wf (r_match_index s)
     \<and> (\<forall>m i. hm_get (r_match_index s) m = Some (Some i) \<longrightarrow> m \<in> N \<and> i < ac_acked a m (r_current_term s))"

definition nsim :: "('v \<Rightarrow> 'v) \<Rightarrow> node_id set \<Rightarrow> 'v acluster \<Rightarrow> node_id \<Rightarrow> ('v, 's) raft_protocol \<Rightarrow> bool" where
  "nsim norm N a n s \<longleftrightarrow>
     n \<in> N \<and> r_node_id s = n \<and> r_total_nodes s = card N \<and> ac_core a n = core_of norm s
     \<and> (r_role s = Leader \<longrightarrow> match_ok N a s)
     \<and> (\<forall>d\<in>set (r_pending_decisions s). (d_slot d, norm (d_value d)) \<in> ac_decided a
          \<and> d_slot d < opt_key (r_commit_index s))"

definition outs_ok :: "('v \<Rightarrow> 'v) \<Rightarrow> node_id set \<Rightarrow> 'v acluster \<Rightarrow> node_id \<Rightarrow> 'v raft_out \<Rightarrow> bool" where
  "outs_ok norm N a n outs \<longleftrightarrow>
     (\<forall>y m. (n, y, m) \<in> sends N n outs \<longrightarrow> tracked m \<longrightarrow> (n, y, norm_msg norm m) \<in> ac_net a)"

section \<open>Abstract steps of one node\<close>

text \<open>
  What a sequence of steps of node \<open>n\<close> may do; \<open>acc\<close> is the \<open>AppendEntries\<close> it may have
  accepted, by its term and the length of the log it covers.
\<close>

definition evolves ::
  "bool \<Rightarrow> node_id set \<Rightarrow> node_id \<Rightarrow> (u64 \<times> nat) option \<Rightarrow> 'v acluster \<Rightarrow> 'v acluster \<Rightarrow> bool" where
  "evolves ordered N n acc a b \<longleftrightarrow>
     areach ordered N b \<and> lead_le a b \<and> (\<forall>m. m \<noteq> n \<longrightarrow> ac_core b m = ac_core a m)
     \<and> ac_net a \<subseteq> ac_net b \<and> (\<forall>m t. m \<noteq> n \<longrightarrow> ac_acked b m t = ac_acked a m t)
     \<and> (\<forall>t. ac_acked a n t \<le> ac_acked b n t) \<and> ac_decided a \<subseteq> ac_decided b
     \<and> (\<forall>t. ac_acked b n t = ac_acked a n t \<or> (\<exists>k l. ac_lead b t = Some (n, k, l))
          \<or> (\<exists>k. acc = Some (t, k) \<and> ac_acked b n t \<le> max k (ac_acked a n t)))"

lemma evolves_refl: "areach ordered N a \<Longrightarrow> evolves ordered N n acc a a"
  by (simp add: evolves_def lead_le_same)

lemma lead_le_trans: "lead_le a b \<Longrightarrow> lead_le b c \<Longrightarrow> lead_le a c"
  unfolding lead_le_def by (metis append.assoc)

lemma evolves_trans:
  assumes ab: "evolves ordered N n acc a b" and bc: "evolves ordered N n acc b c"
  shows "evolves ordered N n acc a c"
proof -
  have lead: "\<exists>k l. ac_lead c t = Some (n, k, l)" if "\<exists>k l. ac_lead b t = Some (n, k, l)" for t
    using bc that unfolding evolves_def lead_le_def by blast
  have "ac_acked c n t = ac_acked a n t \<or> (\<exists>k l. ac_lead c t = Some (n, k, l))
      \<or> (\<exists>k. acc = Some (t, k) \<and> ac_acked c n t \<le> max k (ac_acked a n t))" for t
  proof -
    have "ac_acked b n t = ac_acked a n t \<or> (\<exists>k l. ac_lead b t = Some (n, k, l))
      \<or> (\<exists>k. acc = Some (t, k) \<and> ac_acked b n t \<le> max k (ac_acked a n t))"
      "ac_acked c n t = ac_acked b n t \<or> (\<exists>k l. ac_lead c t = Some (n, k, l))
      \<or> (\<exists>k. acc = Some (t, k) \<and> ac_acked c n t \<le> max k (ac_acked b n t))"
      using ab bc unfolding evolves_def by blast+
    with lead show ?thesis by (elim disjE exE conjE) (auto simp: max_def split: if_splits)
  qed
  moreover have "lead_le a c" using ab bc lead_le_trans unfolding evolves_def by blast
  ultimately show ?thesis using ab bc unfolding evolves_def
    by (simp, meson order_trans)
qed

lemma evolves_reach: "evolves ordered N n acc a b \<Longrightarrow> areach ordered N b"
  by (simp add: evolves_def)

lemma evolves_step:
  assumes "areach ordered N a" and "finite N" and "astep ordered N a b"
    and "\<And>m. m \<noteq> n \<Longrightarrow> ac_core b m = ac_core a m" and "\<And>m t. m \<noteq> n \<Longrightarrow> ac_acked b m t = ac_acked a m t"
    and "ac_net a \<subseteq> ac_net b" and "ac_decided a \<subseteq> ac_decided b"
    and "\<And>t. ac_acked b n t = ac_acked a n t \<or> (\<exists>k l. ac_lead b t = Some (n, k, l))
      \<or> (\<exists>k. acc = Some (t, k) \<and> ac_acked b n t \<le> max k (ac_acked a n t))"
  shows "evolves ordered N n acc a b"
proof -
  have "lead_le a b" using lead_le_step [OF assms(3)] areach_safe [OF assms(1,2)] by (simp add: safe_inv_def)
  moreover have "areach ordered N b" using assms(1,3) by (rule areach.step)
  ultimately show ?thesis using assms acked_mono [OF assms(3)] by (simp add: evolves_def)
qed

text \<open>The steps of a node, each as a sequence of one.\<close>

lemma abs_bump:
  assumes "areach ordered N a" and "finite N" and "n \<in> N" and "co_term (ac_core a n) < t"
  shows "\<exists>b. evolves ordered N n acc a b \<and> ac_core b n = (ac_core a n)\<lparr>co_term := t, co_vote := None,
    co_role := Follower, co_votes := {}\<rparr>"
proof -
  let ?b = "set_core a n ((ac_core a n)\<lparr>co_term := t, co_vote := None, co_role := Follower, co_votes := {}\<rparr>)"
  have "astep ordered N a ?b" using assms by (intro astep.bump) simp_all
  then have "evolves ordered N n acc a ?b" using assms by (intro evolves_step) simp_all
  then show ?thesis by (intro exI [of _ ?b]) simp
qed

lemma abs_follow:
  assumes "areach ordered N a" and "finite N" and "n \<in> N" and "co_role (ac_core a n) \<noteq> Leader"
  shows "\<exists>b. evolves ordered N n acc a b \<and> ac_core b n = (ac_core a n)\<lparr>co_role := Follower\<rparr>"
proof -
  let ?b = "set_core a n ((ac_core a n)\<lparr>co_role := Follower\<rparr>)"
  have "astep ordered N a ?b" using assms by (intro astep.follow) simp_all
  then have "evolves ordered N n acc a ?b" using assms by (intro evolves_step) simp_all
  then show ?thesis by (intro exI [of _ ?b]) simp
qed

lemma abs_grant:
  assumes "areach ordered N a" and "finite N" and "n \<in> N"
    and "(cand, n, RequestVote (co_term (ac_core a n)) cand li lt) \<in> ac_net a"
    and "co_vote (ac_core a n) = None \<or> co_vote (ac_core a n) = Some cand"
    and "up_to_date (co_log (ac_core a n)) lt li"
  shows "\<exists>b. evolves ordered N n acc a b \<and> ac_core b n = (ac_core a n)\<lparr>co_vote := Some cand\<rparr>
    \<and> (n, cand, RequestVoteResponse (co_term (ac_core a n)) True) \<in> ac_net b"
proof -
  let ?c = "ac_core a n"
  let ?b = "(set_core a n (?c\<lparr>co_vote := Some cand\<rparr>))
        \<lparr>ac_voted := insert (n, co_term ?c, cand) (ac_voted a),
         ac_net := insert (n, cand, RequestVoteResponse (co_term ?c) True) (ac_net a)\<rparr>"
  have "astep ordered N a ?b" using assms by (intro astep.grant) simp_all
  then have "evolves ordered N n acc a ?b" using assms by (intro evolves_step) auto
  then show ?thesis by (intro exI [of _ ?b]) simp
qed

lemma abs_tally:
  assumes "areach ordered N a" and "finite N" and "n \<in> N" and "co_role (ac_core a n) = Candidate"
    and "(m, n, RequestVoteResponse (co_term (ac_core a n)) True) \<in> ac_net a"
  shows "\<exists>b. evolves ordered N n acc a b
    \<and> ac_core b n = (ac_core a n)\<lparr>co_votes := insert m (co_votes (ac_core a n))\<rparr>"
proof -
  let ?b = "set_core a n ((ac_core a n)\<lparr>co_votes := insert m (co_votes (ac_core a n))\<rparr>)"
  have "astep ordered N a ?b" using assms by (intro astep.tally) simp_all
  then have "evolves ordered N n acc a ?b" using assms by (intro evolves_step) simp_all
  then show ?thesis by (intro exI [of _ ?b]) simp
qed

lemma abs_campaign:
  assumes "areach ordered N a" and "finite N" and "n \<in> N" and "co_role (ac_core a n) \<noteq> Leader"
  shows "\<exists>b. evolves ordered N n acc a b
    \<and> ac_core b n = (ac_core a n)\<lparr>co_term := Suc (co_term (ac_core a n)), co_vote := Some n,
        co_role := Candidate, co_votes := {n}\<rparr>
    \<and> (\<forall>y\<in>N - {n}. (n, y, RequestVote (Suc (co_term (ac_core a n))) n (log_last_index (co_log (ac_core a n)))
          (log_last_term (co_log (ac_core a n)))) \<in> ac_net b)"
proof -
  let ?c = "ac_core a n"
  let ?b = "(set_core a n (?c\<lparr>co_term := Suc (co_term ?c), co_vote := Some n, co_role := Candidate,
            co_votes := {n}\<rparr>))
        \<lparr>ac_voted := insert (n, Suc (co_term ?c), n) (ac_voted a),
         ac_net := ac_net a \<union> (\<lambda>m. (n, m, RequestVote (Suc (co_term ?c)) n
             (log_last_index (co_log ?c)) (log_last_term (co_log ?c)))) ` (N - {n})\<rparr>"
  have "astep ordered N a ?b" using assms by (intro astep.campaign) simp_all
  then have "evolves ordered N n acc a ?b" using assms by (intro evolves_step) auto
  then show ?thesis by (intro exI [of _ ?b]) simp
qed

lemma abs_restart:
  assumes "areach ordered N a" and "finite N" and "n \<in> N"
    and "ordered \<Longrightarrow> opt_key ci \<le> opt_key (co_commit (ac_core a n))"
  shows "\<exists>b. evolves ordered N n acc a b
    \<and> ac_core b n = (ac_core a n)\<lparr>co_role := Follower, co_votes := {}, co_commit := ci\<rparr>"
proof -
  let ?b = "set_core a n ((ac_core a n)\<lparr>co_role := Follower, co_votes := {}, co_commit := ci\<rparr>)"
  have "astep ordered N a ?b" using assms by (intro astep.restart) simp_all
  then have "evolves ordered N n acc a ?b" using assms by (intro evolves_step) simp_all
  then show ?thesis by (intro exI [of _ ?b]) simp
qed

lemma areach_leads:
  assumes "areach ordered N a" and "finite N" and "co_role (ac_core a n) = Leader"
  shows "\<exists>k. ac_lead a (co_term (ac_core a n)) = Some (n, k, co_log (ac_core a n))"
  using areach_safe [OF assms(1,2)] assms(3) leader_leads by (auto simp: safe_inv_def)

lemma abs_elect:
  assumes "areach ordered N a" and "finite N" and "n \<in> N"
    and "co_role (ac_core a n) = Candidate \<and> quorum_of (card N) \<le> card (co_votes (ac_core a n))
      \<or> N = {n} \<and> co_vote (ac_core a n) = Some n"
  shows "\<exists>b. evolves ordered N n acc a b \<and> ac_core b n = (ac_core a n)\<lparr>co_role := Leader\<rparr>
    \<and> length (co_log (ac_core a n)) \<le> ac_acked b n (co_term (ac_core a n))"
proof -
  let ?b = "elect n a"
  have st: "astep ordered N a ?b" using assms(3,4) by (auto intro: astep.win astep.resume)
  have reach: "areach ordered N ?b" using assms(1) st by (rule areach.step)
  have "\<exists>k l. ac_lead ?b (co_term (ac_core a n)) = Some (n, k, l)"
    using areach_leads [OF reach assms(2), of n] by auto
  with st have "evolves ordered N n acc a ?b"
    using assms(1,2) by (intro evolves_step) (auto simp: elect_def Let_def)
  then show ?thesis by (intro exI [of _ ?b]) (simp add: elect_def Let_def)
qed

lemma abs_append:
  assumes "areach ordered N a" and "finite N" and "n \<in> N" and "co_role (ac_core a n) = Leader"
  shows "\<exists>b. evolves ordered N n acc a b
    \<and> ac_core b n = (ac_core a n)\<lparr>co_log := co_log (ac_core a n) @ map (LogEntry (co_term (ac_core a n))) vs\<rparr>
    \<and> (vs \<noteq> [] \<longrightarrow> length (co_log (ac_core b n)) \<le> ac_acked b n (co_term (ac_core a n)))"
  using assms
proof (induction vs arbitrary: a)
  case Nil
  then show ?case by (intro exI [of _ a]) (simp add: evolves_refl)
next
  case (Cons v vs)
  let ?b = "extend n v a" and ?t = "co_term (ac_core a n)"
  have st: "astep ordered N a ?b" using Cons.prems by (intro astep.append) simp_all
  have reach: "areach ordered N ?b" using Cons.prems(1) st by (rule areach.step)
  have "\<exists>k l. ac_lead ?b ?t = Some (n, k, l)"
    using areach_leads [OF reach Cons.prems(2), of n] Cons.prems(4) by auto
  with st have ev: "evolves ordered N n acc a ?b"
    using Cons.prems(1,2) by (intro evolves_step) (auto simp: extend_def Let_def)
  from Cons.IH [of ?b] reach Cons.prems obtain c where c: "evolves ordered N n acc ?b c"
      "ac_core c n = (ac_core ?b n)\<lparr>co_log := co_log (ac_core ?b n) @ map (LogEntry ?t) vs\<rparr>"
      "vs \<noteq> [] \<longrightarrow> length (co_log (ac_core c n)) \<le> ac_acked c n ?t"
    by auto
  have "length (co_log (ac_core ?b n)) \<le> ac_acked ?b n ?t" by (simp add: extend_def Let_def)
  also have "\<dots> \<le> ac_acked c n ?t" using c(1) by (simp add: evolves_def)
  finally have "length (co_log (ac_core c n)) \<le> ac_acked c n ?t" using c(2,3) by (cases vs) auto
  with evolves_trans [OF ev c(1)] c(2) show ?case by (intro exI [of _ c]) simp
qed

definition ae_from :: "node_id \<Rightarrow> 'v core \<Rightarrow> nat \<Rightarrow> 'v raft_message" where
  "ae_from n c k = AppendEntries (co_term c) n (ae_prev k) (ae_prev_term k (co_log c)) (drop k (co_log c)) (co_commit c)"

lemma abs_send:
  assumes "areach ordered N a" and fin: "finite N" and "n \<in> N" and "co_role (ac_core a n) = Leader"
    and "k \<le> length (co_log (ac_core a n))"
  shows "\<exists>b. evolves ordered N n acc a b \<and> ac_core b n = ac_core a n
    \<and> (\<forall>y\<in>N - {n}. (n, y, ae_from n (ac_core a n) k) \<in> ac_net b)"
proof -
  have "\<exists>b. evolves ordered N n acc a b \<and> ac_core b n = ac_core a n
      \<and> (\<forall>y\<in>Y. (n, y, ae_from n (ac_core a n) k) \<in> ac_net b)"
    if "finite Y" "Y \<subseteq> N - {n}" for Y
    using that
  proof (induction Y rule: finite_induct)
    case empty
    show ?case by (intro exI [of _ a]) (simp add: evolves_refl assms(1))
  next
    case (insert y Y)
    then obtain b where b: "evolves ordered N n acc a b" "ac_core b n = ac_core a n"
      "\<forall>y\<in>Y. (n, y, ae_from n (ac_core a n) k) \<in> ac_net b" by auto
    let ?c = "b\<lparr>ac_net := insert (n, y, ae_from n (ac_core b n) k) (ac_net b)\<rparr>"
    have "astep ordered N b ?c"
      unfolding ae_from_def using assms b insert.prems by (intro astep.send) auto
    then have "evolves ordered N n acc b ?c"
      using evolves_reach [OF b(1)] fin by (intro evolves_step) auto
    from evolves_trans [OF b(1) this] b show ?case by (intro exI [of _ ?c]) simp
  qed
  from this [of "N - {n}"] fin show ?thesis by simp
qed

lemma abs_commit:
  assumes "areach ordered N a" and "finite N" and "n \<in> N" and "co_role (ac_core a n) = Leader"
    and "i < length (co_log (ac_core a n))" and "e_term (co_log (ac_core a n) ! i) = co_term (ac_core a n)"
    and "later i (co_commit (ac_core a n))" and "majority N {m \<in> N. i < ac_acked a m (co_term (ac_core a n))}"
  shows "\<exists>b. evolves ordered N n acc a b \<and> ac_core b n = (ac_core a n)\<lparr>co_commit := Some i\<rparr>"
proof -
  let ?b = "set_core a n ((ac_core a n)\<lparr>co_commit := Some i\<rparr>)"
  have "astep ordered N a ?b" using assms by (intro astep.commit) simp_all
  then have "evolves ordered N n acc a ?b" using assms by (intro evolves_step) simp_all
  then show ?thesis by (intro exI [of _ ?b]) simp
qed

lemma abs_decide:
  assumes "areach ordered N a" and "finite N" and "n \<in> N" and "co_commit (ac_core a n) = Some d"
    and "\<forall>i\<in>set is. i \<le> d \<and> i < length (co_log (ac_core a n))"
  shows "\<exists>b. evolves ordered N n acc a b \<and> ac_core b n = ac_core a n
    \<and> (\<forall>i\<in>set is. (i, e_value (co_log (ac_core a n) ! i)) \<in> ac_decided b)"
  using assms
proof (induction "is" arbitrary: a)
  case Nil
  then show ?case by (intro exI [of _ a]) (simp add: evolves_refl)
next
  case (Cons i "is")
  let ?b = "a\<lparr>ac_decided := insert (i, e_value (co_log (ac_core a n) ! i)) (ac_decided a)\<rparr>"
  have st: "astep ordered N a ?b" using Cons.prems by (intro astep.decide) auto
  have ev: "evolves ordered N n acc a ?b"
    using Cons.prems(1,2) st by (intro evolves_step) auto
  from Cons.IH [of ?b] evolves_reach [OF ev] Cons.prems obtain c where c: "evolves ordered N n acc ?b c"
      "ac_core c n = ac_core a n" "\<forall>i\<in>set is. (i, e_value (co_log (ac_core a n) ! i)) \<in> ac_decided c" by auto
  moreover have "(i, e_value (co_log (ac_core a n) ! i)) \<in> ac_decided c" using c(1) by (auto simp: evolves_def)
  ultimately show ?case using evolves_trans [OF ev c(1)] by (intro exI [of _ c]) simp
qed

lemma abs_accept:
  assumes "areach ordered N a" and "finite N" and "n \<in> N"
    and "(l, n, AppendEntries (co_term (ac_core a n)) l prev pt ens lc) \<in> ac_net a"
    and "co_role (ac_core a n) \<noteq> Leader" and "prev_ok (co_log (ac_core a n)) prev pt"
    and "ordered \<Longrightarrow> ac_acked a n (co_term (ac_core a n)) \<le> append_start prev + length ens"
  shows "\<exists>b. evolves ordered N n (Some (co_term (ac_core a n), append_start prev + length ens)) a b
    \<and> ac_core b n = (ac_core a n)\<lparr>co_role := Follower, co_log := accepted_log prev ens (co_log (ac_core a n)),
        co_commit := learn_commit lc (verified_index prev (length ens)) (co_commit (ac_core a n))\<rparr>
    \<and> (n, l, AppendEntriesResponse (co_term (ac_core a n)) True (verified_index prev (length ens)) None None)
        \<in> ac_net b"
proof -
  let ?c = "ac_core a n" and ?k = "append_start prev + length ens"
  let ?b = "(set_core a n (?c\<lparr>co_role := Follower, co_log := accepted_log prev ens (co_log ?c),
            co_commit := learn_commit lc (verified_index prev (length ens)) (co_commit ?c)\<rparr>))
        \<lparr>ac_acked := (ac_acked a)(n := (ac_acked a n)(co_term ?c := max ?k (ac_acked a n (co_term ?c)))),
         ac_net := insert (n, l, AppendEntriesResponse (co_term ?c) True
                             (verified_index prev (length ens)) None None) (ac_net a)\<rparr>"
  have "astep ordered N a ?b" using assms by (intro astep.accept [where pt = pt]) simp_all
  then have "evolves ordered N n (Some (co_term ?c, ?k)) a ?b" using assms(1,2) by (intro evolves_step) auto
  then show ?thesis by (intro exI [of _ ?b]) simp
qed

section \<open>Operations of a node\<close>

lemma core_of_sel [simp]:
  "co_term (core_of norm s) = r_current_term s"
  "co_vote (core_of norm s) = r_voted_for s"
  "co_log (core_of norm s) = map (map_entry norm) (r_log s)"
  "co_role (core_of norm s) = r_role s"
  "co_votes (core_of norm s) = r_votes_received s"
  "co_commit (core_of norm s) = r_commit_index s"
  by (simp_all add: core_of_def)

lemma core_eqI:
  assumes "co_term c = co_term d" and "co_vote c = co_vote d" and "co_log c = co_log d"
    and "co_role c = co_role d" and "co_votes c = co_votes d" and "co_commit c = co_commit d"
  shows "c = (d :: 'v core)"
  using assms by simp

lemma acked_evolves: "evolves ordered N n acc a b \<Longrightarrow> ac_acked a m t \<le> ac_acked b m t"
  by (cases "m = n") (auto simp: evolves_def)

lemma match_ok_evolves:
  assumes "match_ok N a s" and "evolves ordered N n acc a b"
    and "r_match_index s' = r_match_index s" and "r_current_term s' = r_current_term s"
  shows "match_ok N b s'"
  using assms acked_evolves [OF assms(2)] unfolding match_ok_def by (metis less_le_trans)

lemma match_ok_insert:
  assumes "match_ok N a s" and "evolves ordered N n acc a b" and "m \<in> N" and "i < ac_acked b m (r_current_term s)"
    and "r_match_index s' = hm_insert m (Some i) (r_match_index s)" and "r_current_term s' = r_current_term s"
  shows "match_ok N b s'"
  using assms acked_evolves [OF assms(2)] unfolding match_ok_def
  by (auto split: if_splits) (metis less_le_trans)+

lemma nsimD:
  assumes "nsim norm N a n s"
  shows "n \<in> N" and "r_node_id s = n" and "r_total_nodes s = card N" and "ac_core a n = core_of norm s"
    and "r_role s = Leader \<Longrightarrow> match_ok N a s"
  using assms by (simp_all add: nsim_def)

lemma nsimI:
  assumes "nsim norm N a n s" and "evolves ordered N n acc a b" and "ac_core b n = core_of norm s'"
    and "r_node_id s' = r_node_id s" and "r_total_nodes s' = r_total_nodes s"
    and "r_pending_decisions s' = r_pending_decisions s"
    and "opt_key (r_commit_index s) \<le> opt_key (r_commit_index s')"
    and "r_role s' = Leader \<Longrightarrow> match_ok N b s'"
  shows "nsim norm N b n s'"
  using assms unfolding nsim_def evolves_def by (auto dest: less_le_trans)

text \<open>Fields outside the correspondence may change freely.\<close>

lemma nsim_frame:
  assumes "nsim norm N a n s" and "core_of norm s' = core_of norm s" and "r_node_id s' = r_node_id s"
    and "r_total_nodes s' = r_total_nodes s" and "r_pending_decisions s' = r_pending_decisions s"
    and "r_match_index s' = r_match_index s"
  shows "nsim norm N a n s'"
proof -
  from assms(2) have "r_role s' = r_role s" "r_commit_index s' = r_commit_index s"
      "r_current_term s' = r_current_term s"
    by (simp_all add: core_of_def)
  with assms show ?thesis by (simp add: nsim_def match_ok_def)
qed

lemma nsim_evolves:
  assumes sim: "nsim norm N a n s" and ev: "evolves ordered N n acc a b" and "ac_core b n = ac_core a n"
  shows "nsim norm N b n s"
proof (rule nsimI [OF sim ev])
  show "ac_core b n = core_of norm s" using assms(3) nsimD(4) [OF sim] by simp
  show "match_ok N b s" if "r_role s = Leader"
    by (rule match_ok_evolves [OF nsimD(5) [OF sim that] ev]) simp_all
qed simp_all

lemma sim_apply:
  assumes reach: "areach ordered N a" and fin: "finite N" and sim: "nsim norm N a n s"
    and ap: "apply_committed_entries s = Some s'"
  shows "\<exists>b. evolves ordered N n acc a b \<and> nsim norm N b n s'"
proof (cases "s' = s")
  case True
  then show ?thesis using sim evolves_refl [OF reach] by blast
next
  case False
  with ap obtain target start ds where t: "r_commit_index s = Some target"
      "collect_decisions (r_log s) [start..<Suc target] = Some ds"
      "s' = s\<lparr>r_pending_decisions := r_pending_decisions s @ ds, r_last_applied := Some target\<rparr>"
    by (auto simp: apply_committed_entries_def Let_def split: option.splits if_splits)
  note ds = collect_decisions_SomeD [OF t(2)]
  have "\<forall>i\<in>set [start..<Suc target]. i \<le> target \<and> i < length (co_log (ac_core a n))"
    using ds nsimD(4) [OF sim] by auto
  from abs_decide [OF reach fin nsimD(1) [OF sim] _ this] nsimD(4) [OF sim] t(1)
  obtain b where b: "evolves ordered N n acc a b" "ac_core b n = ac_core a n"
      "\<forall>i\<in>set [start..<Suc target]. (i, e_value (map (map_entry norm) (r_log s) ! i)) \<in> ac_decided b"
    by auto
  have "nsim norm N b n s" by (rule nsim_evolves [OF sim b(1,2)])
  moreover have "(d_slot d, norm (d_value d)) \<in> ac_decided b \<and> d_slot d < opt_key (Some target)"
    if "d \<in> set ds" for d
    using that ds b(3) by (auto simp: opt_key_def)
  ultimately have "nsim norm N b n s'" using t(1,3) by (auto simp: nsim_def core_of_def match_ok_def)
  with b(1) show ?thesis by blast
qed

lemma sim_advance:
  assumes reach: "areach ordered N a" and fin: "finite N" and sim: "nsim norm N a n s"
    and role: "r_role s = Leader" and ad: "try_advance_commit s = Some s'"
  shows "\<exists>b. evolves ordered N n acc a b \<and> nsim norm N b n s'"
  using ad
proof (cases rule: try_advance_commit_apply)
  case 1
  then show ?thesis using sim evolves_refl [OF reach] by blast
next
  case (2 c)
  let ?s = "s\<lparr>r_commit_index := Some c, r_pending_persist_commit_index := True\<rparr>"
  have match: "match_ok N a s" using nsimD(5) [OF sim role] .
  let ?Q = "{m \<in> N. c < ac_acked a m (r_current_term s)}"
  have "replicas s c \<subseteq> ?Q" using match by (auto simp: replicas_def match_ok_def intro: le_less_trans)
  then have "card (replicas s c) \<le> card ?Q" using fin by (intro card_mono) auto
  with 2(4) match fin nsimD(3) [OF sim] have "majority N ?Q"
    by (auto simp: majority_def match_ok_def raft_quorum_def)
  moreover have "later c (r_commit_index s)" using 2(3) by (simp add: later_def split: option.split)
  ultimately obtain b where b: "evolves ordered N n acc a b"
      "ac_core b n = (core_of norm s)\<lparr>co_commit := Some c\<rparr>"
    using abs_commit [OF reach fin nsimD(1) [OF sim], of c acc] 2(1,2) role nsimD(4) [OF sim] by auto
  have "nsim norm N b n ?s"
  proof (rule nsimI [OF sim b(1)])
    show "ac_core b n = core_of norm ?s" using b(2) by (simp add: core_of_def)
    show "opt_key (r_commit_index s) \<le> opt_key (r_commit_index ?s)"
      using 2(3) by (auto simp: opt_key_def less_imp_le split: option.splits)
    show "match_ok N b ?s" by (rule match_ok_evolves [OF match b(1)]) simp_all
  qed simp_all
  from sim_apply [OF evolves_reach [OF b(1)] fin this 2(5)] evolves_trans [OF b(1)] show ?thesis by blast
qed

text \<open>An outcome of an operation that the abstract cluster can follow.\<close>

definition refines ::
  "bool \<Rightarrow> ('v \<Rightarrow> 'v) \<Rightarrow> node_id set \<Rightarrow> (u64 \<times> nat) option \<Rightarrow> 'v acluster \<Rightarrow> node_id
   \<Rightarrow> ('v, 's) raft_protocol \<times> 'v raft_out \<Rightarrow> bool" where
  "refines ordered norm N acc a n r \<longleftrightarrow>
     (\<exists>b. evolves ordered N n acc a b \<and> nsim norm N b n (fst r) \<and> outs_ok norm N b n (snd r))"

lemma refines_trans:
  "evolves ordered N n acc a b \<Longrightarrow> refines ordered norm N acc b n r \<Longrightarrow> refines ordered norm N acc a n r"
  unfolding refines_def using evolves_trans by blast

lemma outs_ok_Nil [simp]: "outs_ok norm N a n []"
  by (simp add: outs_ok_def sends_def)

lemma outs_ok_untracked: "(\<And>out. out \<in> set outs \<Longrightarrow> \<not> tracked (o_message out)) \<Longrightarrow> outs_ok norm N a n outs"
  by (auto simp: outs_ok_def sends_def)

lemma refines_silent:
  "areach ordered N a \<Longrightarrow> nsim norm N a n s \<Longrightarrow> refines ordered norm N acc a n (s, [])"
  unfolding refines_def using evolves_refl by fastforce

lemma refines_untracked:
  assumes "areach ordered N a" and "nsim norm N a n (fst r)" and "\<forall>out\<in>set (snd r). \<not> tracked (o_message out)"
  shows "refines ordered norm N acc a n r"
  unfolding refines_def using evolves_refl [OF assms(1)] assms(2,3) outs_ok_untracked [of "snd r"] by blast

text \<open>The \<open>AppendEntries\<close> a leader sends.\<close>

lemma sim_broadcast:
  assumes reach: "areach ordered N a" and fin: "finite N" and sim: "nsim norm N a n s" and role: "r_role s = Leader"
    and k: "k \<le> length (r_log s)" and msg: "norm_msg norm msg = ae_from n (core_of norm s) k"
    and s': "s' = s\<lparr>r_last_heartbeat_sent := h, r_next_index := ni\<rparr>"
  shows "refines ordered norm N acc a n (s', [Outgoing target msg])"
proof -
  obtain b where b: "evolves ordered N n acc a b" "ac_core b n = ac_core a n"
      "\<forall>y\<in>N - {n}. (n, y, ae_from n (core_of norm s) k) \<in> ac_net b"
    using abs_send [OF reach fin nsimD(1) [OF sim], of k] nsimD(4) [OF sim] role k by auto
  have "nsim norm N b n s'"
    by (rule nsim_frame [OF nsim_evolves [OF sim b(1,2)]]) (simp_all add: s' core_of_def)
  moreover have "outs_ok norm N b n [Outgoing target msg]"
    using b(3) by (auto simp: outs_ok_def sends_def msg)
  ultimately show ?thesis using b(1) by (auto simp: refines_def)
qed

lemma heartbeat_msg:
  "norm_msg norm (AppendEntries (r_current_term s) (r_node_id s) (last_log_index s) (last_log_term s) [] (r_commit_index s))
   = ae_from (r_node_id s) (core_of norm s) (length (r_log s))"
  by (auto simp: ae_from_def ae_prev_def ae_prev_term_def last_log_index_def last_log_term_def last_conv_nth)

lemma sim_heartbeat:
  assumes "areach ordered N a" and "finite N" and sim: "nsim norm N a n s" and "r_role s = Leader"
  shows "refines ordered norm N acc a n (broadcast_heartbeat e s)"
  unfolding broadcast_heartbeat_def
  by (rule sim_broadcast [OF assms, where k = "length (r_log s)" and ni = "r_next_index s"])
     (use heartbeat_msg [of norm s] in \<open>simp_all only: nsimD(2) [OF sim] order_refl, simp\<close>)

lemma sim_with_entries:
  assumes "areach ordered N a" and "finite N" and sim: "nsim norm N a n s" and "r_role s = Leader"
    and ens: "r_log s = log @ ens"
  shows "refines ordered norm N acc a n (broadcast_with_entries e ens s)"
  unfolding broadcast_with_entries_def Let_def
  by (rule sim_broadcast [OF assms(1-4), where k = "length log" and ni = "r_next_index s"])
     (use nsimD(2) [OF sim] in \<open>auto simp: ens ae_from_def ae_prev_def ae_prev_term_def nth_append\<close>)

text \<open>A leader adds entries to its log and tries to commit them.\<close>

lemma sim_append:
  assumes reach: "areach ordered N a" and fin: "finite N" and sim: "nsim norm N a n s" and role: "r_role s = Leader"
    and vs: "vs \<noteq> []" and ens: "ens = map (LogEntry (r_current_term s)) vs"
    and s': "s' = s\<lparr>r_log := r_log s @ ens, r_pending_persist_log_from := pf,
      r_match_index := hm_insert n (Some (length (r_log s) + length ens - 1)) (r_match_index s)\<rparr>"
  shows "\<exists>s2. try_advance_commit s' = Some s2 \<and> refines ordered norm N acc a n (broadcast_with_entries e ens s2)"
proof -
  obtain b where b: "evolves ordered N n acc a b"
      "ac_core b n = (core_of norm s)\<lparr>co_log := map (map_entry norm) (r_log s) @ map (LogEntry (r_current_term s)) (map norm vs)\<rparr>"
      "length (r_log s) + length vs \<le> ac_acked b n (r_current_term s)"
    using abs_append [OF reach fin nsimD(1) [OF sim], of acc "map norm vs"] nsimD(4) [OF sim] role vs by auto
  have ent: "map (map_entry norm) ens = map (LogEntry (r_current_term s)) (map norm vs)"
    by (simp add: ens map_entry_def)
  have "nsim norm N b n s'"
  proof (rule nsimI [OF sim b(1)])
    show "ac_core b n = core_of norm s'" unfolding b(2) ent [symmetric] by (simp add: s' core_of_def)
    have "length (r_log s) + length ens - 1 < ac_acked b n (r_current_term s)"
      using b(3) vs by (cases vs) (auto simp: ens)
    then show "match_ok N b s'"
      by (rule match_ok_insert [OF nsimD(5) [OF sim role] b(1) nsimD(1) [OF sim]]) (simp_all add: s')
  qed (simp_all add: s')
  moreover have role': "r_role s' = Leader" using role by (simp add: s')
  moreover obtain s2 where s2: "try_advance_commit s' = Some s2" using try_advance_commit_total by blast
  ultimately obtain c where c: "evolves ordered N n acc b c" "nsim norm N c n s2"
    using sim_advance [OF evolves_reach [OF b(1)] fin] by blast
  have "r_log s2 = r_log s @ ens" "r_role s2 = Leader"
    using s2 role' by (auto elim!: try_advance_commit_frame simp: s')
  with sim_with_entries [OF evolves_reach [OF c(1)] fin c(2)] have
    "refines ordered norm N acc c n (broadcast_with_entries e ens s2)" by blast
  with s2 refines_trans [OF evolves_trans [OF b(1) c(1)]] show ?thesis by blast
qed

lemma sim_become_leader:
  assumes reach: "areach ordered N a" and fin: "finite N" and sim: "nsim norm N a n s"
    and role: "r_role s = Candidate" and votes: "raft_quorum s \<le> card (r_votes_received s)"
    and r: "raft_become_leader e s = Some r"
  shows "refines ordered norm N acc a n r"
proof -
  let ?s = "s\<lparr>r_role := Leader, r_leader := Some (r_node_id s), r_next_index := [],
     r_match_index := (if r_log s = [] then [] else hm_insert (r_node_id s) (Some (length (r_log s) - 1)) []),
     r_pending_proposals := []\<rparr>"
  obtain b where b: "evolves ordered N n acc a b" "ac_core b n = (core_of norm s)\<lparr>co_role := Leader\<rparr>"
      "length (r_log s) \<le> ac_acked b n (r_current_term s)"
    using abs_elect [OF reach fin nsimD(1) [OF sim]] nsimD(3,4) [OF sim] role votes
    by (auto simp: raft_quorum_def)
  note b' = evolves_reach [OF b(1)]
  have sim': "nsim norm N b n ?s"
  proof (rule nsimI [OF sim b(1)])
    show "ac_core b n = core_of norm ?s" unfolding b(2) by (simp add: core_of_def)
    have "length (r_log s) - 1 < ac_acked b n (r_current_term s)" if "r_log s \<noteq> []"
      using that b(3) by (cases "r_log s") auto
    with nsimD(1,2) [OF sim] show "match_ok N b ?s" by (auto simp: match_ok_def)
  qed simp_all
  show ?thesis
  proof (cases "r_pending_proposals s = []")
    case True
    then have "r = broadcast_heartbeat e ?s" using r by (simp add: raft_become_leader_def Let_def)
    then show ?thesis by (simp only:) (rule refines_trans [OF b(1) sim_heartbeat [OF b' fin sim']], simp)
  next
    case False
    let ?ens = "map (LogEntry (r_current_term s)) (r_pending_proposals s)"
    let ?s' = "?s\<lparr>r_log := r_log ?s @ ?ens,
      r_pending_persist_log_from := (case r_pending_persist_log_from s of None \<Rightarrow> Some (length (r_log s)) | Some i \<Rightarrow> Some i),
      r_match_index := hm_insert n (Some (length (r_log ?s) + length ?ens - 1)) (r_match_index ?s)\<rparr>"
    have "\<exists>s2. try_advance_commit ?s' = Some s2 \<and> refines ordered norm N acc b n (broadcast_with_entries e ?ens s2)"
      by (rule sim_append [OF b' fin sim' _ False]) simp_all
    moreover have "\<exists>s2. try_advance_commit ?s' = Some s2 \<and> r = broadcast_with_entries e ?ens s2"
      using r False nsimD(2) [OF sim] by (auto simp: raft_become_leader_def Let_def split: Option.bind_splits)
    ultimately show ?thesis using refines_trans [OF b(1)] by (metis option.inject)
  qed
qed

lemma last_log_core [simp]:
  "log_last_index (map (map_entry norm) (r_log s)) = last_log_index s"
  "log_last_term (map (map_entry norm) (r_log s)) = last_log_term s"
  by (simp_all add: log_last_index_def last_log_index_def log_last_term_def last_log_term_def last_map)

lemma up_to_date_core:
  "up_to_date (map (map_entry norm) (r_log s)) lt li = candidate_log_at_least_as_up_to_date s lt li"
  by (auto simp: up_to_date_def candidate_log_at_least_as_up_to_date_def Let_def opt_key_def
      split: option.splits)

lemma sim_start_election:
  assumes reach: "areach ordered N a" and fin: "finite N" and sim: "nsim norm N a n s"
    and role: "r_role s \<noteq> Leader" and small: "r_current_term s < u64_max"
    and r: "raft_start_election e s = Some r"
  shows "refines ordered norm N acc a n r"
proof -
  let ?s = "s\<lparr>r_current_term := u64_add (r_current_term s) 1, r_role := Candidate,
     r_voted_for := Some (r_node_id s), r_votes_received := {r_node_id s}, r_leader := None,
     r_election_deadline := clock e + sample_election_timeout e (r_config s),
     r_pending_persist_term := True, r_pending_persist_voted_for := True\<rparr>"
  have t: "u64_add (r_current_term s) (Suc 0) = Suc (r_current_term s)"
    using small by (simp add: u64_add_exact_Suc)
  obtain b where b: "evolves ordered N n acc a b"
      "ac_core b n = (core_of norm s)\<lparr>co_term := Suc (r_current_term s), co_vote := Some n,
        co_role := Candidate, co_votes := {n}\<rparr>"
      "\<forall>y\<in>N - {n}. (n, y, RequestVote (Suc (r_current_term s)) n (last_log_index s) (last_log_term s)) \<in> ac_net b"
    using abs_campaign [OF reach fin nsimD(1) [OF sim], of acc] nsimD(4) [OF sim] role by auto
  have core: "ac_core b n = core_of norm ?s" unfolding b(2) using nsimD(2) [OF sim] by (simp add: core_of_def t)
  have sim': "nsim norm N b n ?s" by (rule nsimI [OF sim b(1) core]) simp_all
  show ?thesis
  proof (cases "raft_quorum s \<le> 1")
    case True
    then have "raft_become_leader e ?s = Some r"
      using r by (simp add: raft_start_election_def Let_def raft_quorum_def)
    from sim_become_leader [OF evolves_reach [OF b(1)] fin sim' _ _ this] True
    show ?thesis by (intro refines_trans [OF b(1)]) (simp add: raft_quorum_def)
  next
    case False
    let ?out = "[Outgoing Broadcast (RequestVote (Suc (r_current_term s)) n (last_log_index s) (last_log_term s))]"
    have fst: "fst r = ?s \<or> (\<exists>lost. fst r = ?s\<lparr>r_lost_proposals := lost, r_pending_proposals := []\<rparr>)"
      and snd: "snd r = ?out"
      using r False nsimD(2) [OF sim]
      by (auto simp: raft_start_election_def Let_def raft_quorum_def t last_log_index_def last_log_term_def
          split: if_splits)
    have "nsim norm N b n (fst r)"
      using fst by (elim disjE exE) (simp_all add: sim' nsim_frame [OF sim'] core_of_def)
    moreover have "outs_ok norm N b n (snd r)" using b(3) by (auto simp: snd outs_ok_def sends_def)
    ultimately show ?thesis using b(1) by (auto simp: refines_def)
  qed
qed

lemma sim_propose:
  assumes reach: "areach ordered N a" and fin: "finite N" and sim: "nsim norm N a n s"
    and r: "raft_propose e value s = Some r"
  shows "refines ordered norm N acc a n r"
proof (cases "r_role s = Leader")
  case True
  let ?ens = "map (LogEntry (r_current_term s)) [value]"
  let ?s = "s\<lparr>r_log := r_log s @ ?ens,
    r_pending_persist_log_from := (case r_pending_persist_log_from s of None \<Rightarrow> Some (length (r_log s)) | Some i \<Rightarrow> Some i),
    r_match_index := hm_insert n (Some (length (r_log s) + length ?ens - 1)) (r_match_index s)\<rparr>"
  have "\<exists>s2. try_advance_commit ?s = Some s2 \<and> refines ordered norm N acc a n (broadcast_with_entries e ?ens s2)"
    by (rule sim_append [OF reach fin sim True, where vs = "[value]"]) simp_all
  moreover have "\<exists>s2. try_advance_commit ?s = Some s2 \<and> r = broadcast_with_entries e ?ens s2"
    using r True nsimD(2) [OF sim] by (auto simp: raft_propose_def Let_def split: Option.bind_splits)
  ultimately show ?thesis by (metis option.inject)
next
  case False
  with r have "fst r = s \<or> fst r = s\<lparr>r_pending_proposals := r_pending_proposals s @ [value]\<rparr>"
    "\<forall>out\<in>set (snd r). \<not> tracked (o_message out)"
    by (auto simp: raft_propose_def split: option.splits)
  moreover from this(1) have "nsim norm N a n (fst r)"
    by (auto intro: nsim_frame [OF sim] simp: core_of_def sim)
  ultimately show ?thesis by (intro refines_untracked [OF reach])
qed

text \<open>A message that reaches node \<open>n\<close> has been sent.\<close>

definition arrives :: "('v \<Rightarrow> 'v) \<Rightarrow> 'v acluster \<Rightarrow> node_id \<Rightarrow> node_id \<Rightarrow> 'v raft_message \<Rightarrow> bool" where
  "arrives norm a from n msg \<longleftrightarrow> (tracked msg \<longrightarrow> (from, n, norm_msg norm msg) \<in> ac_net a)"

lemma arrives_evolves: "arrives norm a from n msg \<Longrightarrow> evolves ordered N n' acc a b \<Longrightarrow> arrives norm b from n msg"
  by (auto simp: arrives_def evolves_def)

lemma sim_bump_term:
  assumes reach: "areach ordered N a" and fin: "finite N" and sim: "nsim norm N a n s"
  shows "\<exists>b. evolves ordered N n acc a b \<and> nsim norm N b n (bump_term e msg s)"
proof (cases "\<exists>t. incoming_term msg = Some t \<and> t > r_current_term s")
  case True
  then obtain t where t: "incoming_term msg = Some t" "t > r_current_term s" by blast
  then obtain b where b: "evolves ordered N n acc a b"
      "ac_core b n = (core_of norm s)\<lparr>co_term := t, co_vote := None, co_role := Follower, co_votes := {}\<rparr>"
    using abs_bump [OF reach fin nsimD(1) [OF sim]] nsimD(4) [OF sim] by auto
  have "nsim norm N b n (bump_term e msg s)"
    by (rule nsimI [OF sim b(1)])
       (use t in \<open>simp_all add: b(2) bump_term_def raft_become_follower_def Let_def core_of_def\<close>)
  with b(1) show ?thesis by blast
next
  case False
  then have "bump_term e msg s = s" by (auto simp: bump_term_def split: option.splits)
  with sim evolves_refl [OF reach] show ?thesis by auto
qed

lemma bump_term_le: "incoming_term msg = Some t \<Longrightarrow> t \<le> r_current_term (bump_term e msg s)"
  by (auto simp: bump_term_def raft_become_follower_def Let_def)

lemma sim_request_vote:
  assumes reach: "areach ordered N a" and fin: "finite N" and sim: "nsim norm N a n s"
    and msg: "arrives norm a from n (RequestVote t cand li lt)" and t: "t \<le> r_current_term s"
  shows "refines ordered norm N acc a n (handle_request_vote e t cand li lt s)"
proof -
  let ?r = "handle_request_vote e t cand li lt s"
  let ?grant = "t = r_current_term s \<and> (r_voted_for s = None \<or> r_voted_for s = Some cand)
    \<and> candidate_log_at_least_as_up_to_date s lt li"
  have net: "(from, n, RequestVote t cand li lt) \<in> ac_net a" using msg by (simp add: arrives_def)
  then have "cand = from" using areach_safe [OF reach fin] unfolding safe_inv_def asker_inv_def by blast
  show ?thesis
  proof (cases ?grant)
    case True
    with net \<open>cand = from\<close> nsimD(4) [OF sim] up_to_date_core [of norm s lt li]
    obtain b where b: "evolves ordered N n acc a b" "ac_core b n = (core_of norm s)\<lparr>co_vote := Some cand\<rparr>"
        "(n, cand, RequestVoteResponse (r_current_term s) True) \<in> ac_net b"
      using abs_grant [OF reach fin nsimD(1) [OF sim], of cand li lt acc] by auto
    have r: "?r = (s\<lparr>r_voted_for := Some cand, r_pending_persist_voted_for := True,
        r_election_deadline := clock e + sample_election_timeout e (r_config s)\<rparr>,
        [Outgoing (Peer cand) (RequestVoteResponse (r_current_term s) True)])"
      using True by (auto simp: handle_request_vote_def Let_def split: option.splits)
    have "nsim norm N b n (fst ?r)"
    proof (rule nsimI [OF sim b(1)])
      show "match_ok N b (fst ?r)" if "r_role (fst ?r) = Leader"
        by (rule match_ok_evolves [OF nsimD(5) [OF sim] b(1)]) (use that in \<open>simp_all add: r\<close>)
    qed (simp_all add: r b(2) core_of_def)
    moreover have "outs_ok norm N b n (snd ?r)" using b(3) by (auto simp: r outs_ok_def sends_def)
    ultimately show ?thesis using b(1) by (auto simp: refines_def)
  next
    case False
    then have "?r = (s, [Outgoing (Peer cand) (RequestVoteResponse (r_current_term s) False)])"
      using t by (auto simp: handle_request_vote_def Let_def split: option.splits)
    with sim show ?thesis by (intro refines_untracked [OF reach]) simp_all
  qed
qed

lemma sim_vote_response:
  assumes reach: "areach ordered N a" and fin: "finite N" and sim: "nsim norm N a n s"
    and msg: "arrives norm a from n (RequestVoteResponse t granted)"
    and r: "handle_request_vote_response e from t granted s = Some r"
  shows "refines ordered norm N acc a n r"
proof (cases "r_role s = Candidate \<and> t = r_current_term s \<and> granted")
  case True
  let ?s = "s\<lparr>r_votes_received := insert from (r_votes_received s)\<rparr>"
  obtain b where b: "evolves ordered N n acc a b"
      "ac_core b n = (core_of norm s)\<lparr>co_votes := insert from (r_votes_received s)\<rparr>"
    using abs_tally [OF reach fin nsimD(1) [OF sim], of "from" acc] nsimD(4) [OF sim] True msg
    by (auto simp: arrives_def)
  have sim': "nsim norm N b n ?s"
    by (rule nsimI [OF sim b(1)]) (use True in \<open>simp_all add: b(2) core_of_def\<close>)
  show ?thesis
  proof (cases "raft_quorum s \<le> card (insert from (r_votes_received s))")
    case quorum: True
    then have "raft_become_leader e ?s = Some r"
      using r True by (simp add: handle_request_vote_response_def Let_def raft_quorum_def)
    from sim_become_leader [OF evolves_reach [OF b(1)] fin sim' _ _ this] quorum True
    show ?thesis by (intro refines_trans [OF b(1)]) (simp add: raft_quorum_def)
  next
    case False
    then have "r = (?s, [])"
      using r True by (auto simp: handle_request_vote_response_def Let_def raft_quorum_def)
    then show ?thesis
      using refines_trans [OF b(1) refines_silent [OF evolves_reach [OF b(1)] sim']] by simp
  qed
next
  case False
  then have "r = (s, [])" using r by (auto simp: handle_request_vote_response_def split: if_splits)
  with refines_silent [OF reach sim] show ?thesis by simp
qed

lemma sim_append_response:
  assumes reach: "areach ordered N a" and fin: "finite N" and sim: "nsim norm N a n s" and "from": "from \<in> N"
    and msg: "arrives norm a from n (AppendEntriesResponse t success mi ct ci)"
    and r: "handle_append_entries_response from t success mi ct ci s = Some r"
  shows "refines ordered norm N acc a n r"
proof (cases "r_role s = Leader \<and> t = r_current_term s")
  case False
  then have "r = (s, [])" using r by (auto simp: handle_append_entries_response_def)
  with refines_silent [OF reach sim] show ?thesis by simp
next
  case True
  show ?thesis
  proof (cases success)
    case False
    let ?k = "backoff_next_index s from ct ci"
    have k: "?k \<le> length (r_log s)" by (simp add: backoff_next_index_def Let_def)
    let ?msg = "AppendEntries (r_current_term s) n (ae_prev ?k) (ae_prev_term ?k (r_log s))
        (drop ?k (r_log s)) (r_commit_index s)"
    have "r = (s\<lparr>r_last_heartbeat_sent := r_last_heartbeat_sent s,
        r_next_index := hm_insert from ?k (r_next_index s)\<rparr>, [Outgoing (Peer from) ?msg])"
      using r True False nsimD(2) [OF sim]
      by (auto simp: handle_append_entries_response_def Let_def ae_prev_def ae_prev_term_def)
    moreover have "norm_msg norm ?msg = ae_from n (core_of norm s) ?k"
      using k by (auto simp: ae_from_def ae_prev_term_def drop_map)
    ultimately show ?thesis using sim_broadcast [OF reach fin sim _ k] True by blast
  next
    case ok: True
    show ?thesis
    proof (cases "\<exists>i. mi = Some i \<and> i < length (r_log s)")
      case i: True
      then obtain i where i: "mi = Some i" "i < length (r_log s)" by blast
      let ?s = "s\<lparr>r_match_index := hm_insert from (Some i) (r_match_index s),
          r_next_index := hm_insert from (i + 1) (r_next_index s)\<rparr>"
      have "(from, n, AppendEntriesResponse (r_current_term s) True (Some i) ct ci) \<in> ac_net a"
        using msg True ok i by (simp add: arrives_def)
      then have "i < ac_acked a from (r_current_term s)"
        using areach_safe [OF reach fin] unfolding safe_inv_def reply_inv_def by blast
      then have "match_ok N a ?s"
        by (rule match_ok_insert [OF nsimD(5) [OF sim] evolves_refl [OF reach] "from", rotated])
           (use True in simp_all)
      with sim have sim': "nsim norm N a n ?s" by (auto simp: nsim_def core_of_def)
      have "\<exists>s2. try_advance_commit ?s = Some s2 \<and> r = (s2, [])"
        using r True ok i by (auto simp: handle_append_entries_response_def Let_def split: if_splits)
      with sim_advance [OF reach fin sim', of _ acc] True obtain b s2 where
        "evolves ordered N n acc a b" "nsim norm N b n s2" "r = (s2, [])" by auto
      then show ?thesis by (auto simp: refines_def)
    next
      case False
      then have "r = (s, [])"
        using r True ok by (auto simp: handle_append_entries_response_def Let_def split: option.splits if_splits)
      with refines_silent [OF reach sim] show ?thesis by simp
    qed
  qed
qed

text \<open>What an accepted \<open>AppendEntries\<close> does before the committed entries are applied.\<close>

definition accepted_state ::
  "env \<Rightarrow> node_id \<Rightarrow> u64 option \<Rightarrow> 'v log_entry list \<Rightarrow> ('v, 's) raft_protocol \<Rightarrow> ('v, 's) raft_protocol" where
  "accepted_state e leader prev ens s =
     truncate_unverified (verified_index prev (length ens)) (append_loop (append_start prev) ens
       (s\<lparr>r_role := Follower, r_leader := Some leader,
          r_election_deadline := clock e + sample_election_timeout e (r_config s)\<rparr>))"

lemma handle_append_entries_cases:
  assumes r: "handle_append_entries e t leader prev pt ens lc s = Some r" and t: "t \<le> r_current_term s"
  obtains (reject) s1 out where "r = (s1, [out])" "\<not> tracked (o_message out)"
      "s1 = s \<or> r_role s \<noteq> Leader \<and> s1 = s\<lparr>r_role := Follower, r_leader := Some leader,
         r_election_deadline := clock e + sample_election_timeout e (r_config s)\<rparr>"
  | (accept) s4 where "t = r_current_term s" "r_role s \<noteq> Leader" "prev_ok (r_log s) prev pt"
      "update_commit lc (verified_index prev (length ens)) (accepted_state e leader prev ens s) = Some s4"
      "r = (s4\<lparr>r_pending_proposals := []\<rparr>,
        Outgoing (Peer leader) (AppendEntriesResponse (r_current_term s4) True (verified_index prev (length ens)) None None)
        # map (\<lambda>value. Outgoing (Peer leader) (RForward value 0)) (r_pending_proposals s4))"
proof (cases "t = r_current_term s \<and> r_role s \<noteq> Leader")
  case act: True
  let ?s = "s\<lparr>r_role := Follower, r_leader := Some leader,
     r_election_deadline := clock e + sample_election_timeout e (r_config s)\<rparr>"
  show thesis
  proof (cases "prev_ok (r_log s) prev pt")
    case True
    have "\<exists>s4. update_commit lc (verified_index prev (length ens)) (accepted_state e leader prev ens s) = Some s4
      \<and> r = (s4\<lparr>r_pending_proposals := []\<rparr>,
      Outgoing (Peer leader) (AppendEntriesResponse (r_current_term s4) True (verified_index prev (length ens)) None None)
      # map (\<lambda>value. Outgoing (Peer leader) (RForward value 0)) (r_pending_proposals s4))"
      using r act True
      by (auto simp: handle_append_entries_def prev_ok_def accepted_state_def append_start_def Let_def
          split: Option.bind_splits option.splits)
    with act True show thesis by (auto intro: accept)
  next
    case False
    then have "\<exists>ct ci. r = (?s, reject_append leader (r_current_term s) ct ci)"
      using r act by (auto simp: handle_append_entries_def prev_ok_def Let_def split: option.splits prod.splits)
    with act show thesis by (auto simp: reject_append_def intro: reject)
  qed
next
  case False
  with r t have "r = (s, reject_append leader (r_current_term s) None None)"
    by (auto simp: handle_append_entries_def Let_def split: if_splits)
  then show thesis by (auto simp: reject_append_def intro: reject)
qed

lemma sim_append_entries:
  assumes reach: "areach ordered N a" and fin: "finite N" and sim: "nsim norm N a n s"
    and msg: "arrives norm a from n (AppendEntries t leader prev pt ens lc)" and t: "t \<le> r_current_term s"
    and order: "ordered \<Longrightarrow> ac_acked a n t \<le> append_start prev + length ens"
    and r: "handle_append_entries e t leader prev pt ens lc s = Some r"
  shows "refines ordered norm N (Some (t, append_start prev + length ens)) a n r"
  using r t
proof (cases rule: handle_append_entries_cases)
  case (reject s1 out)
  obtain b where b: "evolves ordered N n (Some (t, append_start prev + length ens)) a b" "nsim norm N b n s1"
  proof (cases "s1 = s")
    case True
    with that [of a] sim evolves_refl [OF reach] show thesis by simp
  next
    case False
    with reject(3) have role: "r_role s \<noteq> Leader" by simp
    with abs_follow [OF reach fin nsimD(1) [OF sim]] nsimD(4) [OF sim] obtain b where
      b: "evolves ordered N n (Some (t, append_start prev + length ens)) a b"
        "ac_core b n = (core_of norm s)\<lparr>co_role := Follower\<rparr>" by auto
    have "nsim norm N b n s1"
      by (rule nsimI [OF sim b(1)]) (use reject(3) False in \<open>auto simp: b(2) core_of_def\<close>)
    with that b(1) show thesis by blast
  qed
  show ?thesis
    by (rule refines_trans [OF b(1) refines_untracked [OF evolves_reach [OF b(1)]]])
       (use b(2) reject(1,2) in simp_all)
next
  case (accept s4)
  let ?s = "accepted_state e leader prev ens s"
  have net: "(from, n, AppendEntries t leader prev pt (map (map_entry norm) ens) lc) \<in> ac_net a"
    using msg by (simp add: arrives_def)
  then have lead: "from = leader" using areach_safe [OF reach fin] unfolding safe_inv_def ae_inv_def by blast
  have pok: "prev_ok (map (map_entry norm) (r_log s)) prev pt"
    using accept(3) by (auto simp: prev_ok_def split: option.splits)
  obtain b where b: "evolves ordered N n (Some (t, append_start prev + length ens)) a b"
      "ac_core b n = (core_of norm s)\<lparr>co_role := Follower,
        co_log := map (map_entry norm) (accepted_log prev ens (r_log s)),
        co_commit := learn_commit lc (verified_index prev (length ens)) (r_commit_index s)\<rparr>"
      "(n, leader, AppendEntriesResponse t True (verified_index prev (length ens)) None None) \<in> ac_net b"
    using abs_accept [OF reach fin nsimD(1) [OF sim], of leader prev pt "map (map_entry norm) ens" lc]
      net lead accept(1,2) pok order nsimD(4) [OF sim] by (auto simp: accepted_log_map)
  have start: "append_start prev \<le> length (r_log s)"
    using accept(3) by (auto simp: prev_ok_def append_start_def split: option.splits)
  have log: "r_log ?s = accepted_log prev ens (r_log s)"
    using truncated_log [of prev "s\<lparr>r_role := Follower, r_leader := Some leader,
          r_election_deadline := clock e + sample_election_timeout e (r_config s)\<rparr>"] start
    by (simp add: accepted_state_def)
  obtain c where c: "evolves ordered N n (Some (t, append_start prev + length ens)) b c" "nsim norm N c n s4"
    "r_current_term s4 = t"
  proof -
    let ?ci = "learn_commit lc (verified_index prev (length ens)) (r_commit_index s)"
    have upd: "s4 = ?s \<and> ?ci = r_commit_index s
      \<or> apply_committed_entries (?s\<lparr>r_commit_index := ?ci, r_pending_persist_commit_index := True\<rparr>) = Some s4
        \<and> opt_key (r_commit_index s) \<le> opt_key ?ci"
      using accept(4)
      by (auto simp: update_commit_def learn_commit_def later_def accepted_state_def Let_def opt_key_def
          split: option.splits if_splits)
    from upd show thesis
    proof
      assume s4: "s4 = ?s \<and> ?ci = r_commit_index s"
      have "nsim norm N b n s4"
        by (rule nsimI [OF sim b(1)]) (use s4 log in \<open>simp_all add: b(2) core_of_def accepted_state_def\<close>)
      with that [OF evolves_refl [OF evolves_reach [OF b(1)]]] s4 accept(1) show thesis
        by (simp add: accepted_state_def)
    next
      let ?s' = "?s\<lparr>r_commit_index := ?ci, r_pending_persist_commit_index := True\<rparr>"
      assume ap: "apply_committed_entries ?s' = Some s4 \<and> opt_key (r_commit_index s) \<le> opt_key ?ci"
      have "nsim norm N b n ?s'"
        by (rule nsimI [OF sim b(1)]) (use ap log in \<open>simp_all add: b(2) core_of_def accepted_state_def\<close>)
      from sim_apply [OF evolves_reach [OF b(1)] fin this] ap
      obtain c where "evolves ordered N n (Some (t, append_start prev + length ens)) b c" "nsim norm N c n s4"
        by blast
      moreover have "r_current_term s4 = t"
        using ap accept(1) by (auto elim!: apply_committed_entries_frame simp: accepted_state_def)
      ultimately show thesis by (rule that)
    qed
  qed
  have "nsim norm N c n (fst r)"
    by (rule nsim_frame [OF c(2)]) (simp_all add: accept(5) core_of_def)
  moreover have "outs_ok norm N c n (snd r)"
    using b(3) c(1,3) by (auto simp: accept(5) outs_ok_def sends_def evolves_def)
  ultimately show ?thesis using evolves_trans [OF b(1) c(1)] by (auto simp: refines_def)
qed

text \<open>The length of log an \<open>AppendEntries\<close> covers.\<close>

fun covers :: "'v raft_message \<Rightarrow> (u64 \<times> nat) option" where
  "covers (AppendEntries t _ prev _ ens _) = Some (t, append_start prev + length ens)"
| "covers _ = None"

lemma sim_forward:
  assumes reach: "areach ordered N a" and fin: "finite N" and sim: "nsim norm N a n s"
    and r: "handle_raft_forward e from value hops s = Some r"
  shows "refines ordered norm N acc a n r"
proof (cases "r_role s = Leader")
  case True
  with r sim_propose [OF reach fin sim] show ?thesis by (simp add: handle_raft_forward_def)
next
  case False
  with r have "fst r = s \<or> fst r = s\<lparr>r_pending_proposals := r_pending_proposals s @ [value]\<rparr>"
    "\<forall>out\<in>set (snd r). \<not> tracked (o_message out)"
    by (auto simp: handle_raft_forward_def Let_def split: option.splits if_splits)
  moreover from this(1) have "nsim norm N a n (fst r)"
    by (auto intro: nsim_frame [OF sim] simp: core_of_def sim)
  ultimately show ?thesis by (intro refines_untracked [OF reach])
qed

lemma sim_handle_message:
  assumes reach: "areach ordered N a" and fin: "finite N" and sim: "nsim norm N a n s" and "from": "from \<in> N"
    and msg: "arrives norm a from n msg"
    and order: "\<And>t k. ordered \<Longrightarrow> covers msg = Some (t, k) \<Longrightarrow> ac_acked a n t \<le> k"
    and r: "raft_handle_message e from msg s = Some r"
  shows "refines ordered norm N (covers msg) a n r"
proof -
  let ?s = "bump_term e msg s"
  obtain b where b: "evolves ordered N n None a b" "nsim norm N b n ?s"
    using sim_bump_term [OF reach fin sim] by blast
  have ab: "evolves ordered N n (covers msg) a b" using b(1) by (auto simp: evolves_def)
  note b' = evolves_reach [OF b(1)] fin b(2)
  note msg' = arrives_evolves [OF msg b(1)]
  have "refines ordered norm N (covers msg) b n r"
  proof (cases msg)
    case (RequestVote t cand li lt)
    with r bump_term_le [of msg t e s] sim_request_vote [OF b', where e = e and acc = None] msg' show ?thesis
      by (auto simp: raft_handle_message_def Let_def incoming_term_def)
  next
    case (RequestVoteResponse t granted)
    with r sim_vote_response [OF b', of "from" t granted] msg' show ?thesis
      by (simp add: raft_handle_message_def Let_def)
  next
    case (AppendEntries t leader prev pt ens lc)
    have "ac_acked b n t \<le> append_start prev + length ens" if ordered
    proof -
      have "ac_acked a n t \<le> append_start prev + length ens" using order that AppendEntries by simp
      moreover have "\<not> (\<exists>k l. ac_lead b t = Some (n, k, l))"
      proof
        assume "\<exists>k l. ac_lead b t = Some (n, k, l)"
        then obtain k l where "ac_lead b t = Some (n, k, l)" by blast
        moreover have "(from, n, AppendEntries t leader prev pt (map (map_entry norm) ens) lc) \<in> ac_net b"
          using msg' AppendEntries by (simp add: arrives_def)
        ultimately show False
          using areach_safe [OF b'(1) fin] unfolding safe_inv_def ae_inv_def net_inv_def
          by (metis option.inject prod.inject)
      qed
      ultimately show ?thesis using b(1) unfolding evolves_def by (metis option.distinct(1))
    qed
    with r bump_term_le [of msg t e s] sim_append_entries [OF b', of "from" t leader prev pt ens lc e r]
      AppendEntries msg' show ?thesis
      by (simp add: raft_handle_message_def Let_def incoming_term_def)
  next
    case (AppendEntriesResponse t success mi ct ci)
    with r sim_append_response [OF b' "from", of t success mi ct ci] msg' show ?thesis
      by (simp add: raft_handle_message_def Let_def)
  next
    case (RForward v hops)
    with r sim_forward [OF b'] show ?thesis by (simp add: raft_handle_message_def Let_def)
  qed
  then show ?thesis by (rule refines_trans [OF ab])
qed

lemma sim_on_tick:
  assumes reach: "areach ordered N a" and fin: "finite N" and sim: "nsim norm N a n s"
    and small: "r_current_term s < u64_max" and r: "raft_on_tick e now s = Some r"
  shows "refines ordered norm N acc a n r"
proof (cases "r_role s = Leader")
  case True
  with r have "r = broadcast_heartbeat e s \<or> r = (s, [])"
    by (auto simp: raft_on_tick_def Let_def split: if_splits)
  with sim_heartbeat [OF reach fin sim True] refines_silent [OF reach sim] show ?thesis by auto
next
  case False
  with r have "raft_start_election e s = Some r \<or> r = (s, [])"
    by (auto simp: raft_on_tick_def split: role.splits if_splits)
  with sim_start_election [OF reach fin sim False small] refines_silent [OF reach sim] show ?thesis by blast
qed

end
