(* ===== verification/RaftPersist.thy ===== *)
theory RaftPersist
  imports RaftLocal
begin

text \<open>
  Persistence of a Raft node: every operation records in the pending flags exactly the writes
  that bring the storage up to date with memory; \<open>flush_persist\<close> performs them, for any storage
  that meets the contract of \<open>Storage\<close>, and recovery restores what was flushed. No operation
  panics.
\<close>

section \<open>Operations never panic\<close>

lemma try_advance_bind_total: "\<exists>r. Option.bind (try_advance_commit s) (\<lambda>s'. Some (f s')) = Some r"
  using try_advance_commit_total [of s] by auto

lemma raft_become_leader_total: "\<exists>r. raft_become_leader e s = Some r"
  by (simp add: raft_become_leader_def Let_def try_advance_bind_total del: split_paired_Ex)

lemma update_commit_total:
  assumes "\<And>l. match_idx = Some l \<Longrightarrow> l < length (r_log s)"
  shows "\<exists>s'. update_commit lc match_idx s = Some s'"
proof (cases "(lc, match_idx)")
  case (Pair a b)
  show ?thesis
  proof (cases "\<exists>x y. lc = Some x \<and> match_idx = Some y")
    case True
    then obtain x y where xy: "lc = Some x" "match_idx = Some y" by blast
    have "\<exists>s'. apply_committed_entries
        (s\<lparr>r_commit_index := Some (min x y), r_pending_persist_commit_index := True\<rparr>) = Some s'"
      using assms [OF xy(2)] by (intro apply_committed_entries_total) auto
    with xy show ?thesis by (auto simp: update_commit_def Let_def)
  qed (auto simp: update_commit_def split: option.splits)
qed

lemma handle_append_entries_total: "\<exists>r. handle_append_entries e t l prev pt ens lc s = Some r"
proof (cases "t < r_current_term s \<or> t = r_current_term s \<and> r_role s = Leader")
  case True
  then show ?thesis by (auto simp: handle_append_entries_def)
next
  case False
  let ?s = "s\<lparr>r_role := Follower, r_leader := Some l,
     r_election_deadline := clock e + sample_election_timeout e (r_config s)\<rparr>"
  show ?thesis
  proof (cases "case prev of None \<Rightarrow> True | Some i \<Rightarrow> i < length (r_log s) \<and> e_term (r_log s ! i) = pt")
    case True
    let ?s3 = "truncate_unverified (verified_index prev (length ens)) (append_loop (append_start prev) ens ?s)"
    have start: "append_start prev \<le> length (r_log ?s)"
      using True by (auto simp: append_start_def split: option.splits)
    have "m < length (r_log ?s3)" if "verified_index prev (length ens) = Some m" for m
    proof -
      have "\<not> (prev = None \<and> ens = [])" using that by auto
      from accepted_log_length [OF start this] truncated_log [OF start, of ens] verified_index_Some [OF that]
      show ?thesis by simp
    qed
    then obtain s4 where "update_commit lc (verified_index prev (length ens)) ?s3 = Some s4"
      using update_commit_total by blast
    with True False show ?thesis
      by (auto simp: handle_append_entries_def append_start_def Let_def split: option.splits)
  qed (use False in \<open>auto simp: handle_append_entries_def Let_def split: prod.splits option.splits\<close>)
qed

lemma handle_append_entries_response_total: "\<exists>r. handle_append_entries_response m t ok mi ct ci s = Some r"
  using try_advance_commit_total
  by (auto simp: handle_append_entries_response_def Let_def split: option.splits)

lemma raft_propose_total: "\<exists>r. raft_propose e v s = Some r"
  by (simp add: raft_propose_def Let_def try_advance_bind_total del: split_paired_Ex split: option.split)

lemma raft_start_election_total: "\<exists>r. raft_start_election e s = Some r"
  using raft_become_leader_total by (auto simp: raft_start_election_def Let_def)

lemma raft_handle_message_total: "\<exists>r. raft_handle_message e m msg s = Some r"
proof (cases msg)
  case (RequestVoteResponse t g)
  then show ?thesis
    using raft_become_leader_total
    by (auto simp: raft_handle_message_def handle_request_vote_response_def Let_def)
next
  case (AppendEntries t l prev pt ens lc)
  then show ?thesis using handle_append_entries_total by (auto simp: raft_handle_message_def Let_def)
next
  case (AppendEntriesResponse t ok mi ct ci)
  then show ?thesis using handle_append_entries_response_total by (auto simp: raft_handle_message_def Let_def)
next
  case (RForward v hops)
  then show ?thesis
    using raft_propose_total
    by (auto simp: raft_handle_message_def handle_raft_forward_def Let_def split: option.splits)
qed (simp add: raft_handle_message_def Let_def)

lemma raft_on_tick_total: "\<exists>r. raft_on_tick e now s = Some r"
  using raft_start_election_total by (auto simp: raft_on_tick_def Let_def split: role.splits)

lemma min_last_less: "log \<noteq> [] \<Longrightarrow> min c (length log - Suc 0) < length log"
  by (cases log) auto

lemma restore_state_total: "\<exists>s'. restore_state e t v log ds ci s = Some s'"
  unfolding restore_state_def Let_def
  by (rule apply_committed_entries_total) (auto simp: min_last_less split: if_splits option.splits)

section \<open>What the operations leave to be written\<close>

definition clean :: "('v, 's) raft_protocol \<Rightarrow> bool" where
  "clean s \<longleftrightarrow> \<not> r_pending_persist_term s \<and> \<not> r_pending_persist_voted_for s \<and> r_pending_persist_log_from s = None
     \<and> r_pending_truncate_from s = None \<and> \<not> r_pending_persist_commit_index s"

text \<open>The flags of \<open>s\<close> cover every change since the state \<open>old\<close> that is on disk.\<close>

definition flags_ok :: "('v, 's) raft_protocol \<Rightarrow> ('v, 's) raft_protocol \<Rightarrow> bool" where
  "flags_ok old s \<longleftrightarrow> r_storage s = r_storage old
     \<and> (r_pending_persist_term s \<or> r_current_term s = r_current_term old)
     \<and> (r_pending_persist_voted_for s \<or> r_voted_for s = r_voted_for old)
     \<and> (r_pending_persist_commit_index s \<or> r_commit_index s = r_commit_index old)
     \<and> opt_key (r_commit_index old) \<le> opt_key (r_commit_index s)"

definition intent_ok :: "('v, 's) raft_protocol \<Rightarrow> ('v, 's) raft_protocol \<Rightarrow> bool" where
  "intent_ok old s \<longleftrightarrow> flags_ok old s \<and> log_intent_ok (r_log old) s"

definition log_kept :: "('v, 's) raft_protocol \<Rightarrow> ('v, 's) raft_protocol \<Rightarrow> bool" where
  "log_kept old s \<longleftrightarrow> flags_ok old s \<and> r_log s = r_log old \<and> r_pending_truncate_from s = None
     \<and> r_pending_persist_log_from s = None"

lemma clean_log_kept: "clean s \<Longrightarrow> log_kept s s"
  by (simp add: clean_def log_kept_def flags_ok_def)

lemma log_kept_intent: "log_kept old s \<Longrightarrow> intent_ok old s"
  by (simp add: log_kept_def intent_ok_def log_intent_ok_def)

lemmas intent_defs = log_kept_def flags_ok_def intent_ok_def log_intent_ok_def

lemma intent_frame:
  assumes "intent_ok old s" and "r_log s' = r_log s" and "r_pending_truncate_from s' = r_pending_truncate_from s"
    and "r_pending_persist_log_from s' = r_pending_persist_log_from s" and "flags_ok old s'"
  shows "intent_ok old s'"
  using assms by (simp add: intent_ok_def log_intent_ok_def cong: option.case_cong)

lemma apply_committed_intent:
  assumes "apply_committed_entries s = Some s'" and "intent_ok old s"
  shows "intent_ok old s'"
  using assms(1)
proof (rule apply_committed_entries_frame)
  fix ds la assume "s' = s\<lparr>r_pending_decisions := r_pending_decisions s @ ds, r_last_applied := la\<rparr>"
  then show ?thesis
    by (intro intent_frame [OF assms(2)]) (use assms(2) in \<open>simp_all add: intent_ok_def flags_ok_def\<close>)
qed

lemma try_advance_intent:
  assumes "try_advance_commit s = Some s'" and "intent_ok old s"
  shows "intent_ok old s'"
  using assms(1)
proof (cases rule: try_advance_commit_cases)
  case (2 c ds la)
  have "opt_key (r_commit_index s) \<le> opt_key (Some c)"
    using 2(3) by (auto simp: opt_key_def less_imp_le split: option.split)
  with 2 show ?thesis
    by (intro intent_frame [OF assms(2)]) (use assms(2) in \<open>simp_all add: intent_ok_def flags_ok_def\<close>)
qed (use assms(2) in simp)

lemma broadcast_intent:
  assumes "intent_ok old s"
  shows "intent_ok old (fst (broadcast_heartbeat e s))"
    and "intent_ok old (fst (broadcast_with_entries e ens s))"
proof -
  have "intent_ok old (s\<lparr>r_last_heartbeat_sent := Some (clock e)\<rparr>)"
    by (rule intent_frame [OF assms]) (use assms in \<open>simp_all add: intent_ok_def flags_ok_def\<close>)
  then show "intent_ok old (fst (broadcast_heartbeat e s))" "intent_ok old (fst (broadcast_with_entries e ens s))"
    by (simp_all add: broadcast_heartbeat_def broadcast_with_entries_def Let_def)
qed

lemma bump_term_kept: "log_kept old s \<Longrightarrow> log_kept old (bump_term e msg s)"
  by (auto simp: bump_term_def raft_become_follower_def Let_def log_kept_def flags_ok_def split: option.splits)

text \<open>Entries pushed at the end of the log are scheduled from the old length.\<close>

lemma push_intent:
  assumes "log_kept old s" and "r_log s' = r_log s @ ens" and "r_pending_persist_log_from s' = Some (length (r_log s))"
    and "r_pending_truncate_from s' = None" and "flags_ok old s'"
  shows "intent_ok old s'"
  using assms by (simp add: intent_defs)

lemma become_leader_intent:
  assumes kept: "log_kept old s" and r: "raft_become_leader e s = Some r"
  shows "intent_ok old (fst r)"
proof (cases "r_pending_proposals s = []")
  case True
  let ?s = "s\<lparr>r_role := Leader, r_leader := Some (r_node_id s), r_next_index := [],
     r_match_index := (if r_log s = [] then [] else hm_insert (r_node_id s) (Some (length (r_log s) - 1)) []),
     r_pending_proposals := []\<rparr>"
  have "log_kept old ?s" using kept by (simp add: log_kept_def flags_ok_def)
  moreover have "r = broadcast_heartbeat e ?s" using r True by (simp add: raft_become_leader_def Let_def)
  ultimately show ?thesis using broadcast_intent(1) log_kept_intent by blast
next
  case False
  let ?s0 = "s\<lparr>r_role := Leader, r_leader := Some (r_node_id s), r_next_index := [],
     r_match_index := (if r_log s = [] then [] else hm_insert (r_node_id s) (Some (length (r_log s) - 1)) []),
     r_pending_proposals := []\<rparr>"
  let ?ens = "map (LogEntry (r_current_term s)) (r_pending_proposals s)"
  let ?s = "?s0\<lparr>r_log := r_log s @ ?ens,
     r_pending_persist_log_from := (case r_pending_persist_log_from s of None \<Rightarrow> Some (length (r_log s)) | Some i \<Rightarrow> Some i),
     r_match_index := hm_insert (r_node_id s) (Some (length (r_log s) + length ?ens - 1)) (r_match_index ?s0)\<rparr>"
  have "intent_ok old ?s"
    by (rule push_intent [OF kept]) (use kept in \<open>simp_all add: log_kept_def flags_ok_def\<close>)
  moreover have "\<exists>s5. try_advance_commit ?s = Some s5 \<and> r = broadcast_with_entries e ?ens s5"
    using r False by (auto simp: raft_become_leader_def Let_def split: Option.bind_splits)
  ultimately show ?thesis using try_advance_intent broadcast_intent(2) by blast
qed

lemma start_election_intent:
  assumes kept: "log_kept old s" and r: "raft_start_election e s = Some r"
  shows "intent_ok old (fst r)"
proof -
  let ?s = "s\<lparr>r_current_term := u64_add (r_current_term s) 1, r_role := Candidate,
     r_voted_for := Some (r_node_id s), r_votes_received := {r_node_id s}, r_leader := None,
     r_election_deadline := clock e + sample_election_timeout e (r_config s),
     r_pending_persist_term := True, r_pending_persist_voted_for := True\<rparr>"
  have kept': "log_kept old ?s" using kept by (simp add: log_kept_def flags_ok_def)
  show ?thesis
  proof (cases "raft_become_leader e ?s = Some r")
    case True
    with become_leader_intent [OF kept'] show ?thesis .
  next
    case False
    with r have "fst r = ?s \<or> (\<exists>lost. fst r = ?s\<lparr>r_lost_proposals := lost, r_pending_proposals := []\<rparr>)"
      by (auto simp: raft_start_election_def Let_def split: if_splits)
    with kept' have "log_kept old (fst r)" by (auto simp: log_kept_def flags_ok_def)
    then show ?thesis by (rule log_kept_intent)
  qed
qed

lemma propose_intent:
  assumes kept: "log_kept old s" and r: "raft_propose e v s = Some r"
  shows "intent_ok old (fst r)"
proof (cases "r_role s = Leader")
  case True
  let ?s = "s\<lparr>r_log := r_log s @ [LogEntry (r_current_term s) v],
     r_pending_persist_log_from := Some (length (r_log s)),
     r_match_index := hm_insert (r_node_id s) (Some (length (r_log s))) (r_match_index s)\<rparr>"
  have "intent_ok old ?s"
    by (rule push_intent [OF kept]) (use kept in \<open>simp_all add: log_kept_def flags_ok_def\<close>)
  moreover obtain s2 where "try_advance_commit ?s = Some s2"
      "r = broadcast_with_entries e [LogEntry (r_current_term s) v] s2"
    using r True kept by (auto simp: raft_propose_def Let_def log_kept_def split: Option.bind_splits)
  ultimately show ?thesis using try_advance_intent broadcast_intent(2) by blast
next
  case False
  with r kept have "log_kept old (fst r)"
    by (auto simp: raft_propose_def log_kept_def flags_ok_def split: option.splits)
  then show ?thesis by (rule log_kept_intent)
qed

lemma append_entries_intent:
  assumes kept: "log_kept old s" and r: "handle_append_entries e t l prev pt ens lc s = Some r"
  shows "intent_ok old (fst r)"
proof -
  let ?s1 = "s\<lparr>r_role := Follower, r_leader := Some l,
     r_election_deadline := clock e + sample_election_timeout e (r_config s)\<rparr>"
  let ?ok = "case prev of None \<Rightarrow> True | Some i \<Rightarrow> i < length (r_log s) \<and> e_term (r_log s ! i) = pt"
  have kept1: "log_kept old ?s1" using kept by (simp add: log_kept_def flags_ok_def)
  show ?thesis
  proof (cases "t < r_current_term s \<or> t = r_current_term s \<and> r_role s = Leader \<or> \<not> ?ok")
    case True
    with r have "fst r = s \<or> fst r = ?s1"
      by (auto simp: handle_append_entries_def Let_def split: if_splits prod.splits option.splits)
    with kept kept1 show ?thesis using log_kept_intent by metis
  next
    case False
    let ?s3 = "truncate_unverified (verified_index prev (length ens)) (append_loop (append_start prev) ens ?s1)"
    have ok: ?ok using False by blast
    have start: "append_start prev \<le> length (r_log ?s1)"
      using ok by (auto simp: append_start_def split: option.splits)
    have "log_intent_ok (r_log old) ?s3"
      using accepted_log_intent [OF _ _ start, of ens] kept1 by (simp add: log_kept_def)
    then have s3: "intent_ok old ?s3" using kept1 by (simp add: intent_ok_def log_kept_def flags_ok_def)
    obtain s4 where s4: "update_commit lc (verified_index prev (length ens)) ?s3 = Some s4"
        "fst r = s4\<lparr>r_pending_proposals := []\<rparr>"
      using r False ok
      by (auto simp: handle_append_entries_def append_start_def Let_def split: Option.bind_splits option.splits)
    have "intent_ok old s4"
    proof (cases "s4 = ?s3")
      case False
      with s4(1) obtain ci where
        ap: "apply_committed_entries (?s3\<lparr>r_commit_index := ci, r_pending_persist_commit_index := True\<rparr>) = Some s4"
          "opt_key (r_commit_index s) \<le> opt_key ci"
        by (auto simp: update_commit_def Let_def opt_key_def split: option.splits if_splits)
      have "intent_ok old (?s3\<lparr>r_commit_index := ci, r_pending_persist_commit_index := True\<rparr>)"
        by (rule intent_frame [OF s3]) (use s3 ap(2) in \<open>simp_all add: intent_ok_def flags_ok_def\<close>)
      with ap(1) show ?thesis by (rule apply_committed_intent)
    qed (use s3 in simp)
    then show ?thesis
      by (rule intent_frame) (use \<open>intent_ok old s4\<close> in \<open>simp_all add: s4(2) intent_ok_def flags_ok_def\<close>)
  qed
qed

lemma append_response_intent:
  assumes kept: "log_kept old s" and r: "handle_append_entries_response m t ok mi ct ci s = Some r"
  shows "intent_ok old (fst r)"
proof (cases "\<exists>i s2. try_advance_commit (s\<lparr>r_match_index := hm_insert m (Some i) (r_match_index s),
    r_next_index := hm_insert m (i + 1) (r_next_index s)\<rparr>) = Some s2 \<and> fst r = s2")
  case True
  then obtain i s2 where *: "try_advance_commit (s\<lparr>r_match_index := hm_insert m (Some i) (r_match_index s),
    r_next_index := hm_insert m (i + 1) (r_next_index s)\<rparr>) = Some s2" "fst r = s2" by blast
  have "log_kept old (s\<lparr>r_match_index := hm_insert m (Some i) (r_match_index s),
    r_next_index := hm_insert m (i + 1) (r_next_index s)\<rparr>)"
    using kept by (simp add: log_kept_def flags_ok_def)
  with * show ?thesis using try_advance_intent log_kept_intent by blast
next
  case False
  with r have "fst r = s \<or> (\<exists>ni. fst r = s\<lparr>r_next_index := ni\<rparr>)"
    by (auto simp: handle_append_entries_response_def Let_def split: option.splits if_splits)
  with kept have "log_kept old (fst r)" by (auto simp: log_kept_def flags_ok_def)
  then show ?thesis by (rule log_kept_intent)
qed

lemma request_vote_kept: "log_kept old s \<Longrightarrow> log_kept old (fst (handle_request_vote e t cand li lt s))"
  by (simp add: handle_request_vote_def Let_def log_kept_def flags_ok_def)

lemma handle_message_intent:
  assumes "clean s" and r: "raft_handle_message e m msg s = Some r"
  shows "intent_ok s (fst r)"
proof -
  let ?s = "bump_term e msg s"
  have kept: "log_kept s ?s" by (rule bump_term_kept [OF clean_log_kept [OF assms(1)]])
  show ?thesis
  proof (cases msg)
    case (RequestVote t cand li lt)
    with r request_vote_kept [OF kept, of e t cand li lt] have "log_kept s (fst r)"
      by (auto simp: raft_handle_message_def Let_def)
    then show ?thesis by (rule log_kept_intent)
  next
    case (RequestVoteResponse t g)
    let ?s1 = "?s\<lparr>r_votes_received := insert m (r_votes_received ?s)\<rparr>"
    have "log_kept s ?s1" using kept by (simp add: log_kept_def flags_ok_def)
    moreover have "raft_become_leader e ?s1 = Some r \<or> fst r = ?s1 \<or> fst r = ?s"
      using r RequestVoteResponse
      by (auto simp: raft_handle_message_def handle_request_vote_response_def Let_def split: if_splits)
    ultimately show ?thesis using become_leader_intent log_kept_intent kept by metis
  next
    case (AppendEntries t l prev pt ens lc)
    with r append_entries_intent [OF kept] show ?thesis by (simp add: raft_handle_message_def Let_def)
  next
    case (AppendEntriesResponse t ok mi ct ci)
    with r append_response_intent [OF kept] show ?thesis by (simp add: raft_handle_message_def Let_def)
  next
    case (RForward v hops)
    have "raft_propose e v ?s = Some r \<or> fst r = ?s \<or> (\<exists>p. fst r = ?s\<lparr>r_pending_proposals := p\<rparr>)"
      using r RForward
      by (auto simp: raft_handle_message_def handle_raft_forward_def Let_def split: option.splits if_splits)
    moreover have "log_kept s (?s\<lparr>r_pending_proposals := p\<rparr>)" for p
      using kept by (simp add: log_kept_def flags_ok_def)
    ultimately show ?thesis using propose_intent [OF kept] log_kept_intent kept by metis
  qed
qed

lemma on_tick_intent:
  assumes "clean s" and r: "raft_on_tick e now s = Some r"
  shows "intent_ok s (fst r)"
proof -
  have kept: "log_kept s s" by (rule clean_log_kept [OF assms(1)])
  have "raft_start_election e s = Some r \<or> r = broadcast_heartbeat e s \<or> r = (s, [])"
    using r by (auto simp: raft_on_tick_def Let_def split: role.splits if_splits)
  then show ?thesis
    using start_election_intent [OF kept] broadcast_intent(1) [OF log_kept_intent [OF kept]] log_kept_intent [OF kept]
    by (metis fst_conv)
qed

section \<open>Flushing\<close>

text \<open>Term, vote and log on disk are those in memory.\<close>

definition mirrors :: "('s \<Rightarrow> 'v durable) \<Rightarrow> ('v \<Rightarrow> 'v) \<Rightarrow> ('v, 's) raft_protocol \<Rightarrow> bool" where
  "mirrors durable norm s \<longleftrightarrow>
     dur_term (durable (r_storage s)) = r_current_term s
     \<and> dur_voted_for (durable (r_storage s)) = r_voted_for s
     \<and> dur_log (durable (r_storage s)) = map (map_entry norm) (r_log s)"

lemma flush_no_panic: "intent_ok old s \<Longrightarrow> \<exists>r. raft_flush_persist ops s = Some r"
  by (auto simp: raft_flush_persist_def drain_persist_intent_def Let_def intent_ok_def log_intent_ok_def
      split: option.splits)

definition flushed :: "('v, 's) raft_protocol \<Rightarrow> 's \<Rightarrow> ('v, 's) raft_protocol" where
  "flushed s st = s\<lparr>r_pending_truncate_from := None, r_pending_persist_log_from := None,
     r_pending_persist_term := False, r_pending_persist_voted_for := False,
     r_pending_persist_commit_index := False, r_storage := st\<rparr>"

lemma persist_step_Ok:
  "persist_step write arg rs = (Ok u, st') \<longleftrightarrow>
     (\<exists>v st. rs = (Ok v, st) \<and> (case arg of None \<Rightarrow> st' = st | Some x \<Rightarrow> write x st = (Ok (), st')))"
  by (auto simp: persist_step_def split: prod.splits result.splits option.splits)

text \<open>A successful write, for a writer whose effect on the durable state is \<open>upd\<close>.\<close>

lemma persist_effect:
  assumes "persist_step write arg rs = (Ok u, st')"
    and "\<And>x st st'. swf st \<Longrightarrow> write x st = (Ok (), st') \<Longrightarrow> swf st' \<and> durable st' = upd x (durable st)"
  shows "\<exists>v st. rs = (Ok v, st)
    \<and> (swf st \<longrightarrow> swf st' \<and> durable st' = (case arg of None \<Rightarrow> durable st | Some x \<Rightarrow> upd x (durable st)))"
proof -
  obtain v st where *: "rs = (Ok v, st)" "case arg of None \<Rightarrow> st' = st | Some x \<Rightarrow> write x st = (Ok (), st')"
    using iffD1 [OF persist_step_Ok assms(1)] by blast
  show ?thesis
  proof (cases arg)
    case None
    with * show ?thesis by auto
  next
    case (Some x)
    with * assms(2) [of st x st'] show ?thesis by auto
  qed
qed

context raft_storage_contract
begin

text \<open>A flush that reports success leaves storage equal to memory.\<close>

lemma flush_mirrors:
  assumes wf: "swf (r_storage old)" and mir: "mirrors durable norm old" and int: "intent_ok old s"
    and fl: "raft_flush_persist ops s = Some (Ok u, s')"
  shows "\<exists>st. s' = flushed s st \<and> swf st \<and> mirrors durable norm s'
    \<and> dur_decisions (durable st) = dur_decisions (durable (r_storage old))
    \<and> dur_commit_index (durable st) = (if r_pending_persist_commit_index s then r_commit_index s
         else dur_commit_index (durable (r_storage old)))"
proof -
  let ?t = "if r_pending_persist_term s then Some (r_current_term s) else None"
  let ?v = "if r_pending_persist_voted_for s then Some (r_voted_for s) else None"
  let ?es = "map_option (\<lambda>idx. drop idx (r_log s)) (r_pending_persist_log_from s)"
  let ?c = "if r_pending_persist_commit_index s then Some (r_commit_index s) else None"
  let ?r1 = "persist_step (rs_save_term ops) ?t (Ok (), r_storage s)"
  let ?r2 = "persist_step (rs_save_voted_for ops) ?v ?r1"
  let ?r3 = "persist_step (rs_truncate_log_from ops) (r_pending_truncate_from s) ?r2"
  let ?r4 = "persist_step (rs_append_log ops) ?es ?r3"
  let ?upd1 = "\<lambda>t d. d\<lparr>dur_term := t\<rparr>" and ?upd2 = "\<lambda>v d. d\<lparr>dur_voted_for := v\<rparr>"
    and ?upd3 = "\<lambda>i d. d\<lparr>dur_log := take i (dur_log d)\<rparr>"
    and ?upd4 = "\<lambda>es d. d\<lparr>dur_log := dur_log d @ map (map_entry norm) es\<rparr>"
    and ?upd5 = "\<lambda>c d. d\<lparr>dur_commit_index := c\<rparr>"
  have es: "map_option (\<lambda>idx. drop idx (if r_pending_persist_log_from s \<noteq> None then r_log s else []))
      (r_pending_persist_log_from s) = ?es"
    by (cases "r_pending_persist_log_from s") auto
  from fl obtain st where r5: "persist_step (rs_save_commit_index ops) ?c ?r4 = (Ok u, st)" and s': "s' = flushed s st"
    by (auto simp: raft_flush_persist_def drain_persist_intent_def flushed_def Let_def es prod_eq_iff split: if_splits)
  from persist_effect [where upd = ?upd5 and swf = swf and durable = durable, OF r5] save_commit_index
  obtain v4 st4 where 5: "?r4 = (Ok v4, st4)" "swf st4 \<longrightarrow> swf st \<and> durable st =
      (case ?c of None \<Rightarrow> durable st4 | Some x \<Rightarrow> ?upd5 x (durable st4))" by blast
  from persist_effect [where upd = ?upd4 and swf = swf and durable = durable, OF 5(1)] append_log
  obtain v3 st3 where 4: "?r3 = (Ok v3, st3)" "swf st3 \<longrightarrow> swf st4 \<and> durable st4 =
      (case ?es of None \<Rightarrow> durable st3 | Some x \<Rightarrow> ?upd4 x (durable st3))" by blast
  from persist_effect [where upd = ?upd3 and swf = swf and durable = durable, OF 4(1)] truncate_log_from
  obtain v2 st2 where 3: "?r2 = (Ok v2, st2)" "swf st2 \<longrightarrow> swf st3 \<and> durable st3 =
      (case r_pending_truncate_from s of None \<Rightarrow> durable st2 | Some x \<Rightarrow> ?upd3 x (durable st2))" by blast
  from persist_effect [where upd = ?upd2 and swf = swf and durable = durable, OF 3(1)] save_voted_for
  obtain v1 st1 where 2: "?r1 = (Ok v1, st1)" "swf st1 \<longrightarrow> swf st2 \<and> durable st2 =
      (case ?v of None \<Rightarrow> durable st1 | Some x \<Rightarrow> ?upd2 x (durable st1))" by blast
  from persist_effect [where upd = ?upd1 and swf = swf and durable = durable, OF 2(1)] save_term
  have 1: "swf (r_storage s) \<longrightarrow> swf st1 \<and> durable st1 =
      (case ?t of None \<Rightarrow> durable (r_storage s) | Some x \<Rightarrow> ?upd1 x (durable (r_storage s)))" by blast
  have stor: "r_storage s = r_storage old" using int by (simp add: intent_ok_def flags_ok_def)
  with wf 1 2(2) 3(2) 4(2) 5(2) have wf': "swf st1" "swf st2" "swf st3" "swf st4" "swf st" by auto
  have d3: "dur_log (durable st3) = (case r_pending_truncate_from s of None \<Rightarrow> dur_log (durable (r_storage old))
      | Some i \<Rightarrow> take i (dur_log (durable (r_storage old))))"
    using wf wf' stor 1 2(2) 3(2) by (auto split: option.splits if_splits)
  have "dur_log (durable st) = dur_log (durable st3) @ (case r_pending_persist_log_from s of None \<Rightarrow> []
      | Some j \<Rightarrow> map (map_entry norm) (drop j (r_log s)))"
    using wf' 4(2) 5(2) by (auto split: option.splits if_splits)
  also have "\<dots> = map (map_entry norm) (r_log s)"
    using d3 mir int by (auto simp: mirrors_def intent_ok_def log_intent_ok_def take_map split: option.splits
        simp flip: map_append)
  finally have "dur_log (durable st) = map (map_entry norm) (r_log s)" .
  moreover have "dur_term (durable st) = r_current_term s" "dur_voted_for (durable st) = r_voted_for s"
  proof -
    have "dur_term (durable st) = dur_term (durable st1)" "dur_voted_for (durable st) = dur_voted_for (durable st2)"
      using wf' 2(2) 3(2) 4(2) 5(2) by (simp_all split: option.split)
    moreover have "dur_term (durable st1) = r_current_term s" "dur_voted_for (durable st2) = r_voted_for s"
      using wf wf' stor mir int 1 2(2) by (auto simp: mirrors_def intent_ok_def flags_ok_def)
    ultimately show "dur_term (durable st) = r_current_term s" "dur_voted_for (durable st) = r_voted_for s" by simp_all
  qed
  moreover have "dur_decisions (durable st) = dur_decisions (durable (r_storage old))"
    "dur_commit_index (durable st) = (if r_pending_persist_commit_index s then r_commit_index s
         else dur_commit_index (durable (r_storage old)))"
    using wf wf' stor 1 2(2) 3(2) 4(2) 5(2) by (simp_all split: option.split)
  ultimately show ?thesis using wf' s' by (auto simp: mirrors_def flushed_def)
qed

text \<open>Draining saves every pending decision.\<close>

lemma save_decisions_durable:
  assumes "swf st" and "save_decisions (rs_save_decision ops) ds st = (Ok u, st')"
  shows "swf st' \<and> durable st' = (durable st)\<lparr>dur_decisions := dur_decisions (durable st')\<rparr>
    \<and> (\<forall>slot v. dur_decisions (durable st') slot = Some v \<longrightarrow>
         dur_decisions (durable st) slot = Some v \<or> (\<exists>d\<in>set ds. slot = d_slot d \<and> v = norm (d_value d)))"
  using assms
proof (induction ds arbitrary: st)
  case (Cons d ds)
  then obtain u1 st1 where 1: "rs_save_decision ops (d_slot d) (d_value d) st = (Ok u1, st1)"
      "save_decisions (rs_save_decision ops) ds st1 = (Ok u, st')"
    by (auto split: prod.splits result.splits)
  have "rs_save_decision ops (d_slot d) (d_value d) st = (Ok (), st1)" using 1(1) by simp
  from save_decision [OF Cons.prems(1) this] have st1: "swf st1"
    "durable st1 = (durable st)\<lparr>dur_decisions := (dur_decisions (durable st))(d_slot d \<mapsto> norm (d_value d))\<rparr>"
    by simp_all
  from Cons.IH [OF st1(1) 1(2)] show ?case
    unfolding st1(2) by (auto split: if_splits)
qed simp

lemma drain_decisions_durable:
  assumes "swf (r_storage s)" and "raft_drain_decisions ops s = (Ok ds, s')"
  shows "ds = r_pending_decisions s \<and> (\<exists>st. s' = s\<lparr>r_pending_decisions := [], r_storage := st\<rparr> \<and> swf st
    \<and> durable st = (durable (r_storage s))\<lparr>dur_decisions := dur_decisions (durable st)\<rparr>
    \<and> (\<forall>slot v. dur_decisions (durable st) slot = Some v \<longrightarrow> dur_decisions (durable (r_storage s)) slot = Some v
         \<or> (\<exists>d\<in>set (r_pending_decisions s). slot = d_slot d \<and> v = norm (d_value d))))"
proof -
  from assms(2) obtain u st where st: "save_decisions (rs_save_decision ops) (r_pending_decisions s) (r_storage s) = (Ok u, st)"
      "ds = r_pending_decisions s" "s' = s\<lparr>r_pending_decisions := [], r_storage := st\<rparr>"
    by (auto simp: raft_drain_decisions_def raft_take_decisions_def Let_def split: prod.splits)
  from save_decisions_durable [OF assms(1) st(1)] st(2,3) show ?thesis by blast
qed

text \<open>Recovery restores what the storage holds.\<close>

lemma recover_restores:
  assumes "swf (r_storage s)" and "raft_recover ops e s = Some (Ok u, s')"
  shows "\<exists>ds. map_of ds = dur_decisions (durable (r_storage s))
    \<and> restore_state e (dur_term (durable (r_storage s))) (dur_voted_for (durable (r_storage s)))
        (dur_log (durable (r_storage s))) ds (dur_commit_index (durable (r_storage s))) s = Some s'"
proof -
  let ?st = "r_storage s"
  from assms(2) obtain t v l ds ci where ld: "rs_load_term ops ?st = Ok t" "rs_load_voted_for ops ?st = Ok v"
      "rs_load_log ops ?st = Ok l" "rs_load_decisions ops ?st = Ok ds" "rs_load_commit_index ops ?st = Ok ci"
      "restore_state e t v l ds ci s = Some s'"
    by (auto simp: raft_recover_def split: result.splits)
  with load_term [OF assms(1) ld(1)] load_voted_for [OF assms(1) ld(2)] load_log [OF assms(1) ld(3)]
    load_decisions [OF assms(1) ld(4)] load_commit_index [OF assms(1) ld(5)]
  show ?thesis by auto
qed

end

end
