(* ===== verification/RaftCluster.thy ===== *)
theory RaftCluster
  imports RaftRefine RaftPersist
begin

text \<open>
  A cluster of Raft nodes as the node loop of \<open>daccord/src/node.rs\<close> runs them: an operation of
  the protocol, then \<open>flush_persist\<close>, then the messages go out; decisions are drained to storage,
  lost proposals are taken, and a node may stop at any point between these and recover from its
  storage. Two networks are considered: one that loses, duplicates and reorders messages at
  will, and one with a lossy first-in first-out channel per pair of nodes. Both refine the
  abstract cluster, for every storage that meets its contract.
\<close>

section \<open>Steps of one node\<close>

text \<open>
  An operation followed by a successful flush; \<^const>\<open>None\<close> when the operation panics or the
  storage reports an error, in which case the node stops.
\<close>

definition raft_io ::
  "('s, 'v) raft_storage \<Rightarrow> (('v, 's) raft_protocol \<times> 'v raft_out) option
   \<Rightarrow> (('v, 's) raft_protocol \<times> 'v raft_out) option" where
  "raft_io ops r =
     (case r of None \<Rightarrow> None
      | Some (s, outs) \<Rightarrow> (case raft_flush_persist ops s of
            Some (Ok _, s') \<Rightarrow> Some (s', outs)
          | _ \<Rightarrow> None))"

inductive local_step ::
  "('s, 'v) raft_storage \<Rightarrow> node_id set \<Rightarrow> node_id \<Rightarrow> ('v, 's) raft_protocol \<Rightarrow> ('v, 's) raft_protocol
   \<Rightarrow> 'v raft_out \<Rightarrow> bool"
  for ops :: "('s, 'v) raft_storage" and N :: "node_id set" and n :: node_id
where
  tick: "r_current_term s < u64_max \<Longrightarrow> raft_io ops (raft_on_tick e now s) = Some (s', outs) \<Longrightarrow>
    local_step ops N n s s' outs"
| propose: "raft_io ops (raft_propose e v s) = Some (s', outs) \<Longrightarrow> local_step ops N n s s' outs"
| drain: "raft_drain_decisions ops s = (Ok ds, s') \<Longrightarrow> local_step ops N n s s' []"
| take_lost: "raft_take_lost_proposals s = (lost, s') \<Longrightarrow> local_step ops N n s s' []"
| restart: "raft_new e n (card N) cfg (r_storage s) = Some s0 \<Longrightarrow> raft_recover ops e' s0 = Some (Ok (), s') \<Longrightarrow>
    local_step ops N n s s' []"

definition node_ok ::
  "bool \<Rightarrow> ('s \<Rightarrow> bool) \<Rightarrow> ('s \<Rightarrow> 'v durable) \<Rightarrow> ('v \<Rightarrow> 'v) \<Rightarrow> node_id set \<Rightarrow> 'v acluster \<Rightarrow> node_id
   \<Rightarrow> ('v, 's) raft_protocol \<Rightarrow> bool" where
  "node_ok ordered swf durable norm N a n s \<longleftrightarrow>
     nsim norm N a n s \<and> clean s \<and> swf (r_storage s) \<and> mirrors durable norm s
     \<and> (\<forall>slot v. dur_decisions (durable (r_storage s)) slot = Some v \<longrightarrow> (slot, v) \<in> ac_decided a)
     \<and> (ordered \<longrightarrow> (\<forall>slot v. dur_decisions (durable (r_storage s)) slot = Some v \<longrightarrow> slot < opt_key (r_commit_index s))
          \<and> opt_key (dur_commit_index (durable (r_storage s))) \<le> opt_key (r_commit_index s))"

lemma node_ok_other:
  assumes "node_ok ordered swf durable norm N a m s" and "m \<noteq> n" and ev: "evolves ordered N n acc a b"
  shows "node_ok ordered swf durable norm N b m s"
proof -
  have "match_ok N b s" if "match_ok N a s" by (rule match_ok_evolves [OF that ev]) simp_all
  with assms ev show ?thesis by (auto simp: node_ok_def nsim_def evolves_def)
qed

lemma nsim_flushed: "nsim norm N a n s \<Longrightarrow> nsim norm N a n (flushed s st)"
  by (erule nsim_frame) (simp_all add: flushed_def core_of_def)

lemma clean_flushed: "clean (flushed s st)"
  by (simp add: clean_def flushed_def)

context raft_storage_contract
begin

lemma io_refines:
  assumes ok: "node_ok ordered swf durable norm N a n s" and ref: "refines ordered norm N acc a n r"
    and int: "intent_ok s (fst r)" and io: "raft_io ops (Some r) = Some (s', outs)"
  shows "\<exists>b. evolves ordered N n acc a b \<and> node_ok ordered swf durable norm N b n s' \<and> outs_ok norm N b n outs"
proof -
  from io obtain u where fl: "raft_flush_persist ops (fst r) = Some (Ok u, s')" and outs: "outs = snd r"
    by (cases r) (auto simp: raft_io_def split: option.splits prod.splits result.splits)
  from ok have "swf (r_storage s)" "mirrors durable norm s" by (simp_all add: node_ok_def)
  from flush_mirrors [OF this int fl] obtain st where st: "s' = flushed (fst r) st" "swf st"
      "mirrors durable norm s'" "dur_decisions (durable st) = dur_decisions (durable (r_storage s))"
      "dur_commit_index (durable st) = (if r_pending_persist_commit_index (fst r) then r_commit_index (fst r)
         else dur_commit_index (durable (r_storage s)))"
    by blast
  from ref obtain b where b: "evolves ordered N n acc a b" "nsim norm N b n (fst r)" "outs_ok norm N b n (snd r)"
    by (auto simp: refines_def)
  have "opt_key (r_commit_index s) \<le> opt_key (r_commit_index (fst r))"
    using int by (simp add: intent_ok_def flags_ok_def)
  with ok b st nsim_flushed [OF b(2)] clean_flushed [of "fst r" st]
  have "node_ok ordered swf durable norm N b n s'"
    unfolding node_ok_def evolves_def by (auto simp: flushed_def intro: less_le_trans order_trans)
  with b outs show ?thesis by blast
qed

lemma drain_refines:
  assumes reach: "areach ordered N a" and ok: "node_ok ordered swf durable norm N a n s"
    and dr: "raft_drain_decisions ops s = (Ok ds, s')"
  shows "node_ok ordered swf durable norm N a n s'"
proof -
  have sim: "nsim norm N a n s" and "swf (r_storage s)" using ok by (simp_all add: node_ok_def)
  from drain_decisions_durable [OF this(2) dr] obtain st where
    st: "s' = s\<lparr>r_pending_decisions := [], r_storage := st\<rparr>" "swf st"
      "durable st = (durable (r_storage s))\<lparr>dur_decisions := dur_decisions (durable st)\<rparr>"
      "\<And>slot v. dur_decisions (durable st) slot = Some v \<Longrightarrow> dur_decisions (durable (r_storage s)) slot = Some v
         \<or> (\<exists>d\<in>set (r_pending_decisions s). slot = d_slot d \<and> v = norm (d_value d))"
    by blast
  have "nsim norm N a n s'" using sim by (simp add: st(1) nsim_def core_of_def match_ok_def)
  moreover have "dur_term (durable st) = dur_term (durable (r_storage s))"
    "dur_voted_for (durable st) = dur_voted_for (durable (r_storage s))"
    "dur_log (durable st) = dur_log (durable (r_storage s))"
    "dur_commit_index (durable st) = dur_commit_index (durable (r_storage s))"
    using arg_cong [OF st(3), of dur_term] arg_cong [OF st(3), of dur_voted_for]
      arg_cong [OF st(3), of dur_log] arg_cong [OF st(3), of dur_commit_index] by simp_all
  moreover have "(slot, v) \<in> ac_decided a \<and> (ordered \<longrightarrow> slot < opt_key (r_commit_index s))"
    if "dur_decisions (durable st) slot = Some v" for slot v
    using st(4) [OF that] ok sim unfolding node_ok_def nsim_def by blast
  ultimately show ?thesis using ok st(1,2) by (auto simp: node_ok_def clean_def mirrors_def)
qed

end

section \<open>Restart\<close>

text \<open>What recovery puts in memory before it applies the committed entries.\<close>

definition restored_commit :: "u64 option \<Rightarrow> u64 option \<Rightarrow> 'v log_entry list \<Rightarrow> u64 option" where
  "restored_commit p d log =
     (if log = [] \<or> opt_key p = 0 \<and> opt_key d = 0 then None
      else Some (min (max (opt_key p) (opt_key d) - 1) (length log - 1)))"

lemma restored_commit_key:
  "opt_key (restored_commit p d log) = min (max (opt_key p) (opt_key d)) (length log)"
  by (cases "length log") (auto simp: restored_commit_def opt_key_def split: option.splits)

lemma restore_state_cases:
  assumes "restore_state e t v log ds ci s = Some s'"
  obtains s2 where "apply_committed_entries s2 = Some s'"
    "r_current_term s2 = t" "r_voted_for s2 = v" "r_log s2 = log"
    "r_commit_index s2 = restored_commit ci (list_max (map fst ds)) log"
    "r_node_id s2 = r_node_id s" "r_total_nodes s2 = r_total_nodes s" "r_pending_decisions s2 = []"
    "r_votes_received s2 = {}" "clean s2" "r_storage s2 = r_storage s"
    "r_role s2 = Follower \<or> r_role s2 = Leader \<and> r_total_nodes s = 1 \<and> v = Some (r_node_id s)
       \<and> r_match_index s2 = (if log = [] then [] else hm_insert (r_node_id s) (Some (length log - 1)) [])"
proof -
  let ?max = "list_max (map fst ds)"
  have ci: "(case (case (ci, ?max) of (Some p, Some d) \<Rightarrow> Some (max p d) | (Some p, None) \<Rightarrow> Some p
      | (None, Some d) \<Rightarrow> Some d | (None, None) \<Rightarrow> None) of
      Some c \<Rightarrow> (if log = [] then None else Some (min c (length log - 1))) | None \<Rightarrow> None)
    = restored_commit ci ?max log"
    by (cases ci; cases ?max) (auto simp: restored_commit_def opt_key_def list_max_def)
  show thesis
    using assms unfolding restore_state_def Let_def ci
    by (cases "r_total_nodes s = 1 \<and> t > 0 \<and> v = Some (r_node_id s)")
       (simp_all, (rule that, assumption, simp_all add: clean_def)+)
qed

lemma list_max_key: "opt_key (list_max xs) \<le> k \<longleftrightarrow> (\<forall>x\<in>set xs. x < k)"
  by (auto simp: list_max_def opt_key_def Suc_le_eq)

lemma commit_in_log:
  assumes "areach True N a" and "finite N"
  shows "opt_key (co_commit (ac_core a n)) \<le> length (co_log (ac_core a n))"
proof -
  have "commit_inv N a" using areach_full [OF assms] by (simp add: full_inv_def)
  then have "d < length (co_log (ac_core a n))" if "co_commit (ac_core a n) = Some d" for d
    using that unfolding commit_inv_def backed_def agree_def by blast
  then show ?thesis by (simp add: opt_key_def Suc_le_eq split: option.split)
qed

lemma sim_restore:
  assumes reach: "areach ordered N a" and fin: "finite N" and "n \<in> N"
    and new: "r_node_id s0 = n" "r_total_nodes s0 = card N"
    and restore: "restore_state e t v log ds ci s0 = Some s'"
    and core: "co_term (ac_core a n) = t" "co_vote (ac_core a n) = v" "co_log (ac_core a n) = log"
      "map (map_entry norm) log = log"
    and key: "ordered \<Longrightarrow> max (opt_key ci) (opt_key (list_max (map fst ds))) \<le> opt_key (co_commit (ac_core a n))"
  shows "\<exists>b. evolves ordered N n None a b \<and> nsim norm N b n s'"
  using restore
proof (cases rule: restore_state_cases)
  case (1 s2)
  let ?ci = "restored_commit ci (list_max (map fst ds)) log"
  have "opt_key ?ci \<le> opt_key (co_commit (ac_core a n))" if ordered
    using key [OF that] unfolding restored_commit_key by linarith
  from abs_restart [OF reach fin \<open>n \<in> N\<close> this] obtain b where b: "evolves ordered N n None a b"
      "ac_core b n = (ac_core a n)\<lparr>co_role := Follower, co_votes := {}, co_commit := ?ci\<rparr>"
    by blast
  note reach_b = evolves_reach [OF b(1)]
  have "\<exists>c. evolves ordered N n None a c \<and> nsim norm N c n s2"
  proof (cases "r_role s2 = Follower")
    case True
    then have "nsim norm N b n s2"
      using 1 b(2) core new \<open>n \<in> N\<close> by (simp add: nsim_def core_of_def)
    with b(1) show ?thesis by blast
  next
    case False
    with 1 new have lead: "r_role s2 = Leader" "card N = 1" "v = Some n"
      "r_match_index s2 = (if log = [] then [] else hm_insert n (Some (length log - 1)) [])" by auto
    then have "N = {n}" using \<open>n \<in> N\<close> by (metis card_1_singletonE singletonD)
    then have "N = {n} \<and> co_vote (ac_core b n) = Some n" using lead(3) core(2) b(2) by simp
    from abs_elect [OF reach_b fin \<open>n \<in> N\<close> disjI2 [OF this]] obtain c where
      c: "evolves ordered N n None b c" "ac_core c n = (ac_core b n)\<lparr>co_role := Leader\<rparr>"
        "length log \<le> ac_acked c n t"
      using b(2) core by auto
    have "log \<noteq> [] \<Longrightarrow> length log - 1 < ac_acked c n (r_current_term s2)"
      using c(3) 1(2) by (cases log) auto
    then have "match_ok N c s2" using lead(4) \<open>n \<in> N\<close>
      by (auto simp: match_ok_def hm_wf_def hm_get_def hm_insert_def split: if_splits)
    then have "nsim norm N c n s2"
      using 1 b(2) c(2) core new \<open>n \<in> N\<close> lead(1) by (simp add: nsim_def core_of_def)
    with evolves_trans [OF b(1) c(1)] show ?thesis by blast
  qed
  then obtain c where c: "evolves ordered N n None a c" "nsim norm N c n s2" by blast
  from sim_apply [OF evolves_reach [OF c(1)] fin c(2) 1(1)] c(1) show ?thesis
    using evolves_trans by blast
qed

lemma restore_state_frame:
  assumes "restore_state e t v log ds ci s = Some s'"
  shows "r_current_term s' = t" and "r_voted_for s' = v" and "r_log s' = log" and "clean s'"
    and "r_storage s' = r_storage s" and "r_commit_index s' = restored_commit ci (list_max (map fst ds)) log"
proof -
  from assms obtain s2 ds' la where "r_current_term s2 = t" "r_voted_for s2 = v" "r_log s2 = log"
    "r_commit_index s2 = restored_commit ci (list_max (map fst ds)) log" "clean s2" "r_storage s2 = r_storage s"
    "s' = s2\<lparr>r_pending_decisions := r_pending_decisions s2 @ ds', r_last_applied := la\<rparr>"
    by (auto elim!: restore_state_cases apply_committed_entries_frame)
  then show "r_current_term s' = t" "r_voted_for s' = v" "r_log s' = log" "clean s'"
    "r_storage s' = r_storage s" "r_commit_index s' = restored_commit ci (list_max (map fst ds)) log"
    by (simp_all add: clean_def)
qed

lemma raft_new_fields:
  assumes "raft_new e n k cfg st = Some s"
  shows "r_node_id s = n" and "r_total_nodes s = k" and "r_storage s = st" and "clean s"
    and "core_of norm s = core_init" and "r_pending_decisions s = []"
  using assms by (auto simp: raft_new_def clean_def core_of_def core_init_def split: result.splits)

context raft_storage_contract
begin

lemma restart_refines:
  assumes reach: "areach ordered N a" and fin: "finite N" and ok: "node_ok ordered swf durable norm N a n s"
    and new: "raft_new e n (card N) cfg (r_storage s) = Some s0" and rec: "raft_recover ops e' s0 = Some (Ok u, s')"
  shows "\<exists>b. evolves ordered N n None a b \<and> node_ok ordered swf durable norm N b n s'"
proof -
  let ?d = "durable (r_storage s)"
  note new = raft_new_fields [OF new]
  from ok have sim: "nsim norm N a n s" and wf: "swf (r_storage s)" and mir: "mirrors durable norm s"
    by (simp_all add: node_ok_def)
  from wf recover_restores [OF _ rec] new obtain ds where ds: "map_of ds = dur_decisions ?d"
    and restore: "restore_state e' (dur_term ?d) (dur_voted_for ?d) (dur_log ?d) ds (dur_commit_index ?d) s0 = Some s'"
    by auto
  note fr = restore_state_frame [OF restore]
  have idem: "map (map_entry norm) (dur_log ?d) = dur_log ?d"
    using mir by (auto simp: mirrors_def map_entry_def norm_idem)
  have slots: "x \<in> set (map fst ds) \<longleftrightarrow> (\<exists>v. dur_decisions ?d x = Some v)" for x
    using ds [symmetric] by (simp add: dom_def [symmetric] flip: dom_map_of_conv_image_fst) auto
  have lim: "opt_key (list_max (map fst ds)) \<le> k \<longleftrightarrow> (\<forall>slot v. dur_decisions ?d slot = Some v \<longrightarrow> slot < k)" for k
    unfolding list_max_key using slots by blast
  have core: "co_term (ac_core a n) = dur_term ?d" "co_vote (ac_core a n) = dur_voted_for ?d"
    "co_log (ac_core a n) = dur_log ?d" "co_commit (ac_core a n) = r_commit_index s"
    using nsimD(4) [OF sim] mir by (simp_all add: core_of_def mirrors_def)
  have key: "max (opt_key (dur_commit_index ?d)) (opt_key (list_max (map fst ds))) \<le> opt_key (co_commit (ac_core a n))"
    if ordered
    using ok that core(4) by (simp add: node_ok_def lim)
  from sim_restore [OF reach fin nsimD(1) [OF sim] new(1,2) restore core(1-3) idem key]
  obtain b where b: "evolves ordered N n None a b" "nsim norm N b n s'" by blast
  have "opt_key (r_commit_index s') = max (opt_key (dur_commit_index ?d)) (opt_key (list_max (map fst ds)))" if ordered
    using key [OF that] commit_in_log [of N a n] reach fin that core(3) by (simp add: fr(6) restored_commit_key)
  then have "(\<forall>slot v. dur_decisions ?d slot = Some v \<longrightarrow> slot < opt_key (r_commit_index s'))
      \<and> opt_key (dur_commit_index ?d) \<le> opt_key (r_commit_index s')" if ordered
    using that unfolding lim [symmetric] by simp
  moreover have "mirrors durable norm s'" using idem by (simp add: mirrors_def fr new)
  ultimately have "node_ok ordered swf durable norm N b n s'"
    using ok b fr(4,5) new(3) by (auto simp: node_ok_def evolves_def)
  with b(1) show ?thesis by blast
qed

lemma local_refines:
  assumes reach: "areach ordered N a" and fin: "finite N" and ok: "node_ok ordered swf durable norm N a n s"
    and step: "local_step ops N n s s' outs"
  shows "\<exists>b. evolves ordered N n None a b \<and> node_ok ordered swf durable norm N b n s' \<and> outs_ok norm N b n outs"
  using step
proof cases
  case (tick e now)
  from ok have sim: "nsim norm N a n s" and cl: "clean s" by (simp_all add: node_ok_def)
  from tick obtain r where r: "raft_on_tick e now s = Some r" "raft_io ops (Some r) = Some (s', outs)"
    by (cases "raft_on_tick e now s") (auto simp: raft_io_def)
  show ?thesis
    by (rule io_refines [OF ok sim_on_tick [OF reach fin sim tick(1) r(1)] on_tick_intent [OF cl r(1)] r(2)])
next
  case (propose e v)
  from ok have sim: "nsim norm N a n s" and cl: "clean s" by (simp_all add: node_ok_def)
  from propose obtain r where r: "raft_propose e v s = Some r" "raft_io ops (Some r) = Some (s', outs)"
    by (cases "raft_propose e v s") (auto simp: raft_io_def)
  show ?thesis
    by (rule io_refines [OF ok sim_propose [OF reach fin sim r(1)] propose_intent [OF clean_log_kept [OF cl] r(1)] r(2)])
next
  case (drain ds)
  with drain_refines [OF reach ok] evolves_refl [OF reach] show ?thesis
    by (auto simp: outs_ok_def sends_def)
next
  case (take_lost lost)
  then have s': "s' = s\<lparr>r_lost_proposals := []\<rparr>" by (simp add: raft_take_lost_proposals_def)
  from ok have "nsim norm N a n s" by (simp add: node_ok_def)
  then have "nsim norm N a n s'" by (rule nsim_frame) (simp_all add: s' core_of_def)
  with ok have "node_ok ordered swf durable norm N a n s'" by (simp add: node_ok_def s' clean_def mirrors_def)
  with take_lost evolves_refl [OF reach] show ?thesis by (auto simp: outs_ok_def sends_def)
next
  case (restart e cfg s0 e')
  with restart_refines [OF reach fin ok] show ?thesis by (auto simp: outs_ok_def sends_def)
qed

lemma deliver_refines:
  assumes reach: "areach ordered N a" and fin: "finite N" and ok: "node_ok ordered swf durable norm N a n s"
    and "from": "from \<in> N" and msg: "arrives norm a from n msg"
    and order: "\<And>t k. ordered \<Longrightarrow> covers msg = Some (t, k) \<Longrightarrow> ac_acked a n t \<le> k"
    and io: "raft_io ops (raft_handle_message e from msg s) = Some (s', outs)"
  shows "\<exists>b. evolves ordered N n (covers msg) a b \<and> node_ok ordered swf durable norm N b n s' \<and> outs_ok norm N b n outs"
proof -
  from ok have sim: "nsim norm N a n s" and cl: "clean s" by (simp_all add: node_ok_def)
  from io obtain r where r: "raft_handle_message e from msg s = Some r" "raft_io ops (Some r) = Some (s', outs)"
    by (cases "raft_handle_message e from msg s") (auto simp: raft_io_def)
  show ?thesis
    by (rule io_refines [OF ok sim_handle_message [OF reach fin sim "from" msg order r(1)]
          handle_message_intent [OF cl r(1)] r(2)])
qed

end

section \<open>A network that loses, duplicates and reorders\<close>

record ('v, 's) cluster =
  c_node :: "node_id \<Rightarrow> ('v, 's) raft_protocol"
  c_net :: "'v packet set"

definition fresh_node ::
  "('s \<Rightarrow> bool) \<Rightarrow> ('s \<Rightarrow> 'v durable) \<Rightarrow> node_id set \<Rightarrow> node_id \<Rightarrow> ('v, 's) raft_protocol \<Rightarrow> bool" where
  "fresh_node swf durable N n s \<longleftrightarrow>
     (\<exists>e cfg st. raft_new e n (card N) cfg st = Some s \<and> swf st \<and> durable st = durable_empty)"

inductive cstep ::
  "('s, 'v) raft_storage \<Rightarrow> node_id set \<Rightarrow> ('v, 's) cluster \<Rightarrow> ('v, 's) cluster \<Rightarrow> bool"
  for ops :: "('s, 'v) raft_storage" and N :: "node_id set"
where
  local_event: "n \<in> N \<Longrightarrow> local_step ops N n (c_node c n) s' outs \<Longrightarrow>
    cstep ops N c \<lparr>c_node = (c_node c)(n := s'), c_net = c_net c \<union> sends N n outs\<rparr>"
| deliver: "(m, n, msg) \<in> c_net c \<Longrightarrow> raft_io ops (raft_handle_message e m msg (c_node c n)) = Some (s', outs) \<Longrightarrow>
    cstep ops N c \<lparr>c_node = (c_node c)(n := s'), c_net = c_net c \<union> sends N n outs\<rparr>"

definition cluster_init :: "('s \<Rightarrow> bool) \<Rightarrow> ('s \<Rightarrow> 'v durable) \<Rightarrow> node_id set \<Rightarrow> ('v, 's) cluster \<Rightarrow> bool" where
  "cluster_init swf durable N c \<longleftrightarrow> (\<forall>n\<in>N. fresh_node swf durable N n (c_node c n)) \<and> c_net c = {}"

definition csim ::
  "('s \<Rightarrow> bool) \<Rightarrow> ('s \<Rightarrow> 'v durable) \<Rightarrow> ('v \<Rightarrow> 'v) \<Rightarrow> node_id set \<Rightarrow> 'v acluster \<Rightarrow> ('v, 's) cluster \<Rightarrow> bool" where
  "csim swf durable norm N a c \<longleftrightarrow>
     areach False N a \<and> (\<forall>n\<in>N. node_ok False swf durable norm N a n (c_node c n))
     \<and> (\<forall>x y m. (x, y, m) \<in> c_net c \<longrightarrow> x \<in> N \<and> y \<in> N \<and> arrives norm a x y m)"

lemma fresh_node_ok:
  assumes "fresh_node swf durable N n s" and "n \<in> N"
  shows "node_ok ordered swf durable norm N acluster_init n s"
proof -
  from assms(1) obtain e cfg st where new: "raft_new e n (card N) cfg st = Some s" and "swf st" "durable st = durable_empty"
    by (auto simp: fresh_node_def)
  moreover note f = raft_new_fields [OF new]
  moreover from f(5) have "r_current_term s = 0" "r_voted_for s = None" "r_log s = []" "r_role s = Follower"
    "r_commit_index s = None" for norm :: "'a \<Rightarrow> 'a"
    by (simp_all add: core_of_def core_init_def)
  ultimately show ?thesis using assms(2)
    by (simp add: node_ok_def nsim_def acluster_init_def mirrors_def durable_empty_def opt_key_def)
qed

context raft_storage_contract
begin

lemma csim_update:
  assumes sim: "csim swf durable norm N a c" and "n \<in> N" and ev: "evolves False N n acc a b"
    and ok: "node_ok False swf durable norm N b n s'" and outs: "outs_ok norm N b n outs"
  shows "csim swf durable norm N b \<lparr>c_node = (c_node c)(n := s'), c_net = c_net c \<union> sends N n outs\<rparr>"
proof -
  have "node_ok False swf durable norm N b m (c_node c m)" if "m \<in> N" "m \<noteq> n" for m
    by (rule node_ok_other [OF _ that(2) ev]) (use sim that(1) in \<open>simp add: csim_def\<close>)
  moreover have "x \<in> N \<and> y \<in> N \<and> arrives norm b x y m" if "(x, y, m) \<in> c_net c \<union> sends N n outs" for x y m
  proof (cases "(x, y, m) \<in> c_net c")
    case True
    with sim arrives_evolves [OF _ ev] show ?thesis by (auto simp: csim_def)
  next
    case False
    with that have s: "(x, y, m) \<in> sends N n outs" by simp
    then have "x = n" "y \<in> N" by (auto simp: sends_def)
    with s outs \<open>n \<in> N\<close> show ?thesis by (auto simp: arrives_def outs_ok_def)
  qed
  ultimately show ?thesis using ok evolves_reach [OF ev] by (simp add: csim_def)
qed

lemma cstep_refines:
  assumes step: "cstep ops N c c'" and fin: "finite N" and sim: "csim swf durable norm N a c"
  shows "\<exists>b. csim swf durable norm N b c' \<and> lead_le a b"
  using step
proof cases
  case (local_event n s' outs)
  from sim local_event(2) have reach: "areach False N a" and ok: "node_ok False swf durable norm N a n (c_node c n)"
    by (simp_all add: csim_def)
  from local_refines [OF reach fin ok local_event(3)] obtain b where b: "evolves False N n None a b"
    "node_ok False swf durable norm N b n s'" "outs_ok norm N b n outs" by blast
  from csim_update [OF sim local_event(2) b] b(1) local_event(1) show ?thesis by (auto simp: evolves_def)
next
  case (deliver m n msg e s' outs)
  from sim deliver(2) have reach: "areach False N a" and ok: "node_ok False swf durable norm N a n (c_node c n)"
    and N: "m \<in> N" "n \<in> N" and msg: "arrives norm a m n msg"
    by (auto simp: csim_def)
  from deliver_refines [OF reach fin ok N(1) msg _ deliver(3)] obtain b where b: "evolves False N n (covers msg) a b"
    "node_ok False swf durable norm N b n s'" "outs_ok norm N b n outs" by blast
  from csim_update [OF sim N(2) b] b(1) deliver(1) show ?thesis by (auto simp: evolves_def)
qed

lemma csteps_refine:
  assumes "(cstep ops N)\<^sup>*\<^sup>* c c'" and "finite N" and "csim swf durable norm N a c"
  shows "\<exists>b. csim swf durable norm N b c' \<and> lead_le a b"
  using assms(1)
proof (induction rule: rtranclp_induct)
  case base
  with assms(3) show ?case using lead_le_same by blast
next
  case (step d d')
  then obtain b where "csim swf durable norm N b d" "lead_le a b" by blast
  with cstep_refines [OF step.hyps(2) assms(2)] show ?case using lead_le_trans by blast
qed

lemma cluster_refines:
  assumes "cluster_init swf durable N c0" and "(cstep ops N)\<^sup>*\<^sup>* c0 c" and "finite N"
  shows "\<exists>a. csim swf durable norm N a c"
proof -
  have "csim swf durable norm N acluster_init c0"
    using assms(1) by (simp add: csim_def cluster_init_def fresh_node_ok areach.init)
  with csteps_refine [OF assms(2,3)] show ?thesis by blast
qed

lemma cluster_election_safety:
  assumes init: "cluster_init swf durable N c0" and run: "(cstep ops N)\<^sup>*\<^sup>* c0 c" "(cstep ops N)\<^sup>*\<^sup>* c c'" and fin: "finite N"
    and "n \<in> N" "m \<in> N" and lead: "r_role (c_node c n) = Leader" "r_role (c_node c' m) = Leader"
    and "r_current_term (c_node c n) = r_current_term (c_node c' m)"
  shows "n = m"
proof -
  from cluster_refines [OF init run(1) fin] obtain a where a: "csim swf durable norm N a c" by blast
  from csteps_refine [OF run(2) fin a] obtain b where b: "csim swf durable norm N b c'" "lead_le a b" by blast
  have "ac_core a n = core_of norm (c_node c n)" "ac_core b m = core_of norm (c_node c' m)"
    "areach False N a" "areach False N b"
    using a b(1) \<open>n \<in> N\<close> \<open>m \<in> N\<close> by (simp_all add: csim_def node_ok_def nsim_def)
  with areach_leads [of False N a n] areach_leads [of False N b m] lead fin
  obtain k l k' l' where "ac_lead a (r_current_term (c_node c n)) = Some (n, k, l)"
    "ac_lead b (r_current_term (c_node c' m)) = Some (m, k', l')" by (auto simp: core_of_def)
  with lead_leD [OF b(2)] assms(9) show ?thesis by fastforce
qed

lemma cluster_log_matching:
  assumes init: "cluster_init swf durable N c0" and run: "(cstep ops N)\<^sup>*\<^sup>* c0 c" and fin: "finite N"
    and "n \<in> N" "m \<in> N" and i: "i < length (r_log (c_node c n))" "i < length (r_log (c_node c m))"
    and "e_term (r_log (c_node c n) ! i) = e_term (r_log (c_node c m) ! i)"
  shows "map (map_entry norm) (take (Suc i) (r_log (c_node c n))) = map (map_entry norm) (take (Suc i) (r_log (c_node c m)))"
proof -
  from cluster_refines [OF init run fin] obtain a where a: "csim swf durable norm N a c" by blast
  then have core: "ac_core a n = core_of norm (c_node c n)" "ac_core a m = core_of norm (c_node c m)"
    "areach False N a"
    using \<open>n \<in> N\<close> \<open>m \<in> N\<close> by (simp_all add: csim_def node_ok_def nsim_def)
  from abstract_log_matching [OF areach_safe [OF core(3) fin], of i n m] assms(6-)
  show ?thesis by (simp add: core core_of_def take_map map_entry_def)
qed

text \<open>A node that restarts from its storage has the term, the vote and the log it had.\<close>

lemma cluster_restart_keeps:
  assumes init: "cluster_init swf durable N c0" and run: "(cstep ops N)\<^sup>*\<^sup>* c0 c" and fin: "finite N" and "n \<in> N"
    and new: "raft_new e n (card N) cfg (r_storage (c_node c n)) = Some s0" and rec: "raft_recover ops e' s0 = Some (Ok u, s')"
  shows "r_current_term s' = r_current_term (c_node c n) \<and> r_voted_for s' = r_voted_for (c_node c n)
    \<and> r_log s' = map (map_entry norm) (r_log (c_node c n))"
proof -
  from cluster_refines [OF init run fin] obtain a where "csim swf durable norm N a c" by blast
  then have ok: "swf (r_storage (c_node c n))" "mirrors durable norm (c_node c n)"
    using \<open>n \<in> N\<close> by (auto simp: csim_def node_ok_def)
  note new = raft_new_fields [OF new]
  from recover_restores [OF _ rec] ok(1) new(3) obtain ds where
    "restore_state e' (dur_term (durable (r_storage s0))) (dur_voted_for (durable (r_storage s0)))
       (dur_log (durable (r_storage s0))) ds (dur_commit_index (durable (r_storage s0))) s0 = Some s'" by auto
  from restore_state_frame(1-3) [OF this] ok(2) new(3) show ?thesis by (simp add: mirrors_def)
qed

text \<open>Two logs that hold the same term anywhere agree up to the earlier of the two places.\<close>

lemma cluster_same_term:
  assumes init: "cluster_init swf durable N c0" and run: "(cstep ops N)\<^sup>*\<^sup>* c0 c" and fin: "finite N"
    and "n \<in> N" "m \<in> N" and i: "i < length (r_log (c_node c n))" and j: "j < length (r_log (c_node c m))" "j \<le> i"
    and "e_term (r_log (c_node c n) ! i) = e_term (r_log (c_node c m) ! j)"
  shows "e_term (r_log (c_node c n) ! j) = e_term (r_log (c_node c m) ! j)"
proof -
  let ?x = "map (map_entry norm) (r_log (c_node c n))" and ?y = "map (map_entry norm) (r_log (c_node c m))"
  from cluster_refines [OF init run fin] obtain a where a: "csim swf durable norm N a c" by blast
  then have core: "ac_core a n = core_of norm (c_node c n)" "ac_core a m = core_of norm (c_node c m)"
    "areach False N a"
    using \<open>n \<in> N\<close> \<open>m \<in> N\<close> by (simp_all add: csim_def node_ok_def nsim_def)
  have "traced a (co_log (ac_core a x))" for x
    using areach_safe [OF core(3) fin] by (simp add: safe_inv_def log_inv_def)
  from this [of n] this [of m] have "traced a ?x" "traced a ?y" using core by (simp_all add: core_of_def)
  with i j(1) obtain p k l p' k' l' where l: "ac_lead a (e_term (?x ! i)) = Some (p, k, l)" "i < length l"
      "take (Suc i) ?x = take (Suc i) l" and l': "ac_lead a (e_term (?y ! j)) = Some (p', k', l')"
      "take (Suc j) ?y = take (Suc j) l'"
    unfolding traced_def by (metis length_map)
  have "l' = l" using l(1) l'(1) assms(9) i j by simp
  then have "?x ! j = ?y ! j" using take_eq_nth [OF l(3), of j] take_eq_nth [OF l'(2), of j] j(2) by simp
  then have "e_term (?x ! j) = e_term (?y ! j)" by simp
  then show ?thesis using i j by simp
qed

end

end
