(* ===== verification/RaftFifo.thy ===== *)
theory RaftFifo
  imports RaftCluster
begin

text \<open>
  The cluster over lossy first-in first-out channels, one for each ordered pair of nodes, which
  is what one connection of a transport of \<open>daccord/src/transport\<close> gives. Messages may be
  dropped anywhere but not overtake each other. Such a cluster refines the abstract one with
  ordered delivery, so its decisions agree.
\<close>

section \<open>What a leader sends\<close>

text \<open>
  Every \<open>AppendEntries\<close> a node sends is of its current term and reaches to the end of its log.
\<close>

definition covers_log :: "('v, 's) raft_protocol \<times> 'v raft_out \<Rightarrow> bool" where
  "covers_log r \<longleftrightarrow> (\<forall>out\<in>set (snd r). \<forall>t k. covers (o_message out) = Some (t, k) \<longrightarrow>
     r_role (fst r) = Leader \<and> t = r_current_term (fst r) \<and> k = length (r_log (fst r)))"

lemma covers_log_silent [simp]: "covers_log (s, [])"
  by (simp add: covers_log_def)

lemma covers_log_heartbeat: "r_role s = Leader \<Longrightarrow> covers_log (broadcast_heartbeat e s)"
  by (auto simp: covers_log_def broadcast_heartbeat_def last_log_index_def append_start_def)

lemma covers_log_with_entries:
  "r_role s = Leader \<Longrightarrow> length ens \<le> length (r_log s) \<Longrightarrow> covers_log (broadcast_with_entries e ens s)"
  by (auto simp: covers_log_def broadcast_with_entries_def append_start_def Let_def)

lemma covers_log_advance:
  assumes "try_advance_commit s1 = Some s2" and "r_role s1 = Leader" and "length ens \<le> length (r_log s1)"
  shows "covers_log (broadcast_with_entries e ens s2)"
  using assms(1) by (rule try_advance_commit_frame) (use assms(2,3) in \<open>simp add: covers_log_with_entries\<close>)

lemma covers_log_become_leader: "raft_become_leader e s = Some r \<Longrightarrow> covers_log r"
  by (auto simp: raft_become_leader_def Let_def covers_log_heartbeat bind_eq_Some_conv split: if_splits
      elim!: covers_log_advance)

lemma covers_log_start_election: "raft_start_election e s = Some r \<Longrightarrow> covers_log r"
  by (auto simp: raft_start_election_def Let_def covers_log_def [of "(_, [_])"] split: if_splits
      dest: covers_log_become_leader)

lemma covers_log_propose: "raft_propose e v s = Some r \<Longrightarrow> covers_log r"
  by (auto simp: raft_propose_def Let_def bind_eq_Some_conv covers_log_def [of "(_, [_])"]
      split: if_splits option.splits elim!: covers_log_advance)

lemma covers_log_forward: "handle_raft_forward e m v hops s = Some r \<Longrightarrow> covers_log r"
  by (auto simp: handle_raft_forward_def Let_def covers_log_def [of "(_, [_])"]
      split: if_splits option.splits dest: covers_log_propose)

lemma covers_tracked: "covers m = Some tk \<Longrightarrow> tracked m"
  by (cases m) simp_all

lemma covers_log_append_entries:
  assumes "handle_append_entries e t l prev pt ens lc s = Some r" and "t \<le> r_current_term s"
  shows "covers_log r"
  using assms by (cases rule: handle_append_entries_cases) (auto simp: covers_log_def dest: covers_tracked)

lemma backoff_next_index_le: "backoff_next_index s m ct ci \<le> length (r_log s)"
  by (simp add: backoff_next_index_def Let_def)

lemma bump_term_append_entries [simp]:
  "t \<le> r_current_term (bump_term e (AppendEntries t l prev pt ens lc) s)"
  by (simp add: bump_term_def incoming_term_def raft_become_follower_def Let_def)

lemma flush_flushed: "raft_flush_persist ops s = Some (Ok u, s') \<Longrightarrow> \<exists>st. s' = flushed s st"
  by (auto simp: raft_flush_persist_def drain_persist_intent_def flushed_def Let_def split: if_splits)

lemma covers_log_append_response: "handle_append_entries_response m t ok mi ct ci s = Some r \<Longrightarrow> covers_log r"
  using backoff_next_index_le [of s m ct ci]
  by (auto simp: handle_append_entries_response_def Let_def covers_log_def [of "(_, [_])"] append_start_def
      split: if_splits option.splits)

lemma covers_log_handle_message: "raft_handle_message e m msg s = Some r \<Longrightarrow> covers_log r"
  by (cases msg)
     (auto simp: raft_handle_message_def Let_def handle_request_vote_def handle_request_vote_response_def
        covers_log_def [of "(_, [_])"] split: if_splits intro: covers_log_append_entries
        dest: covers_log_append_response covers_log_forward covers_log_become_leader)

lemma covers_log_on_tick: "raft_on_tick e now s = Some r \<Longrightarrow> covers_log r"
  by (auto simp: raft_on_tick_def Let_def covers_log_heartbeat split: role.splits if_splits
      dest: covers_log_start_election)

lemma raft_io_covers:
  assumes "raft_io ops r = Some (s', outs)" and "\<And>r'. r = Some r' \<Longrightarrow> covers_log r'"
  shows "covers_log (s', outs)"
proof -
  from assms(1) obtain s u where r: "r = Some (s, outs)" "raft_flush_persist ops s = Some (Ok u, s')"
    by (auto simp: raft_io_def split: option.splits result.splits prod.splits)
  from flush_flushed [OF r(2)] show ?thesis using assms(2) [OF r(1)] by (auto simp: covers_log_def flushed_def)
qed

lemma local_step_covers: "local_step ops N n s s' outs \<Longrightarrow> covers_log (s', outs)"
  by (erule local_step.cases) (auto elim!: raft_io_covers dest: covers_log_on_tick covers_log_propose)

section \<open>Channels\<close>

record ('v, 's) fcluster =
  f_node :: "node_id \<Rightarrow> ('v, 's) raft_protocol"
  f_chan :: "node_id \<Rightarrow> node_id \<Rightarrow> 'v raft_message list"

definition posted :: "node_id \<Rightarrow> 'v raft_out \<Rightarrow> 'v raft_message list" where
  "posted y outs = map o_message (filter (\<lambda>out. o_target out = Peer y \<or> o_target out = Broadcast) outs)"

definition post ::
  "node_id set \<Rightarrow> node_id \<Rightarrow> 'v raft_out \<Rightarrow> (node_id \<Rightarrow> node_id \<Rightarrow> 'v raft_message list)
   \<Rightarrow> node_id \<Rightarrow> node_id \<Rightarrow> 'v raft_message list" where
  "post N n outs chan x y = (if x = n \<and> y \<in> N - {n} then chan x y @ posted y outs else chan x y)"

inductive fstep ::
  "('s, 'v) raft_storage \<Rightarrow> node_id set \<Rightarrow> ('v, 's) fcluster \<Rightarrow> ('v, 's) fcluster \<Rightarrow> bool"
  for ops :: "('s, 'v) raft_storage" and N :: "node_id set"
where
  local_event: "n \<in> N \<Longrightarrow> local_step ops N n (f_node f n) s' outs \<Longrightarrow>
    fstep ops N f \<lparr>f_node = (f_node f)(n := s'), f_chan = post N n outs (f_chan f)\<rparr>"
| deliver: "m \<in> N \<Longrightarrow> n \<in> N \<Longrightarrow> f_chan f m n = msg # rest \<Longrightarrow>
    raft_io ops (raft_handle_message e m msg (f_node f n)) = Some (s', outs) \<Longrightarrow>
    fstep ops N f \<lparr>f_node = (f_node f)(n := s'),
      f_chan = post N n outs ((f_chan f)(m := (f_chan f m)(n := rest)))\<rparr>"
| drop_message: "f_chan f m n = ms @ msg # rest \<Longrightarrow>
    fstep ops N f (f\<lparr>f_chan := (f_chan f)(m := (f_chan f m)(n := ms @ rest))\<rparr>)"

definition fcluster_init :: "('s \<Rightarrow> bool) \<Rightarrow> ('s \<Rightarrow> 'v durable) \<Rightarrow> node_id set \<Rightarrow> ('v, 's) fcluster \<Rightarrow> bool" where
  "fcluster_init swf durable N f \<longleftrightarrow> (\<forall>n\<in>N. fresh_node swf durable N n (f_node f n)) \<and> f_chan f = (\<lambda>_ _. [])"

text \<open>
  The messages of a channel have been sent, and its \<open>AppendEntries\<close> of a term reach ever further,
  never short of what the receiver has acknowledged in that term.
\<close>

definition covers_le :: "'v raft_message \<Rightarrow> 'v raft_message \<Rightarrow> bool" where
  "covers_le m m' \<longleftrightarrow> (\<forall>t k k'. covers m = Some (t, k) \<longrightarrow> covers m' = Some (t, k') \<longrightarrow> k \<le> k')"

definition chan_ok :: "('v \<Rightarrow> 'v) \<Rightarrow> 'v acluster \<Rightarrow> node_id \<Rightarrow> node_id \<Rightarrow> 'v raft_message list \<Rightarrow> bool" where
  "chan_ok norm a x y ms \<longleftrightarrow>
     (\<forall>m\<in>set ms. x \<noteq> y \<and> arrives norm a x y m
        \<and> (\<forall>t k. covers m = Some (t, k) \<longrightarrow> ac_acked a y t \<le> k)) \<and> sorted_wrt covers_le ms"

definition fsim ::
  "('s \<Rightarrow> bool) \<Rightarrow> ('s \<Rightarrow> 'v durable) \<Rightarrow> ('v \<Rightarrow> 'v) \<Rightarrow> node_id set \<Rightarrow> 'v acluster \<Rightarrow> ('v, 's) fcluster \<Rightarrow> bool" where
  "fsim swf durable norm N a f \<longleftrightarrow>
     areach True N a \<and> (\<forall>n\<in>N. node_ok True swf durable norm N a n (f_node f n))
     \<and> (\<forall>x y. chan_ok norm a x y (f_chan f x y))"

text \<open>An \<open>AppendEntries\<close> that was sent comes from the leader of its term and covers part of its log.\<close>

lemma covers_norm [simp]: "covers (norm_msg norm m) = covers m"
  by (cases m) simp_all

lemma sent_by_leader:
  assumes "areach ordered N a" and "finite N" and "arrives norm a x y m" and "covers m = Some (t, j)"
  obtains k l where "ac_lead a t = Some (x, k, l)" and "j \<le> length l"
proof -
  have inv: "ae_inv a" using areach_safe [OF assms(1,2)] by (simp add: safe_inv_def)
  from assms(4) obtain n prev pt ens lc where m: "norm_msg norm m = AppendEntries t n prev pt ens lc"
      "j = append_start prev + length ens"
    by (cases m) auto
  moreover have "(x, y, norm_msg norm m) \<in> ac_net a" using assms(3,4) covers_tracked by (auto simp: arrives_def)
  ultimately have "\<exists>k l. ac_lead a t = Some (x, k, l) \<and> ae_slice l prev pt ens"
    using inv unfolding ae_inv_def by metis
  then show thesis using that m(2) by (auto simp: ae_slice_def)
qed

text \<open>The rest of a channel stays in order when its receiver moves.\<close>

lemma chan_ok_evolves:
  assumes ev: "evolves ordered N n acc a b" and fin: "finite N" and ok: "chan_ok norm a x y ms"
    and acc: "\<And>m t k k'. y = n \<Longrightarrow> acc = Some (t, k) \<Longrightarrow> m \<in> set ms \<Longrightarrow> covers m = Some (t, k') \<Longrightarrow> k \<le> k'"
  shows "chan_ok norm b x y ms"
proof -
  have "ac_acked b y t \<le> k" if m: "m \<in> set ms" "covers m = Some (t, k)" for m t k
  proof -
    have a: "x \<noteq> y" "arrives norm a x y m" "ac_acked a y t \<le> k" using ok m by (auto simp: chan_ok_def)
    from sent_by_leader [OF evolves_reach [OF ev] fin arrives_evolves [OF a(2) ev] m(2)] a(1)
    have "\<not> (\<exists>k l. ac_lead b t = Some (y, k, l))" by (metis option.inject prod.inject)
    then have "ac_acked b y t = ac_acked a y t \<or>
        y = n \<and> (\<exists>k. acc = Some (t, k) \<and> ac_acked b y t \<le> max k (ac_acked a y t))"
      using ev unfolding evolves_def by (cases "y = n") (simp, metis, simp)
    then show ?thesis using acc [OF _ _ m] a(3) by (auto simp: max_def split: if_splits intro: order_trans)
  qed
  then show ?thesis using ok arrives_evolves [OF _ ev] by (auto simp: chan_ok_def)
qed

text \<open>What a node sends goes to the end of its channels.\<close>

lemma chan_ok_post:
  assumes reach: "areach True N b" and fin: "finite N" and ok: "chan_ok norm b n y ms" and "y \<in> N - {n}"
    and sim: "nsim norm N b n s'" and outs: "outs_ok norm N b n outs" and cov: "covers_log (s', outs)"
  shows "chan_ok norm b n y (ms @ posted y outs)"
proof -
  have new: "arrives norm b n y m" if "m \<in> set (posted y outs)" for m
    using that outs assms(4) by (auto simp: posted_def arrives_def outs_ok_def sends_def)
  have full: "r_role s' = Leader \<and> t = r_current_term s' \<and> k = length (r_log s')"
    if "m \<in> set (posted y outs)" "covers m = Some (t, k)" for m t k
    using that cov by (auto simp: posted_def covers_log_def)
  have own: "\<exists>k. ac_lead b (r_current_term s') = Some (n, k, map (map_entry norm) (r_log s'))" if "r_role s' = Leader"
    using areach_leads [OF reach fin, of n] nsimD(4) [OF sim] that by (simp add: core_of_def)
  have lead: "j \<le> length (r_log s')" if "arrives norm b n y m" "covers m = Some (r_current_term s', j)"
    "r_role s' = Leader" for m j
    by (rule sent_by_leader [OF reach fin that(1,2)]) (use own [OF that(3)] in auto)
  have "ack_inv b" using areach_full [OF reach fin] by (simp add: full_inv_def)
  then have ack: "ac_acked b y (r_current_term s') \<le> length (r_log s')" if "r_role s' = Leader"
    using own [OF that] ack_invD(2) by fastforce
  have "covers_le m m'" if "m \<in> set ms \<union> set (posted y outs)" "m' \<in> set (posted y outs)" for m m'
    unfolding covers_le_def
  proof (intro allI impI)
    fix t k k' assume c: "covers m = Some (t, k)" "covers m' = Some (t, k')"
    from full [OF that(2) c(2)] have t: "r_role s' = Leader" "t = r_current_term s'" "k' = length (r_log s')" by simp_all
    have "arrives norm b n y m" using that(1) new ok by (auto simp: chan_ok_def)
    with lead t c(1) show "k \<le> k'" by simp
  qed
  then have "sorted_wrt covers_le (posted y outs)" "\<forall>m\<in>set ms. \<forall>m'\<in>set (posted y outs). covers_le m m'"
    by (auto simp: sorted_wrt_iff_nth_less)
  moreover have "ac_acked b y t \<le> k" if "m \<in> set (posted y outs)" "covers m = Some (t, k)" for m t k
    using full [OF that] ack by simp
  ultimately show ?thesis using ok new assms(4) by (auto simp: chan_ok_def sorted_wrt_append)
qed

section \<open>Refinement\<close>

context raft_storage_contract
begin

text \<open>A step of node \<open>n\<close>, after which the channels into it are \<open>chan\<close>.\<close>

lemma fsim_update:
  assumes sim: "fsim swf durable norm N a f" and fin: "finite N" and "n \<in> N" and ev: "evolves True N n acc a b"
    and ok: "node_ok True swf durable norm N b n s'" and outs: "outs_ok norm N b n outs"
    and cov: "covers_log (s', outs)" and chan: "\<And>x y. chan_ok norm b x y (chan x y)"
  shows "fsim swf durable norm N b \<lparr>f_node = (f_node f)(n := s'), f_chan = post N n outs chan\<rparr>"
proof -
  have "node_ok True swf durable norm N b m (f_node f m)" if "m \<in> N" "m \<noteq> n" for m
    by (rule node_ok_other [OF _ that(2) ev]) (use sim that(1) in \<open>simp add: fsim_def\<close>)
  moreover have "nsim norm N b n s'" using ok by (simp add: node_ok_def)
  ultimately show ?thesis
    using ok chan chan_ok_post [OF evolves_reach [OF ev] fin chan _ _ outs cov] evolves_reach [OF ev]
    by (simp add: fsim_def post_def)
qed

lemma chan_ok_sub:
  assumes "chan_ok norm a x y (ms @ m # rest)"
  shows "chan_ok norm a x y (ms @ rest)"
  using assms by (auto simp: chan_ok_def sorted_wrt_append)

lemma fstep_refines:
  assumes step: "fstep ops N f f'" and fin: "finite N" and sim: "fsim swf durable norm N a f"
  shows "\<exists>b. fsim swf durable norm N b f' \<and> lead_le a b \<and> ac_decided a \<subseteq> ac_decided b"
  using step
proof cases
  case (local_event n s' outs)
  from sim local_event(2) have reach: "areach True N a" and ok: "node_ok True swf durable norm N a n (f_node f n)"
    and chan: "\<And>x y. chan_ok norm a x y (f_chan f x y)"
    by (simp_all add: fsim_def)
  from local_refines [OF reach fin ok local_event(3)] obtain b where b: "evolves True N n None a b"
    "node_ok True swf durable norm N b n s'" "outs_ok norm N b n outs" by blast
  have "chan_ok norm b x y (f_chan f x y)" for x y by (rule chan_ok_evolves [OF b(1) fin chan]) simp
  from fsim_update [OF sim fin local_event(2) b local_step_covers [OF local_event(3)] this] b(1) local_event(1)
  show ?thesis by (auto simp: evolves_def)
next
  case (deliver m n msg rest e s' outs)
  let ?chan = "(f_chan f)(m := (f_chan f m)(n := rest))"
  from sim deliver(3) have reach: "areach True N a" and ok: "node_ok True swf durable norm N a n (f_node f n)"
    and chan: "\<And>x y. chan_ok norm a x y (f_chan f x y)"
    by (simp_all add: fsim_def)
  from chan [of m n] deliver(4) have msg: "arrives norm a m n msg"
      "\<And>t k. covers msg = Some (t, k) \<Longrightarrow> ac_acked a n t \<le> k" "chan_ok norm a m n rest"
      "\<And>m'. m' \<in> set rest \<Longrightarrow> covers_le msg m'"
    by (auto simp: chan_ok_def)
  from deliver_refines [OF reach fin ok deliver(2) msg(1,2) deliver(5)] obtain b where
    b: "evolves True N n (covers msg) a b" "node_ok True swf durable norm N b n s'" "outs_ok norm N b n outs" by blast
  have same_sender: "x = m" if "arrives norm a x n m'" "covers msg = Some (t, k)" "covers m' = Some (t, k')" for x m' t k k'
    using sent_by_leader [OF reach fin msg(1) that(2)] sent_by_leader [OF reach fin that(1,3)]
    by (metis option.inject prod.inject)
  have "chan_ok norm b x y (?chan x y)" for x y
  proof (rule chan_ok_evolves [OF b(1) fin])
    show "chan_ok norm a x y (?chan x y)" using chan msg(3) by simp
    fix m' t k k' assume "y = n" "covers msg = Some (t, k)" "m' \<in> set (?chan x y)" "covers m' = Some (t, k')"
    moreover from this have "arrives norm a x n m'" using chan msg(3) by (auto simp: chan_ok_def split: if_splits)
    ultimately show "k \<le> k'" using same_sender msg(4) by (fastforce simp: covers_le_def)
  qed
  note chans = this
  have cov: "covers_log (s', outs)" by (rule raft_io_covers [OF deliver(5)]) (rule covers_log_handle_message)
  have "fsim swf durable norm N b f'"
    unfolding deliver(1) by (rule fsim_update [OF sim fin deliver(3) b cov chans])
  with b(1) show ?thesis by (auto simp: evolves_def)
next
  case (drop_message m n ms msg rest)
  have "chan_ok norm a m n (ms @ rest)" using chan_ok_sub sim drop_message(2) by (metis fsim_def)
  with sim drop_message(1) lead_le_same show ?thesis by (intro exI [of _ a]) (auto simp: fsim_def)
qed

lemma fsteps_refine:
  assumes "(fstep ops N)\<^sup>*\<^sup>* f f'" and "finite N" and "fsim swf durable norm N a f"
  shows "\<exists>b. fsim swf durable norm N b f' \<and> lead_le a b \<and> ac_decided a \<subseteq> ac_decided b"
  using assms(1)
proof (induction rule: rtranclp_induct)
  case base
  with assms(3) show ?case using lead_le_same by blast
next
  case (step d d')
  then obtain b where b: "fsim swf durable norm N b d" "lead_le a b" "ac_decided a \<subseteq> ac_decided b" by blast
  from fstep_refines [OF step.hyps(2) assms(2) b(1)] obtain c where
    "fsim swf durable norm N c d'" "lead_le b c" "ac_decided b \<subseteq> ac_decided c" by blast
  with b lead_le_trans show ?case by blast
qed

lemma fcluster_refines:
  assumes "fcluster_init swf durable N f0" and "(fstep ops N)\<^sup>*\<^sup>* f0 f" and "finite N"
  shows "\<exists>a. fsim swf durable norm N a f"
proof -
  have "fsim swf durable norm N acluster_init f0"
    using assms(1) by (simp add: fsim_def fcluster_init_def fresh_node_ok areach.init chan_ok_def)
  with fsteps_refine [OF assms(2,3)] show ?thesis by blast
qed

end

text \<open>The decisions of a node: those it has stored and those it has yet to drain.\<close>

definition node_decided :: "('s \<Rightarrow> 'v durable) \<Rightarrow> ('v \<Rightarrow> 'v) \<Rightarrow> ('v, 's) raft_protocol \<Rightarrow> u64 \<Rightarrow> 'v \<Rightarrow> bool" where
  "node_decided durable norm s slot v \<longleftrightarrow>
     dur_decisions (durable (r_storage s)) slot = Some v
     \<or> (\<exists>d\<in>set (r_pending_decisions s). d_slot d = slot \<and> norm (d_value d) = v)"

lemma node_decided_abs:
  "node_ok ordered swf durable norm N a n s \<Longrightarrow> node_decided durable norm s slot v \<Longrightarrow> (slot, v) \<in> ac_decided a"
  by (auto simp: node_decided_def node_ok_def nsim_def)

context raft_storage_contract
begin

lemma fcluster_state_machine_safety:
  assumes init: "fcluster_init swf durable N f0" and run: "(fstep ops N)\<^sup>*\<^sup>* f0 f" "(fstep ops N)\<^sup>*\<^sup>* f f'" and fin: "finite N"
    and "n \<in> N" "m \<in> N" and dec: "node_decided durable norm (f_node f n) slot v" "node_decided durable norm (f_node f' m) slot w"
  shows "v = w"
proof -
  from fcluster_refines [OF init run(1) fin] obtain a where a: "fsim swf durable norm N a f" by blast
  from fsteps_refine [OF run(2) fin a] obtain b where b: "fsim swf durable norm N b f'" "ac_decided a \<subseteq> ac_decided b" by blast
  from a b \<open>n \<in> N\<close> \<open>m \<in> N\<close> node_decided_abs [OF _ dec(1)] node_decided_abs [OF _ dec(2)]
  have d: "(slot, v) \<in> ac_decided b" "(slot, w) \<in> ac_decided b" "areach True N b"
    unfolding fsim_def by blast+
  show ?thesis by (rule abstract_state_machine_safety [OF areach_full [OF d(3) fin] d(1,2)])
qed

lemma fcluster_committed_prefix:
  assumes init: "fcluster_init swf durable N f0" and run: "(fstep ops N)\<^sup>*\<^sup>* f0 f" and fin: "finite N"
    and "n \<in> N" "m \<in> N" and c: "r_commit_index (f_node f n) = Some c" "r_commit_index (f_node f m) = Some d" "c \<le> d"
  shows "c < length (r_log (f_node f n)) \<and> c < length (r_log (f_node f m))
    \<and> map (map_entry norm) (take (Suc c) (r_log (f_node f n))) = map (map_entry norm) (take (Suc c) (r_log (f_node f m)))"
proof -
  from fcluster_refines [OF init run fin] obtain a where a: "fsim swf durable norm N a f" by blast
  then have core: "ac_core a n = core_of norm (f_node f n)" "ac_core a m = core_of norm (f_node f m)"
    "areach True N a"
    using \<open>n \<in> N\<close> \<open>m \<in> N\<close> by (simp_all add: fsim_def node_ok_def nsim_def)
  from abstract_committed_prefix [OF areach_full [OF core(3) fin], of n c m d] c
  show ?thesis by (simp add: core core_of_def take_map)
qed

end

end
