(* ===== verification/RaftRun.thy ===== *)
theory RaftRun
  imports RaftFifo "HOL-Library.Code_Target_Nat"
begin

text \<open>
  Runs of a cluster as lists of events that can be executed: every executed run is a run of the
  step relations. The runs below elect a leader among three nodes, commit a value and restart a
  node; the cluster theorems are applied to them.
\<close>

section \<open>Executing events\<close>

datatype 'v local_event =
    Tick env nat
  | Propose env 'v
  | Drain
  | Take_Lost
  | Restart env raft_config env

fun local_exec ::
  "('s, 'v) raft_storage \<Rightarrow> node_id set \<Rightarrow> node_id \<Rightarrow> 'v local_event \<Rightarrow> ('v, 's) raft_protocol
   \<Rightarrow> (('v, 's) raft_protocol \<times> 'v raft_out) option" where
  "local_exec ops N n (Tick e now) s =
     (if r_current_term s < u64_max then raft_io ops (raft_on_tick e now s) else None)"
| "local_exec ops N n (Propose e v) s = raft_io ops (raft_propose e v s)"
| "local_exec ops N n Drain s =
     (case raft_drain_decisions ops s of (Ok _, s') \<Rightarrow> Some (s', []) | _ \<Rightarrow> None)"
| "local_exec ops N n Take_Lost s = Some (snd (raft_take_lost_proposals s), [])"
| "local_exec ops N n (Restart e cfg e') s =
     (case raft_new e n (card N) cfg (r_storage s) of None \<Rightarrow> None
      | Some s0 \<Rightarrow> (case raft_recover ops e' s0 of Some (Ok _, s') \<Rightarrow> Some (s', []) | _ \<Rightarrow> None))"

lemma local_exec_step:
  assumes "local_exec ops N n ev s = Some (s', outs)"
  shows "local_step ops N n s s' outs"
proof (cases ev)
  case Take_Lost
  with assms show ?thesis by (auto intro: local_step.take_lost prod.collapse [symmetric])
qed (use assms in \<open>auto intro: local_step.intros split: if_splits option.splits prod.splits result.splits\<close>)

datatype 'v event = At node_id "'v local_event" | Arrive node_id node_id env

fun fexec :: "('s, 'v) raft_storage \<Rightarrow> node_id set \<Rightarrow> 'v event \<Rightarrow> ('v, 's) fcluster \<Rightarrow> ('v, 's) fcluster option" where
  "fexec ops N (At n ev) f =
     (if n \<in> N then
        case local_exec ops N n ev (f_node f n) of None \<Rightarrow> None
        | Some (s', outs) \<Rightarrow> Some \<lparr>f_node = (f_node f)(n := s'), f_chan = post N n outs (f_chan f)\<rparr>
      else None)"
| "fexec ops N (Arrive m n e) f =
     (if m \<in> N \<and> n \<in> N then
        case f_chan f m n of [] \<Rightarrow> None
        | msg # rest \<Rightarrow> (case raft_io ops (raft_handle_message e m msg (f_node f n)) of None \<Rightarrow> None
           | Some (s', outs) \<Rightarrow> Some \<lparr>f_node = (f_node f)(n := s'),
               f_chan = post N n outs ((f_chan f)(m := (f_chan f m)(n := rest)))\<rparr>)
      else None)"

fun fexecs :: "('s, 'v) raft_storage \<Rightarrow> node_id set \<Rightarrow> 'v event list \<Rightarrow> ('v, 's) fcluster \<Rightarrow> ('v, 's) fcluster option" where
  "fexecs ops N [] f = Some f"
| "fexecs ops N (ev # evs) f = Option.bind (fexec ops N ev f) (fexecs ops N evs)"

lemma fexec_step: "fexec ops N ev f = Some f' \<Longrightarrow> fstep ops N f f'"
  by (cases ev)
     (auto split: if_splits option.splits list.splits intro: fstep.intros local_exec_step)

lemma fexecs_steps: "fexecs ops N evs f = Some f' \<Longrightarrow> (fstep ops N)\<^sup>*\<^sup>* f f'"
  by (induction evs arbitrary: f)
     (auto simp: bind_eq_Some_conv intro: converse_rtranclp_into_rtranclp fexec_step)

section \<open>Ordered runs as unordered runs\<close>

text \<open>A run over first-in first-out channels is also a run of the unordered network.\<close>

definition carries :: "('v, 's) cluster \<Rightarrow> ('v, 's) fcluster \<Rightarrow> bool" where
  "carries c f \<longleftrightarrow> c_node c = f_node f \<and> (\<forall>x y m. m \<in> set (f_chan f x y) \<longrightarrow> (x, y, m) \<in> c_net c)"

lemma carries_post:
  assumes "carries c f" and "\<And>x y. set (chan x y) \<subseteq> set (f_chan f x y)"
  shows "carries \<lparr>c_node = (c_node c)(n := s'), c_net = c_net c \<union> sends N n outs\<rparr>
    \<lparr>f_node = (f_node f)(n := s'), f_chan = post N n outs chan\<rparr>"
  using assms by (auto simp: carries_def post_def posted_def sends_def subset_iff split: if_splits)

lemma carries_step:
  assumes "fstep ops N f f'" and "carries c f"
  shows "\<exists>c'. (cstep ops N)\<^sup>*\<^sup>* c c' \<and> carries c' f'"
  using assms(1)
proof cases
  case (local_event n s' outs)
  let ?c = "\<lparr>c_node = (c_node c)(n := s'), c_net = c_net c \<union> sends N n outs\<rparr>"
  have "cstep ops N c ?c" using local_event assms(2) by (intro cstep.local_event) (simp_all add: carries_def)
  with local_event(1) carries_post [OF assms(2)] show ?thesis by blast
next
  case (deliver m n msg rest e s' outs)
  let ?c = "\<lparr>c_node = (c_node c)(n := s'), c_net = c_net c \<union> sends N n outs\<rparr>"
  have "cstep ops N c ?c" using deliver assms(2) by (intro cstep.deliver) (auto simp: carries_def)
  moreover have "carries ?c f'" unfolding deliver(1) using deliver(4) by (intro carries_post [OF assms(2)]) auto
  ultimately show ?thesis by blast
next
  case (drop_message m n ms msg rest)
  with assms(2) have "carries c f'" by (auto simp: carries_def split: if_splits)
  then show ?thesis by blast
qed

lemma carries_steps:
  assumes "(fstep ops N)\<^sup>*\<^sup>* f f'" and "carries c f"
  shows "\<exists>c'. (cstep ops N)\<^sup>*\<^sup>* c c' \<and> carries c' f'"
  using assms
proof (induction rule: rtranclp_induct)
  case (step g g')
  then obtain d where "(cstep ops N)\<^sup>*\<^sup>* c d" "carries d g" by blast
  with carries_step [OF step.hyps(2)] show ?case by (meson rtranclp_trans)
qed auto

section \<open>A run of three nodes\<close>

text \<open>
  Node \<open>a\<close> is elected with the vote of \<open>b\<close>, a value is proposed and replicated to \<open>b\<close>, committed,
  announced, stored by both, and \<open>b\<close> restarts from its storage.
\<close>

definition n1 :: node_id where "n1 = NodeId ''a'' 0"
definition n2 :: node_id where "n2 = NodeId ''b'' 0"
definition n3 :: node_id where "n3 = NodeId ''c'' 0"

definition env0 :: env where
  "env0 = \<lparr>clock = 0, random_range = (\<lambda>lo hi. lo)\<rparr>"

definition cfg0 :: raft_config where
  "cfg0 = \<lparr>rc_heartbeat_interval = 0, rc_election_timeout_min = 0, rc_election_timeout_max = 0\<rparr>"

definition trio :: "node_id set" where
  "trio = {n1, n2, n3}"

definition fcluster0 :: "(nat, nat raft_memory_storage) fcluster" where
  "fcluster0 = \<lparr>f_node = (\<lambda>n. the (raft_new env0 n (card trio) cfg0 raft_memory_storage_new)), f_chan = (\<lambda>_ _. [])\<rparr>"

definition cluster0 :: "(nat, nat raft_memory_storage) cluster" where
  "cluster0 = \<lparr>c_node = f_node fcluster0, c_net = {}\<rparr>"

definition run1 :: "nat event list" where
  "run1 = [At n1 (Tick env0 0), Arrive n1 n2 env0, Arrive n2 n1 env0, At n1 (Propose env0 7),
     Arrive n1 n2 env0, Arrive n2 n1 env0, Arrive n1 n2 env0, Arrive n2 n1 env0, At n1 Drain,
     At n1 (Tick env0 0), Arrive n1 n2 env0, At n2 Drain, At n2 (Restart env0 cfg0 env0)]"

definition fcluster1 :: "(nat, nat raft_memory_storage) fcluster" where
  "fcluster1 = the (fexecs raft_memory_ops trio run1 fcluster0)"

lemma trio_finite [simp]: "finite trio" "n1 \<in> trio" "n2 \<in> trio" "n3 \<in> trio"
  by (simp_all add: trio_def)

lemma fresh_three:
  "fresh_node rm_wf rm_durable trio n (the (raft_new env0 n (card trio) cfg0 raft_memory_storage_new))"
  unfolding fresh_node_def
  by (intro exI [of _ env0] exI [of _ cfg0] exI [of _ raft_memory_storage_new])
     (simp add: raft_new_def cfg0_def raft_config_validate_def rm_wf_def rm_durable_def durable_empty_def
        raft_memory_storage_new_def hm_wf_def hm_get_def fun_eq_iff)

lemma fcluster0_init: "fcluster_init rm_wf rm_durable trio fcluster0"
  by (simp add: fcluster_init_def fcluster0_def fresh_three)

lemma cluster0_init: "cluster_init rm_wf rm_durable trio cluster0"
  by (simp add: cluster_init_def cluster0_def fcluster0_def fresh_three)

lemma run1_eval:
  "map_option (\<lambda>f. (r_role (f_node f n1), r_leader (f_node f n1), r_current_term (f_node f n1), r_log (f_node f n3), map (\<lambda>n. (r_commit_index (f_node f n), r_log (f_node f n),
     dur_decisions (rm_durable (r_storage (f_node f n))) 0)) [n1, n2]))
     (fexecs raft_memory_ops trio run1 fcluster0)
   = Some (Leader, Some n1, 1, [], [(Some 0, [LogEntry 1 7], Some 7), (Some 0, [LogEntry 1 7], Some 7)])"
  by code_simp

lemma run1_exec: "fexecs raft_memory_ops trio run1 fcluster0 = Some fcluster1"
  using run1_eval unfolding fcluster1_def by (cases "fexecs raft_memory_ops trio run1 fcluster0") simp_all

lemma run1_steps: "(fstep raft_memory_ops trio)\<^sup>*\<^sup>* fcluster0 fcluster1"
  by (rule fexecs_steps [OF run1_exec])

lemma run1_state:
  "r_role (f_node fcluster1 n1) = Leader" "r_leader (f_node fcluster1 n1) = Some n1" "r_current_term (f_node fcluster1 n1) = 1"
  "r_commit_index (f_node fcluster1 n1) = Some 0" "r_commit_index (f_node fcluster1 n2) = Some 0"
  "r_log (f_node fcluster1 n3) = []"
  "r_log (f_node fcluster1 n1) = [LogEntry 1 7]" "r_log (f_node fcluster1 n2) = [LogEntry 1 7]"
  "dur_decisions (rm_durable (r_storage (f_node fcluster1 n1))) 0 = Some 7"
  "dur_decisions (rm_durable (r_storage (f_node fcluster1 n2))) 0 = Some 7"
  using run1_eval unfolding run1_exec by simp_all

lemma run1_unordered: "\<exists>c. (cstep raft_memory_ops trio)\<^sup>*\<^sup>* cluster0 c \<and> c_node c = f_node fcluster1"
proof -
  have "carries cluster0 fcluster0" by (simp add: carries_def cluster0_def fcluster0_def)
  from carries_steps [OF run1_steps this] show ?thesis by (auto simp: carries_def)
qed

end
