(* ===== verification/RaftProps.thy ===== *)
theory RaftProps
  imports RaftRun
begin

text \<open>
  The properties of a single Raft node of \<open>daccord/src/protocol/raft.rs\<close>: every operation
  returns, flushing brings storage up to date, the voting, replication and commit rules, and what
  a node sends.
\<close>

text \<open>A sample state for the witnesses: the third node of the run, still a fresh follower.\<close>

definition follower0 :: "(nat, nat raft_memory_storage) raft_protocol" where
  "follower0 = f_node fcluster0 n3"

lemma follower0_fields [simp]:
  "clean follower0" "r_current_term follower0 = 0" "r_voted_for follower0 = None" "r_log follower0 = []"
  "r_node_id follower0 = n3" "r_total_nodes follower0 = 3" "r_role follower0 = Follower"
  "r_storage follower0 = raft_memory_storage_new" "r_commit_index follower0 = None" "r_leader follower0 = None"
  "r_match_index follower0 = []" "r_pending_decisions follower0 = []" "r_last_applied follower0 = None"
  by (simp_all add: follower0_def fcluster0_def raft_new_def raft_config_validate_def cfg0_def clean_def trio_def
      n1_def n2_def n3_def)

lemma follower0_mirrors [simp]: "mirrors rm_durable (\<lambda>v. v) follower0" "rm_wf raft_memory_storage_new"
  by (simp_all add: mirrors_def rm_durable_def rm_wf_def hm_wf_def raft_memory_storage_new_def)


text \<open>
  C9. Flushing is complete: from a state that storage mirrors, after any one operation a flush
  never panics, and if it reports success then storage holds exactly the term, the vote and the
  log in memory, no write is left pending, and the stored decisions are untouched.
\<close>

theorem raft_flush_durable:
  assumes "raft_storage_contract ops swf durable norm" and "swf (r_storage s)" and "mirrors durable norm s" and "clean s"
    and "raft_handle_message e m msg s = Some r \<or> raft_on_tick e now s = Some r \<or> raft_propose e v s = Some r"
  shows "\<exists>res s'. raft_flush_persist ops (fst r) = Some (res, s')
    \<and> (res = Ok () \<longrightarrow> clean s' \<and> swf (r_storage s') \<and> mirrors durable norm s'
         \<and> r_log s' = r_log (fst r) \<and> r_current_term s' = r_current_term (fst r) \<and> r_voted_for s' = r_voted_for (fst r)
         \<and> dur_decisions (durable (r_storage s')) = dur_decisions (durable (r_storage s)))"
proof -
  have int: "intent_ok s (fst r)"
    using assms(5)
  proof (elim disjE)
  qed (rule handle_message_intent [OF assms(4)] on_tick_intent [OF assms(4)]
      propose_intent [OF clean_log_kept [OF assms(4)]], assumption)+
  from flush_no_panic [OF int] obtain res s' where fl: "raft_flush_persist ops (fst r) = Some (res, s')" by fastforce
  show ?thesis
  proof (cases "res = Ok ()")
    case True
    from fl True have "raft_flush_persist ops (fst r) = Some (Ok (), s')" by simp
    from raft_storage_contract.flush_mirrors [OF assms(1-3) int this] obtain st where
      "s' = flushed (fst r) st" "swf st" "mirrors durable norm s'"
      "dur_decisions (durable st) = dur_decisions (durable (r_storage s))" by blast
    with fl True show ?thesis by (auto simp: clean_def flushed_def)
  qed (use fl in blast)
qed

theorem raft_flush_durable_witness:
  "\<exists>s'. raft_flush_persist raft_memory_ops (fst (the (raft_on_tick env0 0 follower0))) = Some (Ok (), s')
    \<and> clean s' \<and> mirrors rm_durable (\<lambda>v. v) s' \<and> r_current_term s' = 1"
proof -
  let ?r = "the (raft_on_tick env0 0 follower0)"
  have "raft_on_tick env0 0 follower0 = Some ?r" using raft_on_tick_total [of env0 0 follower0] by auto
  with raft_flush_durable [OF raft_memory.raft_storage_contract_axioms, of follower0 env0 n1 "RForward 0 0" ?r 0 0]
  obtain res s' where s': "raft_flush_persist raft_memory_ops (fst ?r) = Some (res, s')"
    "res = Ok () \<longrightarrow> clean s' \<and> mirrors rm_durable (\<lambda>v. v) s' \<and> r_current_term s' = r_current_term (fst ?r)" by auto
  moreover have "r_current_term (fst ?r) = 1" "fst (the (raft_flush_persist raft_memory_ops (fst ?r))) = Ok ()"
    by code_simp+
  ultimately show ?thesis by simp
qed

text \<open>
  C10. The commit rule: a leader's commit index moves only to an entry of its own term that a
  quorum of match indexes reaches, and only forward.
\<close>

theorem raft_commit_rule:
  assumes "try_advance_commit s = Some s'" and "hm_wf (r_match_index s)" and "r_commit_index s' \<noteq> r_commit_index s"
  shows "\<exists>c. r_commit_index s' = Some c \<and> c < length (r_log s) \<and> e_term (r_log s ! c) = r_current_term s
    \<and> quorum_of (r_total_nodes s) \<le> card (replicas s c) \<and> opt_key (r_commit_index s) \<le> c"
  using assms(1)
proof (cases rule: try_advance_commit_cases)
  case (2 c ds la)
  have "opt_key (r_commit_index s) \<le> c" using 2(3) by (auto simp: opt_key_def split: option.split)
  with 2 assms(2) show ?thesis by (simp add: raft_quorum_def)
qed (use assms(3) in simp)

text \<open>A leader of three with one entry on itself and one follower.\<close>

definition leader1 :: "(nat, nat raft_memory_storage) raft_protocol" where
  "leader1 = follower0\<lparr>r_role := Leader, r_current_term := 1, r_log := [LogEntry 1 7],
     r_match_index := [(n3, Some 0), (n1, Some 0)]\<rparr>"

theorem raft_commit_rule_witness:
  "\<exists>c. r_commit_index (the (try_advance_commit leader1)) = Some c \<and> c < length (r_log leader1)
    \<and> e_term (r_log leader1 ! c) = r_current_term leader1
    \<and> quorum_of (r_total_nodes leader1) \<le> card (replicas leader1 c) \<and> opt_key (r_commit_index leader1) \<le> c"
proof (rule raft_commit_rule)
  show "try_advance_commit leader1 = Some (the (try_advance_commit leader1))"
    using try_advance_commit_total [of leader1] by auto
  show "hm_wf (r_match_index leader1)" by (simp add: leader1_def hm_wf_def n1_def n3_def)
  have "r_commit_index (the (try_advance_commit leader1)) = Some 0" by code_simp
  then show "r_commit_index (the (try_advance_commit leader1)) \<noteq> r_commit_index leader1" by (simp add: leader1_def)
qed

text \<open>
  C11. Voting: a vote request is answered with the node's term, and granted exactly when its term
  is not behind, the node has not voted for another candidate in its term, and the candidate's
  log is at least as up to date (later last term, or the same last term and at least as long).
  A granted vote is recorded and marked for persistence; a refusal changes nothing.
\<close>

theorem raft_vote_rule:
  "\<exists>grant. (grant \<longleftrightarrow> r_current_term s \<le> t \<and> (r_voted_for s = None \<or> r_voted_for s = Some cand)
        \<and> up_to_date (r_log s) lt li)
    \<and> handle_request_vote e t cand li lt s =
       (if grant then s\<lparr>r_voted_for := Some cand, r_pending_persist_voted_for := True,
                        r_election_deadline := clock e + sample_election_timeout e (r_config s)\<rparr> else s,
        [Outgoing (Peer cand) (RequestVoteResponse (r_current_term s) grant)])"
  by (rule exI [of _ "r_current_term s \<le> t \<and> (r_voted_for s = None \<or> r_voted_for s = Some cand)
        \<and> up_to_date (r_log s) lt li"])
     (auto simp: handle_request_vote_def Let_def up_to_date_core [where norm = "\<lambda>v. v", simplified] split: option.splits)

lemma update_commit_frame:
  assumes "update_commit lc mi s = Some s'"
  obtains ci pf ds la where "s' = s\<lparr>r_commit_index := ci, r_pending_persist_commit_index := pf,
    r_pending_decisions := ds, r_last_applied := la\<rparr>"
proof (cases "s' = s")
  case True
  then show thesis
    by (intro that [where ci = "r_commit_index s" and pf = "r_pending_persist_commit_index s"
          and ds = "r_pending_decisions s" and la = "r_last_applied s"]) simp
next
  case False
  with assms obtain c where
    "apply_committed_entries (s\<lparr>r_commit_index := Some c, r_pending_persist_commit_index := True\<rparr>) = Some s'"
    by (auto simp: update_commit_def Let_def split: option.splits if_splits)
  then obtain ds la where "s' = s\<lparr>r_commit_index := Some c, r_pending_persist_commit_index := True,
      r_pending_decisions := r_pending_decisions s @ ds, r_last_applied := la\<rparr>"
    by (elim apply_committed_entries_frame) simp
  then show thesis by (rule that)
qed

lemma append_accepts:
  assumes "handle_append_entries e (r_current_term s) l prev pt ens lc s = Some (s', outs)"
    and "r_role s \<noteq> Leader" and "prev_ok (r_log s) prev pt"
  obtains s4 where "update_commit lc (verified_index prev (length ens)) (accepted_state e l prev ens s) = Some s4"
    "s' = s4\<lparr>r_pending_proposals := []\<rparr>"
    "outs = Outgoing (Peer l) (AppendEntriesResponse (r_current_term s4) True (verified_index prev (length ens)) None None)
      # map (\<lambda>v. Outgoing (Peer l) (RForward v 0)) (r_pending_proposals s4)"
  using assms
  by (auto simp: handle_append_entries_def prev_ok_def accepted_state_def append_start_def Let_def
      split: Option.bind_splits option.splits)

lemma accepted_log_spec:
  assumes "append_start prev \<le> length log" and "\<not> (prev = None \<and> ens = [])"
  shows "take (append_start prev) (accepted_log prev ens log) = take (append_start prev) log"
    and "j < length ens \<Longrightarrow> accepted_log prev ens log ! (append_start prev + j) = ens ! j
      \<or> append_start prev + j < length log \<and> accepted_log prev ens log ! (append_start prev + j) = log ! (append_start prev + j)
        \<and> e_term (log ! (append_start prev + j)) = e_term (ens ! j)"
  using assms merge_log_prefix [OF assms(1), of ens] merge_log_nth [OF assms(1), of j ens]
  by (auto simp: accepted_log_def)





text \<open>
  A leader answers a rejection of its term with a single \<open>AppendEntries\<close> to that follower, which
  carries everything from the new next index to the end of its log and names the entry before it
  with that entry's term; its log, term and role are unchanged.
\<close>

theorem raft_retry_append:
  assumes "handle_append_entries_response m (r_current_term s) False mi ct ci s = Some (s', outs)" and "r_role s = Leader"
  shows "r_log s' = r_log s \<and> r_current_term s' = r_current_term s \<and> r_role s' = Leader
    \<and> (\<exists>k\<le>length (r_log s). hm_get (r_next_index s') m = Some k
        \<and> outs = [Outgoing (Peer m) (AppendEntries (r_current_term s) (r_node_id s)
             (if k = 0 then None else Some (k - 1)) (if k = 0 then 0 else e_term (r_log s ! (k - 1)))
             (drop k (r_log s)) (r_commit_index s))])"
proof -
  let ?k = "backoff_next_index s m ct ci"
  have "s' = s\<lparr>r_next_index := hm_insert m ?k (r_next_index s)\<rparr>"
    "outs = [Outgoing (Peer m) (AppendEntries (r_current_term s) (r_node_id s)
       (if ?k = 0 then None else Some (?k - 1)) (if ?k = 0 then 0 else e_term (r_log s ! (?k - 1)))
       (drop ?k (r_log s)) (r_commit_index s))]"
    using assms by (cases "?k = 0"; force simp: handle_append_entries_response_def Let_def)+
  with assms(2) backoff_next_index_le [of s m ct ci] show ?thesis by (intro conjI exI [of _ ?k]) simp_all
qed

theorem raft_retry_append_witness:
  "\<exists>s' outs k. handle_append_entries_response n1 1 False None None (Some 0) leader1 = Some (s', outs)
    \<and> r_log s' = [LogEntry 1 7] \<and> k \<le> 1 \<and> hm_get (r_next_index s') n1 = Some k"
proof -
  obtain s' outs where r: "handle_append_entries_response n1 1 False None None (Some 0) leader1 = Some (s', outs)"
    using handle_append_entries_response_total [of n1 1 False None None "Some 0" leader1] by auto
  moreover have "r_current_term leader1 = 1" "r_role leader1 = Leader" "r_log leader1 = [LogEntry 1 7]"
    by (simp_all add: leader1_def)
  ultimately show ?thesis
    using raft_retry_append [of n1 leader1 None None "Some 0" s' outs] by auto
qed



text \<open>
  The three operations of a node, as the node loop calls them.
\<close>

definition raft_operates :: "('v, 's) raft_protocol \<Rightarrow> ('v, 's) raft_protocol \<Rightarrow> bool" where
  "raft_operates s s' \<longleftrightarrow>
     (\<exists>e m msg outs. raft_handle_message e m msg s = Some (s', outs))
     \<or> (\<exists>e now outs. raft_on_tick e now s = Some (s', outs))
     \<or> (\<exists>e v outs. raft_propose e v s = Some (s', outs))"

definition ballot_le :: "('v, 's) raft_protocol \<Rightarrow> ('v, 's) raft_protocol \<Rightarrow> bool" where
  "ballot_le s s' \<longleftrightarrow> r_current_term s \<le> r_current_term s'
     \<and> (r_current_term s' = r_current_term s \<longrightarrow> (\<forall>x. r_voted_for s = Some x \<longrightarrow> r_voted_for s' = Some x))"

lemma ballot_le_same: "r_current_term s' = r_current_term s \<Longrightarrow> r_voted_for s' = r_voted_for s \<Longrightarrow> ballot_le s s'"
  by (simp add: ballot_le_def)

lemma ballot_le_trans: "ballot_le s s' \<Longrightarrow> ballot_le s' s'' \<Longrightarrow> ballot_le s s''"
  unfolding ballot_le_def by (metis le_antisym le_trans)

lemma advance_ballot: "try_advance_commit s = Some s' \<Longrightarrow> r_current_term s' = r_current_term s \<and> r_voted_for s' = r_voted_for s
   \<and> r_role s' = r_role s \<and> r_log s' = r_log s"
  by (erule try_advance_commit_frame) simp

lemma become_leader_ballot: "raft_become_leader e s = Some r \<Longrightarrow> ballot_le s (fst r)"
  by (rule ballot_le_same)
     (auto simp: raft_become_leader_def Let_def broadcast_heartbeat_def broadcast_with_entries_def bind_eq_Some_conv
        dest!: advance_ballot split: if_splits)

lemma propose_ballot: "raft_propose e v s = Some r \<Longrightarrow> ballot_le s (fst r)"
  by (rule ballot_le_same)
     (auto simp: raft_propose_def Let_def broadcast_with_entries_def bind_eq_Some_conv dest!: advance_ballot
        split: if_splits option.splits)

lemma start_election_ballot:
  assumes "raft_start_election e s = Some r" and "r_current_term s < u64_max"
  shows "ballot_le s (fst r)"
proof -
  let ?s = "s\<lparr>r_current_term := u64_add (r_current_term s) 1, r_role := Candidate,
     r_voted_for := Some (r_node_id s), r_votes_received := {r_node_id s}, r_leader := None,
     r_election_deadline := clock e + sample_election_timeout e (r_config s),
     r_pending_persist_term := True, r_pending_persist_voted_for := True\<rparr>"
  have "ballot_le s ?s" using assms(2) by (simp add: ballot_le_def)
  moreover have "ballot_le ?s (fst r)"
    using assms(1) by (auto simp: raft_start_election_def Let_def dest: become_leader_ballot
        intro: ballot_le_same split: if_splits)
  ultimately show ?thesis by (rule ballot_le_trans)
qed

lemma append_entries_ballot:
  assumes "handle_append_entries e t l prev pt ens lc s = Some r" and "t \<le> r_current_term s"
  shows "ballot_le s (fst r)"
  using assms
proof (cases rule: handle_append_entries_cases)
  case (accept s4)
  obtain ci pf ds la where "s4 = (accepted_state e l prev ens s)\<lparr>r_commit_index := ci,
      r_pending_persist_commit_index := pf, r_pending_decisions := ds, r_last_applied := la\<rparr>"
    using update_commit_frame [OF accept(4)] .
  then show ?thesis by (intro ballot_le_same) (simp_all add: accept(5) accepted_state_def)
next
  case (reject s1 out)
  then show ?thesis by (intro ballot_le_same) auto
qed

lemma append_response_ballot: "handle_append_entries_response m t ok mi ct ci s = Some r \<Longrightarrow> ballot_le s (fst r)"
  by (rule ballot_le_same)
     (auto simp: handle_append_entries_response_def Let_def dest!: advance_ballot split: if_splits option.splits)

lemma bump_ballot: "ballot_le s (bump_term e msg s)"
  by (auto simp: bump_term_def raft_become_follower_def ballot_le_def Let_def split: option.splits)

lemma handle_message_bumped:
  assumes "raft_handle_message e m msg s = Some r"
  shows "ballot_le (bump_term e msg s) (fst r)"
proof -
  let ?s = "bump_term e msg s"
  show ?thesis
  proof (cases msg)
    case (RequestVote t cand li lt)
    with assms show ?thesis
      by (auto simp: raft_handle_message_def Let_def handle_request_vote_def ballot_le_def split: option.splits)
  next
    case (RequestVoteResponse t g)
    let ?v = "?s\<lparr>r_votes_received := insert m (r_votes_received ?s)\<rparr>"
    from RequestVoteResponse assms have "raft_become_leader e ?v = Some r \<or> fst r = ?v \<or> fst r = ?s"
      by (auto simp: raft_handle_message_def Let_def handle_request_vote_response_def split: if_splits)
    moreover have "ballot_le ?s ?v" "ballot_le ?s ?s" by (simp_all add: ballot_le_same)
    ultimately show ?thesis using become_leader_ballot ballot_le_trans by metis
  next
    case (AppendEntries t l prev pt ens lc)
    with assms show ?thesis by (auto simp: raft_handle_message_def Let_def intro: append_entries_ballot)
  next
    case (AppendEntriesResponse t ok mi ct ci)
    with assms show ?thesis by (auto simp: raft_handle_message_def Let_def intro: append_response_ballot)
  next
    case (RForward v hops)
    with assms show ?thesis
      by (auto simp: raft_handle_message_def Let_def handle_raft_forward_def intro: ballot_le_same dest: propose_ballot
          split: if_splits option.splits)
  qed
qed

lemma handle_message_ballot: "raft_handle_message e m msg s = Some r \<Longrightarrow> ballot_le s (fst r)"
  by (rule ballot_le_trans [OF bump_ballot handle_message_bumped])

text \<open>
  C16. Terms and votes: no operation lowers a node's term, and within a term a vote once given is
  never changed. (The term counter wraps at its maximum, which the statement excludes.)
\<close>

theorem raft_vote_once:
  assumes "raft_operates s s'" and "r_current_term s < u64_max"
  shows "r_current_term s \<le> r_current_term s'
    \<and> (\<forall>x. r_current_term s' = r_current_term s \<longrightarrow> r_voted_for s = Some x \<longrightarrow> r_voted_for s' = Some x)"
proof -
  have "ballot_le s s'" if "raft_on_tick e now s = Some (s', outs)" for e now outs
    using that start_election_ballot [OF _ assms(2)]
    by (auto simp: raft_on_tick_def Let_def broadcast_heartbeat_def intro: ballot_le_same split: role.splits if_splits)
  then have "ballot_le s s'"
    using assms(1) handle_message_ballot propose_ballot unfolding raft_operates_def by fastforce
  then show ?thesis by (simp add: ballot_le_def)
qed

theorem raft_vote_once_witness:
  "r_current_term follower0 \<le> r_current_term (fst (the (raft_on_tick env0 0 follower0)))"
proof -
  have "raft_operates follower0 (fst (the (raft_on_tick env0 0 follower0)))"
    using raft_on_tick_total [of env0 0 follower0] unfolding raft_operates_def by (metis option.sel prod.collapse)
  then show ?thesis using raft_vote_once [of follower0] by (simp add: u64_max_def)
qed

lemma propose_leader:
  assumes "raft_propose e v s = Some r" and "r_role s = Leader"
  shows "r_role (fst r) = Leader \<and> r_log (fst r) = r_log s @ [LogEntry (r_current_term s) v]"
  using assms by (auto simp: raft_propose_def Let_def broadcast_with_entries_def bind_eq_Some_conv dest!: advance_ballot)

lemma append_response_leader:
  "handle_append_entries_response m t ok mi ct ci s = Some r \<Longrightarrow> r_role (fst r) = r_role s \<and> r_log (fst r) = r_log s"
  by (auto simp: handle_append_entries_response_def Let_def dest!: advance_ballot split: if_splits option.splits)

lemma handle_message_leader:
  assumes "raft_handle_message e m msg s = Some r" and lead: "r_role s = Leader" and bump: "bump_term e msg s = s"
  shows "r_role (fst r) = Leader \<and> (\<exists>es. r_log (fst r) = r_log s @ es)"
proof (cases msg)
  case (RequestVote t cand li lt)
  with assms show ?thesis by (auto simp: raft_handle_message_def Let_def handle_request_vote_def)
next
  case (RequestVoteResponse t g)
  with assms show ?thesis by (auto simp: raft_handle_message_def Let_def handle_request_vote_response_def)
next
  case (AppendEntries t l prev pt ens lc)
  have "t \<le> r_current_term s" using bump_term_append_entries bump AppendEntries by metis
  with AppendEntries assms show ?thesis
    by (auto simp: raft_handle_message_def Let_def handle_append_entries_def split: if_splits)
next
  case (AppendEntriesResponse t ok mi ct ci)
  with assms append_response_leader show ?thesis by (fastforce simp: raft_handle_message_def Let_def)
next
  case (RForward v hops)
  with assms propose_leader show ?thesis by (fastforce simp: raft_handle_message_def handle_raft_forward_def Let_def)
qed

text \<open>
  C17. A leader only appends: an operation that does not raise the leader's term leaves it the leader,
  with its log extended or unchanged.
\<close>

theorem raft_leader_append_only:
  assumes "raft_operates s s'" and "r_role s = Leader" and "r_current_term s' = r_current_term s"
  shows "r_role s' = Leader \<and> (\<exists>es. r_log s' = r_log s @ es)"
proof -
  have "?thesis" if r: "raft_handle_message e m msg s = Some (s', outs)" for e m msg outs
  proof (cases "bump_term e msg s = s")
    case True
    from handle_message_leader [OF r assms(2) True] show ?thesis by simp
  next
    case False
    then have "r_current_term s < r_current_term (bump_term e msg s)"
      by (auto simp: bump_term_def raft_become_follower_def Let_def split: option.splits if_splits)
    also have "\<dots> \<le> r_current_term s'" using handle_message_bumped [OF r] by (simp add: ballot_le_def)
    finally show ?thesis using assms(3) by simp
  qed
  moreover have "?thesis" if "raft_on_tick e now s = Some (s', outs)" for e now outs
    using that assms(2) by (auto simp: raft_on_tick_def broadcast_heartbeat_def Let_def split: if_splits)
  moreover have "?thesis" if "raft_propose e v s = Some (s', outs)" for e v outs
    using propose_leader [OF that assms(2)] by simp
  ultimately show ?thesis using assms(1) unfolding raft_operates_def by blast
qed

theorem raft_leader_append_only_witness:
  "r_role (fst (the (raft_propose env0 8 leader1))) = Leader
   \<and> (\<exists>es. r_log (fst (the (raft_propose env0 8 leader1))) = r_log leader1 @ es)"
proof (rule raft_leader_append_only)
  obtain r where r: "raft_propose env0 8 leader1 = Some r" using raft_propose_total [of env0 8 leader1] by blast
  then show "raft_operates leader1 (fst (the (raft_propose env0 8 leader1)))"
    unfolding raft_operates_def by (metis option.sel prod.collapse)
  show "r_role leader1 = Leader" by (simp add: leader1_def)
  show "r_current_term (fst (the (raft_propose env0 8 leader1))) = r_current_term leader1" by code_simp
qed

text \<open>
  C18. A cluster of one makes progress alone: a fresh node whose election deadline has passed becomes
  the leader of term 1 on its next tick, and a value proposed then is decided at once, at slot 0.
\<close>

theorem raft_single_node_decides:
  assumes "raft_new e n 1 cfg st = Some s0" and "r_election_deadline s0 \<le> now"
  shows "\<exists>s1 outs s2 outs'. raft_on_tick e' now s0 = Some (s1, outs) \<and> r_role s1 = Leader \<and> r_current_term s1 = 1
    \<and> raft_propose e'' v s1 = Some (s2, outs') \<and> r_commit_index s2 = Some 0 \<and> r_pending_decisions s2 = [Decision 0 v]"
proof -
  let ?s1 = "s0\<lparr>r_current_term := 1, r_role := Leader, r_voted_for := Some n, r_votes_received := {n}, r_leader := Some n,
     r_election_deadline := clock e' + sample_election_timeout e' cfg,
     r_pending_persist_term := True, r_pending_persist_voted_for := True, r_last_heartbeat_sent := Some (clock e')\<rparr>"
  from assms(1) have s0: "r_node_id s0 = n" "r_total_nodes s0 = 1" "r_config s0 = cfg" "r_role s0 = Follower" "r_log s0 = []"
    "r_current_term s0 = 0" "r_pending_proposals s0 = []" "r_next_index s0 = []" "r_match_index s0 = []"
    "r_commit_index s0 = None" "r_pending_decisions s0 = []" "r_last_applied s0 = None"
    by (auto simp: raft_new_def split: result.splits)
  have "\<exists>outs. raft_on_tick e' now s0 = Some (?s1, outs)"
    using assms(2) s0
    by (simp add: raft_on_tick_def raft_start_election_def raft_become_leader_def raft_quorum_def quorum_of_def
        broadcast_heartbeat_def Let_def u64_add_def)
  moreover have "\<exists>s2 outs'. raft_propose e'' v ?s1 = Some (s2, outs') \<and> r_commit_index s2 = Some 0
      \<and> r_pending_decisions s2 = [Decision 0 v]"
    using s0
    by (simp add: raft_propose_def try_advance_commit_def apply_committed_entries_def sort_desc_def hm_values_def
        hm_insert_def raft_quorum_def quorum_of_def opt_key_def broadcast_with_entries_def Let_def)
  ultimately show ?thesis by fastforce
qed

theorem raft_single_node_decides_witness:
  "\<exists>s1 outs s2 outs'. raft_on_tick env0 0 (the (raft_new env0 n1 1 cfg0 raft_memory_storage_new)) = Some (s1, outs)
    \<and> r_role s1 = Leader \<and> r_current_term s1 = 1
    \<and> raft_propose env0 (7::nat) s1 = Some (s2, outs') \<and> r_commit_index s2 = Some 0 \<and> r_pending_decisions s2 = [Decision 0 7]"
  by (rule raft_single_node_decides [of env0 n1 cfg0 raft_memory_storage_new])
     (simp_all add: raft_new_def cfg0_def raft_config_validate_def env0_def sample_election_timeout_def from_millis_def
        as_millis_def Let_def)

section \<open>Late messages\<close>


end
