(* ===== verification/PaxosLocal.thy ===== *)
theory PaxosLocal
  imports PaxosProtocol
begin

text \<open>
  The invariant of a Paxos node and what its operations do to its decisions: the slots it works on
  and the slots it has decided stay apart, the next slot lies past every decided one, and a
  decision is recorded once, announced once and never changed.
\<close>

section \<open>The invariant\<close>

definition instance_ok :: "'v paxos_instance \<Rightarrow> bool" where
  "instance_ok i \<longleftrightarrow> \<not> i_decided i \<and> finite (i_promises_received i) \<and> finite (i_accepts_received i)
     \<and> (i_is_proposer i \<longrightarrow> i_proposed_value i \<noteq> None)"

definition election_ok :: "'v election_state option \<Rightarrow> bool" where
  "election_ok el \<longleftrightarrow> (\<forall>x. el = Some x \<longrightarrow> (\<forall>y\<in>set (el_accepted x). fst y < u64_max))"

lemma election_ok_None [simp]: "election_ok None"
  by (simp add: election_ok_def)

definition paxos_wf :: "('v, 's) paxos_protocol \<Rightarrow> bool" where
  "paxos_wf s \<longleftrightarrow> hm_wf (p_instances s) \<and> hm_wf (p_decided_slots s)
     \<and> (\<forall>slot i. hm_get (p_instances s) slot = Some i \<longrightarrow> instance_ok i \<and> slot < u64_max
          \<and> hm_get (p_decided_slots s) slot = None)
     \<and> (\<forall>slot v. hm_get (p_decided_slots s) slot = Some v \<longrightarrow> slot < p_next_slot s)
     \<and> election_ok (p_election s)"

lemma paxos_wfD:
  assumes "paxos_wf s" and "hm_get (p_instances s) slot = Some i"
  shows "instance_ok i" and "hm_get (p_decided_slots s) slot = None" and "slot < u64_max"
  using assms by (auto simp: paxos_wf_def)

text \<open>What an operation may do to the decisions: add some, each once, and change none.\<close>

definition learned :: "'v decision list \<Rightarrow> (u64 \<rightharpoonup> 'v)" where
  "learned ds = map_of (map (\<lambda>d. (d_slot d, d_value d)) ds)"

lemma learned_Nil [simp]: "learned [] = Map.empty"
  by (simp add: learned_def)

lemma learned_Cons [simp]: "learned (d # ds) = (learned ds)(d_slot d \<mapsto> d_value d)"
  by (simp add: learned_def)

lemma learned_append [simp]: "learned (xs @ ys) = learned ys ++ learned xs"
  by (simp add: learned_def)

lemma learned_dom: "dom (learned ds) = d_slot ` set ds"
  by (simp add: learned_def dom_map_of_conv_image_fst image_image)

definition learns :: "('v, 's) paxos_protocol \<Rightarrow> ('v, 's) paxos_protocol \<Rightarrow> bool" where
  "learns s s' \<longleftrightarrow>
     (\<exists>ds. p_pending_decisions s' = p_pending_decisions s @ ds \<and> distinct (map d_slot ds)
        \<and> (\<forall>d\<in>set ds. hm_get (p_decided_slots s) (d_slot d) = None)
        \<and> hm_get (p_decided_slots s') = hm_get (p_decided_slots s) ++ learned ds)"

lemma learns_same:
  "p_pending_decisions s' = p_pending_decisions s \<Longrightarrow> p_decided_slots s' = p_decided_slots s \<Longrightarrow> learns s s'"
  unfolding learns_def by (intro exI [of _ "[]"]) simp

lemma learns_trans:
  assumes "learns s s'" and "learns s' s''"
  shows "learns s s''"
proof -
  from assms obtain ds ds' where
    ds: "p_pending_decisions s' = p_pending_decisions s @ ds" "distinct (map d_slot ds)"
      "\<forall>d\<in>set ds. hm_get (p_decided_slots s) (d_slot d) = None"
      "hm_get (p_decided_slots s') = hm_get (p_decided_slots s) ++ learned ds"
    and ds': "p_pending_decisions s'' = p_pending_decisions s' @ ds'" "distinct (map d_slot ds')"
      "\<forall>d\<in>set ds'. hm_get (p_decided_slots s') (d_slot d) = None"
      "hm_get (p_decided_slots s'') = hm_get (p_decided_slots s') ++ learned ds'"
    unfolding learns_def by blast
  have new: "hm_get (p_decided_slots s) (d_slot d) = None \<and> d_slot d \<notin> d_slot ` set ds" if "d \<in> set ds'" for d
    using ds'(3) that ds(4) by (auto simp: map_add_None simp flip: learned_dom)
  then have disj: "d_slot ` set ds \<inter> d_slot ` set ds' = {}" unfolding disjoint_iff by (metis imageE)
  have "learned ds ++ learned ds' = learned ds' ++ learned ds"
    using disj by (intro map_add_comm) (simp add: learned_dom)
  then have "hm_get (p_decided_slots s'') = hm_get (p_decided_slots s) ++ learned (ds @ ds')"
    using ds(4) ds'(4) by (simp flip: map_add_assoc)
  moreover have "\<forall>d\<in>set (ds @ ds'). hm_get (p_decided_slots s) (d_slot d) = None" using ds(3) new by auto
  ultimately show ?thesis
    using ds(1,2) ds'(1,2) disj unfolding learns_def by (intro exI [of _ "ds @ ds'"]) simp
qed

definition good :: "('v, 's) paxos_protocol \<Rightarrow> ('v, 's) paxos_protocol \<Rightarrow> bool" where
  "good s s' \<longleftrightarrow> paxos_wf s' \<and> learns s s'"

lemma good_trans: "good s s' \<Longrightarrow> good s' s'' \<Longrightarrow> good s s''"
  unfolding good_def using learns_trans by blast

lemma good_refl: "paxos_wf s \<Longrightarrow> good s s"
  by (simp add: good_def learns_same)

text \<open>Fields outside the invariant.\<close>

lemma good_frame:
  assumes "paxos_wf s" and "p_instances s' = p_instances s" and "p_decided_slots s' = p_decided_slots s"
    and "p_pending_decisions s' = p_pending_decisions s" and "p_next_slot s \<le> p_next_slot s'"
    and "p_election s' = p_election s \<or> election_ok (p_election s')"
  shows "good s s'"
  using assms by (auto simp: good_def paxos_wf_def intro: learns_same dest: less_le_trans)

lemma good_set_instance:
  assumes "paxos_wf s" and "instance_ok i" and "hm_get (p_decided_slots s) slot = None" and "slot < u64_max"
  shows "good s (set_instance slot i s)"
  using assms by (auto simp: good_def paxos_wf_def set_instance_def intro: learns_same split: if_splits)

lemma instance_ok_new [simp]: "instance_ok paxos_instance_new"
  by (simp add: instance_ok_def paxos_instance_new_def)

lemma get_or_create_good:
  assumes "paxos_wf s" and "hm_get (p_decided_slots s) slot = None" and "slot < u64_max" and "get_or_create_instance slot s = (i, s')"
  shows "good s s'" and "instance_ok i" and "p_decided_slots s' = p_decided_slots s" and "p_node_id s' = p_node_id s"
    and "p_quorum_size s' = p_quorum_size s" and "p_next_slot s' = p_next_slot s"
  using assms good_refl [OF assms(1)] good_set_instance [OF assms(1) instance_ok_new assms(2,3)] paxos_wfD(1) [OF assms(1)]
  by (auto simp: get_or_create_instance_def set_instance_def split: option.splits)

text \<open>Deciding a slot and dropping its instance.\<close>

lemma decide_sel [simp]:
  "p_decided_slots (decide e slot v s) = hm_insert slot v (p_decided_slots s)"
  "p_pending_decisions (decide e slot v s) = p_pending_decisions s @ [Decision slot v]"
  "p_instances (decide e slot v s) = p_instances s"
  "p_next_slot (decide e slot v s) = (if slot \<ge> p_next_slot s then u64_add slot 1 else p_next_slot s)"
  "p_node_id (decide e slot v s) = p_node_id s" "p_quorum_size (decide e slot v s) = p_quorum_size s"
  "p_multi_paxos (decide e slot v s) = p_multi_paxos s" "p_storage (decide e slot v s) = p_storage s"
  "p_lost_proposals (decide e slot v s) = p_lost_proposals s" "p_election (decide e slot v s) = p_election s"
  by (simp_all add: decide_def ack_decided_value_def Let_def)

lemma good_settle:
  assumes wf: "paxos_wf s" and "slot < u64_max" and new: "hm_get (p_decided_slots s) slot = None"
  shows "good s (remove_instance slot (decide e slot v s))"
proof -
  have "learns s (remove_instance slot (decide e slot v s))"
    using new unfolding learns_def
    by (intro exI [of _ "[Decision slot v]"]) (auto simp: remove_instance_def fun_eq_iff map_add_def)
  moreover have "paxos_wf (remove_instance slot (decide e slot v s))"
    using wf assms(2) by (auto simp: paxos_wf_def remove_instance_def split: if_splits intro: less_trans)
  ultimately show ?thesis by (simp add: good_def)
qed

section \<open>The operations\<close>

lemma handle_prepare_good:
  assumes "paxos_wf s" and "slot < u64_max"
  shows "good s (fst (handle_prepare m slot pn s))"
proof (cases "hm_get (p_decided_slots s) slot")
  case None
  obtain i s1 where g: "get_or_create_instance slot s = (i, s1)" by fastforce
  note c = get_or_create_good [OF assms(1) None assms(2) g]
  have "good s1 (set_instance slot (i\<lparr>i_highest_promised := Some pn\<rparr>) s1)"
    using c(1-3) None assms(2) by (intro good_set_instance) (simp_all add: good_def instance_ok_def)
  with c(1) g None show ?thesis by (auto simp: handle_prepare_def Let_def intro: good_trans)
qed (simp add: handle_prepare_def good_refl [OF assms(1)])

lemma handle_accept_good:
  assumes "paxos_wf s" and "slot < u64_max"
  shows "good s (fst (handle_accept m slot pn v s))"
proof (cases "hm_get (p_decided_slots s) slot")
  case None
  obtain i s1 where g: "get_or_create_instance slot s = (i, s1)" by fastforce
  note c = get_or_create_good [OF assms(1) None assms(2) g]
  have "good s1 (set_instance slot (i\<lparr>i_highest_promised := Some pn, i_accepted := Some (pn, v)\<rparr>) s1)"
    using c(1-3) None assms(2) by (intro good_set_instance) (simp_all add: good_def instance_ok_def)
  with c(1) g None show ?thesis by (auto simp: handle_accept_def Let_def intro: good_trans)
qed (simp add: handle_accept_def good_refl [OF assms(1)])

text \<open>The value of phase 2 and the instance after the node's own vote.\<close>

definition phase2_value :: "'v paxos_instance \<Rightarrow> 'v option" where
  "phase2_value i = (case i_highest_accepted i of Some (_, v) \<Rightarrow> Some v | None \<Rightarrow> i_proposed_value i)"

definition self_accept :: "node_id \<Rightarrow> 'v \<Rightarrow> 'v paxos_instance \<Rightarrow> 'v paxos_instance" where
  "self_accept n v i =
     (if at_least (i_highest_promised i) (i_proposal_number i)
      then i\<lparr>i_highest_promised := Some (i_proposal_number i), i_accepted := Some (i_proposal_number i, v),
             i_accepts_received := insert n (i_accepts_received i)\<rparr>
      else i)"

lemma self_accept_ok: "instance_ok i \<Longrightarrow> instance_ok (self_accept n v i)"
  by (simp add: self_accept_def instance_ok_def)

lemma start_phase2_eq:
  "start_phase2 e slot s =
     (case hm_get (p_instances s) slot of None \<Rightarrow> None
      | Some i \<Rightarrow> (case phase2_value i of None \<Rightarrow> None
         | Some v \<Rightarrow>
             let i1 = self_accept (p_node_id s) v i; s1 = set_instance slot i1 s
             in if card (i_accepts_received i1) \<ge> p_quorum_size s
                then Some (remove_instance slot (decide e slot v s1), [Outgoing Broadcast (Decide slot v)])
                else Some (s1, [Outgoing Broadcast (Accept slot (i_proposal_number i) v)])))"
  by (simp add: start_phase2_def phase2_value_def self_accept_def Let_def split: option.split)

lemma start_phase2_cases:
  assumes "start_phase2 e slot s = Some (s', outs)"
  obtains i v where "hm_get (p_instances s) slot = Some i" "phase2_value i = Some v"
    "s' = remove_instance slot (decide e slot v (set_instance slot (self_accept (p_node_id s) v i) s))"
    "outs = [Outgoing Broadcast (Decide slot v)]" "p_quorum_size s \<le> card (i_accepts_received (self_accept (p_node_id s) v i))"
  | i v where "hm_get (p_instances s) slot = Some i" "phase2_value i = Some v"
    "s' = set_instance slot (self_accept (p_node_id s) v i) s"
    "outs = [Outgoing Broadcast (Accept slot (i_proposal_number i) v)]"
    "card (i_accepts_received (self_accept (p_node_id s) v i)) < p_quorum_size s"
  using assms unfolding start_phase2_eq Let_def by (auto split: option.splits if_splits)

lemma start_phase2_good:
  assumes wf: "paxos_wf s" and "slot < u64_max" and r: "start_phase2 e slot s = Some (s', outs)"
  shows "good s s'"
proof -
  have g: "good s (set_instance slot (self_accept n v i) s)" if "hm_get (p_instances s) slot = Some i" for i n v
    using paxos_wfD [OF wf that] by (intro good_set_instance [OF wf] self_accept_ok)
  have d: "good t (remove_instance slot (decide e slot v t))" if "t = set_instance slot (self_accept n v i) s"
      "hm_get (p_instances s) slot = Some i" for t i n v
    using g [OF that(2)] paxos_wfD(2) [OF wf that(2)] assms(2)
    by (intro good_settle) (simp_all add: that(1) good_def set_instance_def)
  from r show ?thesis
  proof (cases rule: start_phase2_cases)
    case (1 i v)
    from good_trans [OF g [OF 1(1)] d [OF refl 1(1)]] 1(3) show ?thesis by simp
  next
    case (2 i v)
    with g show ?thesis by simp
  qed
qed

definition record_promise ::
  "node_id \<Rightarrow> (proposal_number \<times> 'v) option \<Rightarrow> 'v paxos_instance \<Rightarrow> 'v paxos_instance" where
  "record_promise m accepted i =
     (let i1 = i\<lparr>i_promises_received := insert m (i_promises_received i)\<rparr> in
      case accepted of
        Some (pn, val) \<Rightarrow>
          if above (map_option fst (i_highest_accepted i1)) pn then i1\<lparr>i_highest_accepted := Some (pn, val)\<rparr> else i1
      | None \<Rightarrow> i1)"

lemma record_promise_sel [simp]:
  "i_promises_received (record_promise m acc i) = insert m (i_promises_received i)"
  "i_accepts_received (record_promise m acc i) = i_accepts_received i"
  "i_proposal_number (record_promise m acc i) = i_proposal_number i"
  "i_proposed_value (record_promise m acc i) = i_proposed_value i"
  "i_highest_promised (record_promise m acc i) = i_highest_promised i"
  "i_accepted (record_promise m acc i) = i_accepted i"
  "i_decided (record_promise m acc i) = i_decided i" "i_is_proposer (record_promise m acc i) = i_is_proposer i"
  by (simp_all add: record_promise_def Let_def split: option.split prod.split)

lemma record_promise_ok: "instance_ok i \<Longrightarrow> instance_ok (record_promise m acc i)"
  by (simp add: instance_ok_def)

lemma handle_promise_cases:
  assumes "handle_promise e m slot pn acc s = Some (s', outs)"
  obtains "s' = s" "outs = []"
  | i where "hm_get (p_decided_slots s) slot = None" "hm_get (p_instances s) slot = Some i" "i_proposal_number i = pn"
      "\<not> i_decided i" "s' = set_instance slot (record_promise m acc i) s" "outs = []"
      "card (insert m (i_promises_received i)) < p_quorum_size s"
  | i where "hm_get (p_decided_slots s) slot = None" "hm_get (p_instances s) slot = Some i" "i_proposal_number i = pn"
      "\<not> i_decided i" "start_phase2 e slot (set_instance slot (record_promise m acc i) s) = Some (s', outs)"
      "p_quorum_size s \<le> card (insert m (i_promises_received i))"
proof -
  have eq: "handle_promise e m slot pn acc s =
     (if hm_contains (p_decided_slots s) slot then Some (s, [])
      else case hm_get (p_instances s) slot of None \<Rightarrow> Some (s, [])
        | Some i \<Rightarrow> if \<not> (i_proposal_number i = pn \<and> \<not> i_decided i) then Some (s, [])
            else if card (insert m (i_promises_received i)) \<ge> p_quorum_size s
                 then start_phase2 e slot (set_instance slot (record_promise m acc i) s)
                 else Some (set_instance slot (record_promise m acc i) s, []))"
    unfolding handle_promise_def Let_def record_promise_def [unfolded Let_def, symmetric] record_promise_sel ..
  note r = assms [unfolded eq hm_contains_def]
  show thesis
  proof (cases "hm_get (p_decided_slots s) slot = None \<and> (\<exists>i. hm_get (p_instances s) slot = Some i
      \<and> i_proposal_number i = pn \<and> \<not> i_decided i)")
    case False
    with r show thesis by (intro that(1)) (auto split: if_splits option.splits)
  next
    case True
    then obtain i where i: "hm_get (p_decided_slots s) slot = None" "hm_get (p_instances s) slot = Some i"
      "i_proposal_number i = pn" "\<not> i_decided i" by blast
    show thesis
    proof (cases "p_quorum_size s \<le> card (insert m (i_promises_received i))")
      case True
      with r i show thesis by (intro that(3) [OF i]) simp_all
    next
      case False
      with r i show thesis by (intro that(2) [OF i]) simp_all
    qed
  qed
qed

lemma handle_promise_good:
  assumes wf: "paxos_wf s" and "slot < u64_max" and r: "handle_promise e m slot pn acc s = Some (s', outs)"
  shows "good s s'"
proof -
  have g: "good s (set_instance slot (record_promise m acc i) s)" if "hm_get (p_instances s) slot = Some i" for i
    using paxos_wfD [OF wf that] by (intro good_set_instance [OF wf] record_promise_ok)
  from r show ?thesis
  proof (cases rule: handle_promise_cases)
    case (3 i)
    note g = g [OF 3(2)]
    then have "good (set_instance slot (record_promise m acc i) s) s'"
      by (intro start_phase2_good [OF _ assms(2) 3(5)]) (simp add: good_def)
    with g show ?thesis by (rule good_trans)
  qed (use g wf in \<open>auto simp: good_refl\<close>)
qed

lemma handle_accepted_cases:
  assumes "handle_accepted e m slot pn s = Some (s', outs)"
  obtains "s' = s" "outs = []"
  | i where "hm_get (p_decided_slots s) slot = None" "hm_get (p_instances s) slot = Some i" "i_proposal_number i = pn"
      "s' = set_instance slot (i\<lparr>i_accepts_received := insert m (i_accepts_received i)\<rparr>) s" "outs = []"
      "card (insert m (i_accepts_received i)) < p_quorum_size s"
  | i b v where "hm_get (p_decided_slots s) slot = None" "hm_get (p_instances s) slot = Some i" "i_proposal_number i = pn"
      "i_accepted i = Some (b, v)" "p_quorum_size s \<le> card (insert m (i_accepts_received i))"
      "s' = remove_instance slot (decide e slot v (set_instance slot
         (i\<lparr>i_accepts_received := insert m (i_accepts_received i), i_decided := True\<rparr>) s))"
      "outs = [Outgoing Broadcast (Decide slot v)]"
proof (cases "hm_get (p_decided_slots s) slot = None \<and> (\<exists>i. hm_get (p_instances s) slot = Some i
      \<and> i_proposal_number i = pn \<and> \<not> i_decided i)")
  case False
  with assms show thesis
    by (intro that(1)) (auto simp: handle_accepted_def Let_def hm_contains_def split: if_splits option.splits)
next
  case True
  then obtain i where i: "hm_get (p_decided_slots s) slot = None" "hm_get (p_instances s) slot = Some i"
    "i_proposal_number i = pn" "\<not> i_decided i" by blast
  note r = assms [unfolded handle_accepted_def Let_def hm_contains_def]
  show thesis
  proof (cases "p_quorum_size s \<le> card (insert m (i_accepts_received i))")
    case True
    with r i obtain b v where "i_accepted i = Some (b, v)" by (cases "i_accepted i") auto
    with True r i show thesis by (intro that(3) [OF i(1-3)]) auto
  next
    case False
    with r i show thesis by (intro that(2) [OF i(1-3)]) auto
  qed
qed

text \<open>The instance that is dropped does not matter.\<close>

lemma settle_set_instance:
  assumes "good s (remove_instance slot (decide e slot v s))"
  shows "good s (remove_instance slot (decide e slot v (set_instance slot i s)))"
proof -
  have "remove_instance slot (decide e slot v (set_instance slot i s)) =
      (remove_instance slot (decide e slot v s))\<lparr>p_instances := hm_remove slot (hm_insert slot i (p_instances s))\<rparr>"
    by (simp add: remove_instance_def set_instance_def decide_def ack_decided_value_def Let_def)
  moreover have "hm_get (hm_remove slot (hm_insert slot i (p_instances s))) = hm_get (hm_remove slot (p_instances s))"
    by (simp add: fun_eq_iff)
  moreover have "hm_wf (hm_remove slot (p_instances s)) \<Longrightarrow> hm_wf (hm_remove slot (hm_insert slot i (p_instances s)))"
    by (simp add: hm_remove_insert)
  ultimately show ?thesis using assms
    by (simp add: good_def paxos_wf_def learns_def remove_instance_def)
qed

lemma handle_accepted_good:
  assumes wf: "paxos_wf s" and "slot < u64_max" and r: "handle_accepted e m slot pn s = Some (s', outs)"
  shows "good s s'"
  using r
proof (cases rule: handle_accepted_cases)
  case (2 i)
  with paxos_wfD [OF wf 2(2)] show ?thesis by (auto intro!: good_set_instance [OF wf] simp: instance_ok_def)
next
  case (3 i b v)
  then show ?thesis by (auto intro: settle_set_instance good_settle [OF wf assms(2)])
qed (use wf in \<open>simp add: good_refl\<close>)

text \<open>A proposer's value that lost its slot, to be proposed again.\<close>

definition lost_value :: "u64 \<Rightarrow> 'v \<Rightarrow> ('v, 's) paxos_protocol \<Rightarrow> 'v list" where
  "lost_value slot v s =
     (case hm_get (p_instances s) slot of
        Some i \<Rightarrow> (case i_proposed_value i of Some p \<Rightarrow> (if i_is_proposer i \<and> p \<noteq> v then [p] else []) | None \<Rightarrow> [])
      | None \<Rightarrow> [])"

lemma handle_decide_eq:
  obtains ls where "handle_decide e m slot v s =
    (if hm_contains (p_decided_slots s) slot then s\<lparr>p_leader_state := ls\<rparr>
     else remove_instance slot (decide e slot v
       (s\<lparr>p_leader_state := ls, p_lost_proposals := p_lost_proposals s @ lost_value slot v s\<rparr>)))"
proof -
  let ?ls = "if p_multi_paxos s then
      (case p_leader_state s of PFollower (Some l) t \<Rightarrow> if l = m then PFollower (Some l) (clock e) else p_leader_state s
       | _ \<Rightarrow> p_leader_state s) else p_leader_state s"
  let ?s = "s\<lparr>p_leader_state := ?ls\<rparr>"
  have s1: "(if p_multi_paxos s then
          case p_leader_state s of
            PFollower (Some leader_id) _ \<Rightarrow>
              (if leader_id = m then s\<lparr>p_leader_state := PFollower (Some leader_id) (clock e)\<rparr> else s)
          | _ \<Rightarrow> s else s) = ?s"
    by (simp split: leader_state.split option.split)
  have s2: "(case hm_get (p_instances ?s) slot of
         Some i \<Rightarrow> if i_is_proposer i then
             case i_proposed_value i of
               Some proposed \<Rightarrow> if proposed \<noteq> v then ?s\<lparr>p_lost_proposals := p_lost_proposals ?s @ [proposed]\<rparr> else ?s
             | None \<Rightarrow> ?s
           else ?s
       | None \<Rightarrow> ?s) = ?s\<lparr>p_lost_proposals := p_lost_proposals s @ lost_value slot v s\<rparr>"
    by (simp add: lost_value_def split: option.split)
  show thesis
    by (rule that [of ?ls]) (unfold handle_decide_def Let_def s1 s2, simp)
qed

lemma handle_decide_good:
  assumes wf: "paxos_wf s" and "slot < u64_max"
  shows "good s (handle_decide e m slot v s)"
proof -
  obtain ls where eq: "handle_decide e m slot v s =
    (if hm_contains (p_decided_slots s) slot then s\<lparr>p_leader_state := ls\<rparr>
     else remove_instance slot (decide e slot v
       (s\<lparr>p_leader_state := ls, p_lost_proposals := p_lost_proposals s @ lost_value slot v s\<rparr>)))"
    by (rule handle_decide_eq)
  let ?s = "s\<lparr>p_leader_state := ls, p_lost_proposals := p_lost_proposals s @ lost_value slot v s\<rparr>"
  have g: "good s ?s" "good s (s\<lparr>p_leader_state := ls\<rparr>)" by (auto intro!: good_frame [OF wf])
  then have "good ?s (remove_instance slot (decide e slot v ?s))" if "\<not> hm_contains (p_decided_slots s) slot"
    using that assms(2) by (intro good_settle) (simp_all add: good_def hm_contains_def)
  with g show ?thesis unfolding eq by (auto intro: good_trans)
qed

definition nacked :: "env \<Rightarrow> u64 \<Rightarrow> u64 \<Rightarrow> ('v, 's) paxos_protocol \<Rightarrow> ('v, 's) paxos_protocol" where
  "nacked e slot round s =
     (case hm_get (p_instances s) slot of
        None \<Rightarrow> s
      | Some i \<Rightarrow> set_instance slot
          (i\<lparr>i_nacked := True, i_last_nack_time := Some (clock e),
             i_highest_seen_nack :=
               (if (case i_highest_seen_nack i of None \<Rightarrow> True | Some r \<Rightarrow> round > r)
                then Some round else i_highest_seen_nack i),
             i_next_retry_at := Some (clock e + retry_delay e (i_retry_count i))\<rparr>) s)"

lemma handle_nack_eq:
  "handle_nack e slot hp s =
     (let s1 = nacked e slot (fst hp) s in
      if p_multi_paxos s1 then
        let s2 = update_highest_seen_round (fst hp) s1 in if is_leader s2 then step_down e None s2 else s2
      else s1)"
  unfolding handle_nack_def nacked_def Let_def ..

lemma nacked_good:
  assumes "paxos_wf s"
  shows "good s (nacked e slot round s)"
proof (cases "hm_get (p_instances s) slot")
  case (Some i)
  with paxos_wfD [OF assms Some] show ?thesis
    unfolding nacked_def by (auto intro!: good_set_instance [OF assms] simp: instance_ok_def)
qed (simp add: nacked_def good_refl [OF assms])

lemma handle_nack_good:
  assumes "paxos_wf s"
  shows "good s (handle_nack e slot hp s)"
proof -
  note g = nacked_good [OF assms, of e slot "fst hp"]
  have "good (nacked e slot (fst hp) s) (handle_nack e slot hp s)"
    using g by (intro good_frame) (simp_all add: good_def handle_nack_eq update_highest_seen_round_def step_down_def Let_def)
  with g show ?thesis by (rule good_trans)
qed

section \<open>Proposing and retrying\<close>

text \<open>The instance of a first round.\<close>

definition first_round :: "env \<Rightarrow> node_id \<Rightarrow> 'v \<Rightarrow> 'v paxos_instance \<Rightarrow> 'v paxos_instance" where
  "first_round e n v i = i\<lparr>i_proposal_number := (1, n), i_proposed_value := Some v,
     i_is_proposer := True, i_last_send_time := Some (clock e),
     i_next_retry_at := Some (clock e + first_retry_delay e),
     i_highest_promised := Some (1, n), i_promises_received := insert n (i_promises_received i)\<rparr>"

definition instance_at :: "u64 \<Rightarrow> ('v, 's) paxos_protocol \<Rightarrow> 'v paxos_instance" where
  "instance_at slot s = (case hm_get (p_instances s) slot of Some i \<Rightarrow> i | None \<Rightarrow> paxos_instance_new)"

lemma get_or_create_eq:
  obtains m where "get_or_create_instance slot s = (instance_at slot s, s\<lparr>p_instances := m\<rparr>)"
    "\<And>i. hm_insert slot i m = hm_insert slot i (p_instances s)" "m = p_instances s \<or> m = hm_insert slot paxos_instance_new (p_instances s)"
proof (cases "hm_get (p_instances s) slot")
  case (Some i)
  then show thesis by (intro that [of "p_instances s"]) (simp_all add: get_or_create_instance_def instance_at_def)
next
  case None
  then show thesis
    by (intro that [of "hm_insert slot paxos_instance_new (p_instances s)"])
       (simp_all add: get_or_create_instance_def instance_at_def hm_insert_insert)
qed

lemma set_instance_created: "get_or_create_instance slot s = (i, s1) \<Longrightarrow> set_instance slot j s1 = set_instance slot j s"
  by (rule get_or_create_eq [of slot s]) (auto simp: set_instance_def)

lemma get_or_create_fst: "get_or_create_instance slot s = (i, s1) \<Longrightarrow> i = instance_at slot s"
  by (rule get_or_create_eq [of slot s]) auto

lemma instance_at_ok: "paxos_wf s \<Longrightarrow> instance_ok (instance_at slot s)"
  by (auto simp: instance_at_def dest: paxos_wfD split: option.split)

text \<open>The state in which a first round for the next slot has been entered.\<close>

definition enter_round :: "env \<Rightarrow> 'v \<Rightarrow> ('v, 's) paxos_protocol \<Rightarrow> ('v, 's) paxos_protocol" where
  "enter_round e v s = set_instance (p_next_slot s) (first_round e (p_node_id s) v (instance_at (p_next_slot s) s))
     (s\<lparr>p_next_slot := u64_add (p_next_slot s) 1\<rparr>)"

lemma propose_full_eq:
  "propose_full_paxos e v s =
     (if card (insert (p_node_id s) (i_promises_received (instance_at (p_next_slot s) s))) \<ge> p_quorum_size s
      then map_option (\<lambda>(s4, outs). (p_next_slot s, s4, outs)) (start_phase2 e (p_next_slot s) (enter_round e v s))
      else Some (p_next_slot s, enter_round e v s, [Outgoing Broadcast (Prepare (p_next_slot s) (1, p_node_id s))]))"
proof -
  let ?s1 = "s\<lparr>p_next_slot := u64_add (p_next_slot s) 1\<rparr>"
  obtain i s2 where g: "get_or_create_instance (p_next_slot s) ?s1 = (i, s2)" by fastforce
  have i: "i = instance_at (p_next_slot s) s" using get_or_create_fst [OF g] by (simp add: instance_at_def)
  have s3: "set_instance (p_next_slot s) (first_round e (p_node_id s) v i) s2 = enter_round e v s"
    unfolding set_instance_created [OF g] enter_round_def i ..
  show ?thesis
    using s3 unfolding propose_full_paxos_def Let_def g
    by (simp add: first_round_def i) (simp add: enter_round_def set_instance_def)
qed

lemma enter_round_good:
  assumes wf: "paxos_wf s" and "p_next_slot s < u64_max"
  shows "good s (enter_round e v s)" and "hm_get (p_decided_slots s) (p_next_slot s) = None"
proof -
  let ?s1 = "s\<lparr>p_next_slot := u64_add (p_next_slot s) 1\<rparr>"
  show none: "hm_get (p_decided_slots s) (p_next_slot s) = None"
    using wf by (cases "hm_get (p_decided_slots s) (p_next_slot s)") (auto simp: paxos_wf_def)
  have g: "good s ?s1" using assms by (intro good_frame) simp_all
  moreover have "good ?s1 (enter_round e v s)"
    unfolding enter_round_def
    using g instance_at_ok [OF wf] none assms(2)
    by (intro good_set_instance) (simp_all add: good_def instance_ok_def first_round_def)
  ultimately show "good s (enter_round e v s)" by (rule good_trans)
qed

lemma propose_full_good:
  assumes wf: "paxos_wf s" and small: "p_next_slot s < u64_max" and r: "propose_full_paxos e v s = Some (slot, s', outs)"
  shows "good s s'"
proof -
  note g = enter_round_good(1) [OF assms(1,2), of e v]
  then have "good (enter_round e v s) s'" if "start_phase2 e (p_next_slot s) (enter_round e v s) = Some (s', outs)"
    using that small by (intro start_phase2_good [of _ "p_next_slot s"]) (simp_all add: good_def)
  with g r show ?thesis unfolding propose_full_eq by (auto split: if_splits intro: good_trans)
qed

text \<open>The instance of a leader's fast path, and of a value replayed after an election.\<close>

definition fast_round ::
  "env \<Rightarrow> node_id \<Rightarrow> proposal_number \<Rightarrow> 'v \<Rightarrow> node_id set \<Rightarrow> node_id set \<Rightarrow> 'v paxos_instance \<Rightarrow> 'v paxos_instance" where
  "fast_round e n pn v proms accs i = i\<lparr>i_proposal_number := pn, i_proposed_value := Some v,
     i_is_proposer := True, i_last_send_time := Some (clock e),
     i_next_retry_at := Some (clock e + first_retry_delay e),
     i_highest_promised := Some pn, i_accepted := Some (pn, v),
     i_accepts_received := insert n accs, i_promises_received := insert n proms\<rparr>"

lemma fast_round_ok: "instance_ok i \<Longrightarrow> finite proms \<Longrightarrow> finite accs \<Longrightarrow> instance_ok (fast_round e n pn v proms accs i)"
  by (simp add: instance_ok_def fast_round_def)

definition vote_round ::
  "env \<Rightarrow> u64 \<Rightarrow> proposal_number \<Rightarrow> 'v \<Rightarrow> 'v paxos_instance \<Rightarrow> ('v, 's) paxos_protocol
   \<Rightarrow> ('v, 's) paxos_protocol \<times> 'v paxos_out" where
  "vote_round e slot pn v i s =
     (if card (i_accepts_received i) \<ge> p_quorum_size s
      then (remove_instance slot (decide e slot v (set_instance slot i s)), [Outgoing Broadcast (Decide slot v)])
      else (set_instance slot i s, [Outgoing Broadcast (Accept slot pn v)]))"

lemma vote_round_good:
  assumes "paxos_wf s" and "instance_ok i" and "slot < u64_max" and "hm_get (p_decided_slots s) slot = None"
  shows "good s (fst (vote_round e slot pn v i s))"
  using good_set_instance [OF assms(1,2,4,3)] settle_set_instance [OF good_settle [OF assms(1,3,4)]]
  by (simp add: vote_round_def)

lemma propose_fast_eq:
  "propose_fast_path e v t s =
     (let slot = p_next_slot s; i = instance_at slot s;
          j = fast_round e (p_node_id s) (t, p_node_id s) v (i_promises_received i) (i_accepts_received i) i
      in (slot, vote_round e slot (t, p_node_id s) v j (s\<lparr>p_next_slot := u64_add slot 1\<rparr>)))"
proof -
  let ?s1 = "s\<lparr>p_next_slot := u64_add (p_next_slot s) 1\<rparr>"
  obtain i s2 where c: "get_or_create_instance (p_next_slot s) ?s1 = (i, s2)" by fastforce
  have i: "i = instance_at (p_next_slot s) s" using get_or_create_fst [OF c] by (simp add: instance_at_def)
  show ?thesis
    unfolding propose_fast_path_def Let_def c
    by (simp add: set_instance_created [OF c] i vote_round_def fast_round_def) (simp add: set_instance_def)
qed

lemma propose_fast_good:
  assumes wf: "paxos_wf s" and small: "p_next_slot s < u64_max" and r: "propose_fast_path e v t s = (slot, s', outs)"
  shows "good s s'"
proof -
  let ?s1 = "s\<lparr>p_next_slot := u64_add (p_next_slot s) 1\<rparr>"
  have g: "good s ?s1" using assms by (intro good_frame) simp_all
  let ?i = "instance_at (p_next_slot s) s"
  let ?j = "fast_round e (p_node_id s) (t, p_node_id s) v (i_promises_received ?i) (i_accepts_received ?i) ?i"
  have "instance_ok ?j"
    using instance_at_ok [OF wf, of "p_next_slot s"] by (simp add: instance_ok_def fast_round_def)
  then have "good ?s1 (fst (vote_round e (p_next_slot s) (t, p_node_id s) v ?j ?s1))"
    using g enter_round_good(2) [OF wf small] small by (intro vote_round_good) (simp_all add: good_def)
  moreover have "s' = fst (vote_round e (p_next_slot s) (t, p_node_id s) v ?j ?s1)"
    using r unfolding propose_fast_eq Let_def by (auto simp: prod_eq_iff)
  ultimately have "good ?s1 s'" by simp
  with g show ?thesis by (rule good_trans)
qed

lemma inner_propose_good:
  assumes "paxos_wf s" and "p_next_slot s < u64_max" and "inner_propose e v s = Some (slot, s', outs)"
  shows "good s s'"
  using assms propose_full_good [OF assms(1,2)] propose_fast_good [OF assms(1,2)]
  by (auto simp: inner_propose_def split: if_splits leader_state.splits)

text \<open>The instance of a new round.\<close>

definition new_round :: "'v paxos_instance \<Rightarrow> u64" where
  "new_round i = u64_add (max (max (case i_highest_promised i of None \<Rightarrow> 0 | Some hp \<Rightarrow> fst hp)
       (case i_highest_seen_nack i of None \<Rightarrow> 0 | Some r \<Rightarrow> r)) (fst (i_proposal_number i))) 1"

definition next_round :: "env \<Rightarrow> node_id \<Rightarrow> 'v paxos_instance \<Rightarrow> 'v paxos_instance" where
  "next_round e n i =
     (let retry_count = (i_retry_count i + 1) mod 2 ^ 32 in
      i\<lparr>i_proposal_number := (new_round i, n),
        i_accepts_received := {}, i_highest_accepted := None, i_nacked := False,
        i_highest_seen_nack := None, i_last_nack_time := None,
        i_retry_count := retry_count, i_last_send_time := Some (clock e),
        i_next_retry_at := Some (clock e + retry_delay e retry_count),
        i_highest_promised := Some (new_round i, n), i_promises_received := {n}\<rparr>)"

lemma retry_proposal_eq:
  "retry_proposal e slot s =
     (case hm_get (p_instances s) slot of
        None \<Rightarrow> Some (s, [])
      | Some i \<Rightarrow>
          if i_decided i \<or> \<not> i_is_proposer i then Some (s, [])
          else let s1 = set_instance slot (next_round e (p_node_id s) i) s
            in if 1 \<ge> p_quorum_size s then start_phase2 e slot s1
               else Some (s1, [Outgoing Broadcast (Prepare slot (new_round i, p_node_id s))]))"
  by (simp add: retry_proposal_def next_round_def new_round_def Let_def split: option.split)

lemma retry_good:
  assumes wf: "paxos_wf s" and "slot < u64_max" and r: "retry_proposal e slot s = Some (s', outs)"
  shows "good s s'"
proof (cases "hm_get (p_instances s) slot")
  case None
  with r good_refl [OF wf] show ?thesis by (auto simp: retry_proposal_eq)
next
  case (Some i)
  let ?s = "set_instance slot (next_round e (p_node_id s) i) s"
  have g: "good s ?s"
    using paxos_wfD [OF wf Some] by (intro good_set_instance [OF wf]) (simp_all add: instance_ok_def next_round_def Let_def)
  then have "good ?s s'" if "start_phase2 e slot ?s = Some (s', outs)"
    using that by (intro start_phase2_good [OF _ assms(2)]) (simp_all add: good_def)
  with g r Some good_refl [OF wf] show ?thesis
    by (auto simp: retry_proposal_eq Let_def split: if_splits intro: good_trans)
qed

section \<open>Leader election\<close>

lemma replay_accept_eq:
  "replay_accept e slot pn v s =
     (if hm_contains (p_decided_slots s) slot then (s, [])
      else vote_round e slot pn v (fast_round e (p_node_id s) pn v {} {} (instance_at slot s)) s)"
proof -
  obtain i s2 where c: "get_or_create_instance slot s = (i, s2)" by fastforce
  note i = get_or_create_fst [OF c]
  show ?thesis
    unfolding replay_accept_def Let_def c
    by (simp add: set_instance_created [OF c] i vote_round_def fast_round_def) (simp add: set_instance_def)
qed

lemma replay_accepts_good:
  assumes "paxos_wf s" and "\<forall>(slot, v)\<in>set xs. slot < u64_max"
  shows "good s (fst (replay_accepts e pn xs s))"
  using assms
proof (induction e pn xs s rule: replay_accepts.induct)
  case (2 e pn slot v rest s)
  obtain s1 out1 where 1: "replay_accept e slot pn v s = (s1, out1)" by fastforce
  have g: "good s s1"
    using 1 2(2,3) vote_round_good [of s "fast_round e (p_node_id s) pn v {} {} (instance_at slot s)" slot e pn v]
      instance_at_ok [OF 2(2), of slot] good_refl [OF 2(2)]
    by (auto simp: replay_accept_eq fast_round_ok hm_contains_def split: if_splits)
  with 2(1) [OF 1 [symmetric] refl] 2(3) have "good s1 (fst (replay_accepts e pn rest s1))" by (simp add: good_def)
  with g 1 show ?case by (auto simp: Let_def split: prod.splits intro: good_trans)
qed (simp add: good_refl)

lemma advance_next_slot_good:
  "paxos_wf s \<Longrightarrow> good s (advance_next_slot m s)"
  by (auto simp: advance_next_slot_def split: option.split intro: good_frame good_refl)

lemma highest_per_slot_keys:
  "hm_contains (highest_per_slot dec xs m) slot \<Longrightarrow> hm_contains m slot \<or> slot \<in> fst ` set xs"
  by (induction dec xs m rule: highest_per_slot.induct) (auto split: if_splits option.splits)

lemma complete_election_good:
  assumes wf: "paxos_wf s"
  shows "good s (fst (complete_leader_election e s))"
proof (cases "p_election s")
  case None
  then show ?thesis by (simp add: complete_leader_election_def good_refl [OF wf])
next
  case (Some el)
  let ?s1 = "s\<lparr>p_election := None, p_election_started_at := None\<rparr>"
  let ?h = "highest_per_slot (p_decided_slots ?s1) (el_accepted el) []"
  let ?s2 = "advance_next_slot (list_max (hm_keys ?h)) ?s1"
  let ?s3 = "advance_next_slot (list_max (hm_keys (p_instances ?s2))) ?s2"
  let ?s4 = "paxos_become_leader (fst (el_proposal_number el)) ?s3"
  let ?xs = "map (\<lambda>(slot, (_, val)). (slot, val)) ?h"
  have 1: "good s ?s1" by (rule good_frame [OF wf]) simp_all
  then have 2: "good ?s1 ?s2" by (intro advance_next_slot_good) (simp add: good_def)
  then have 3: "good ?s2 ?s3" by (intro advance_next_slot_good) (simp add: good_def)
  then have 4: "good ?s3 ?s4" by (intro good_frame) (simp_all add: good_def paxos_become_leader_def)
  have "slot < u64_max" if "hm_contains ?h slot" for slot
    using highest_per_slot_keys [OF that] wf Some by (auto simp: paxos_wf_def election_ok_def)
  then have "\<forall>(slot, v)\<in>set ?xs. slot < u64_max"
    by (force simp: hm_keys_contains [symmetric] hm_keys_def)
  with 4 have "good ?s4 (fst (replay_accepts e (el_proposal_number el) ?xs ?s4))"
    by (intro replay_accepts_good) (simp_all add: good_def)
  with 1 2 3 4 have "good s (fst (replay_accepts e (el_proposal_number el) ?xs ?s4))" using good_trans by blast
  with Some show ?thesis by (simp add: complete_leader_election_def Let_def)
qed

lemma collect_accepted_slots:
  "x \<in> set (collect_accepted_for_promise since s) \<Longrightarrow> fst x \<in> fst ` set (p_instances s)"
  by (force simp: collect_accepted_for_promise_def split: if_splits option.splits)

text \<open>The state of a candidate.\<close>

definition campaign :: "env \<Rightarrow> ('v, 's) paxos_protocol \<Rightarrow> ('v, 's) paxos_protocol" where
  "campaign e s =
     (let s1 = s\<lparr>p_leader_state := PCandidate\<rparr>;
          round = u64_add (p_highest_seen_round s1) 1;
          proposal_number = (round, p_node_id s1);
          since_slot = (case list_min (hm_keys (p_instances s1)) of Some m \<Rightarrow> m | None \<Rightarrow> p_next_slot s1);
          s2 = s1\<lparr>p_election := Some \<lparr>el_proposal_number = proposal_number, el_since_slot = since_slot,
                      el_promises_received = {p_node_id s1},
                      el_accepted = collect_accepted_for_promise since_slot s1\<rparr>,
                  p_election_started_at := Some (clock e)\<rparr>;
          s3 = (if above (p_leader_promise s2) proposal_number
                then s2\<lparr>p_leader_promise := Some proposal_number\<rparr> else s2)
      in update_highest_seen_round round s3)"

lemma start_election_cases:
  obtains "paxos_start_election e s = complete_leader_election e (campaign e s)"
  | outs where "paxos_start_election e s = (campaign e s, outs)"
proof (cases "card {p_node_id s} \<ge> p_quorum_size s")
  case True
  then have "paxos_start_election e s = complete_leader_election e (campaign e s)"
    unfolding paxos_start_election_def campaign_def update_highest_seen_round_def Let_def by simp
  then show thesis by (rule that(1))
next
  case False
  then have "\<exists>outs. paxos_start_election e s = (campaign e s, outs)"
    unfolding paxos_start_election_def campaign_def update_highest_seen_round_def Let_def by simp
  then show thesis using that(2) by blast
qed

lemma campaign_good:
  assumes wf: "paxos_wf s"
  shows "good s (campaign e s)"
proof (rule good_frame [OF wf])
  let ?s1 = "s\<lparr>p_leader_state := PCandidate\<rparr>"
  have "slot < u64_max" if "slot \<in> fst ` set (p_instances ?s1)" for slot
    using that wf by (auto simp: paxos_wf_def hm_in_set [symmetric])
  with collect_accepted_slots [of _ _ ?s1]
  have "fst x < u64_max" if "x \<in> set (collect_accepted_for_promise since ?s1)" for x since
    using that by blast
  then show "p_election (campaign e s) = p_election s \<or> election_ok (p_election (campaign e s))"
    unfolding campaign_def update_highest_seen_round_def election_ok_def Let_def by auto
qed (simp_all add: campaign_def update_highest_seen_round_def Let_def)

lemma start_election_good:
  assumes wf: "paxos_wf s"
  shows "good s (fst (paxos_start_election e s))"
proof -
  note g = campaign_good [OF wf, of e]
  then have "good (campaign e s) (fst (complete_leader_election e (campaign e s)))"
    by (intro complete_election_good) (simp add: good_def)
  with g show ?thesis by (cases rule: start_election_cases [of e s]) (auto intro: good_trans)
qed

lemma handle_prepare_leader_good:
  assumes wf: "paxos_wf s"
  shows "good s (fst (handle_prepare_leader e m pn since s))"
  by (rule good_frame [OF wf])
     (auto simp: handle_prepare_leader_def update_highest_seen_round_def step_down_def Let_def split: option.splits)

lemma handle_promise_leader_good:
  assumes wf: "paxos_wf s" and "\<forall>x\<in>set acc. fst x < u64_max"
  shows "good s (fst (handle_promise_leader e m pn acc s))"
proof -
  have "good s (s\<lparr>p_election := Some (el\<lparr>el_promises_received := ps, el_accepted := el_accepted el @ acc\<rparr>)\<rparr>)"
    if "p_election s = Some el" for el ps
    using that wf assms(2) by (intro good_frame [OF wf]) (auto simp: paxos_wf_def election_ok_def)
  moreover have "good t (fst (complete_leader_election e t))" if "good s t" for t
    using that by (intro complete_election_good) (simp add: good_def)
  ultimately show ?thesis
    using good_refl [OF wf] by (auto simp: handle_promise_leader_def Let_def split: option.splits intro: good_trans)
qed

text \<open>The slots a message mentions; slot \<open>u64::MAX\<close> would wrap the next slot to zero.\<close>

fun message_slots :: "'v paxos_message \<Rightarrow> u64 set" where
  "message_slots (Prepare slot _) = {slot}"
| "message_slots (Promise slot _ _) = {slot}"
| "message_slots (Accept slot _ _) = {slot}"
| "message_slots (Accepted slot _ _) = {slot}"
| "message_slots (Decide slot _) = {slot}"
| "message_slots (PromiseLeader _ accepted) = fst ` set accepted"
| "message_slots _ = {}"

lemma paxos_handle_message_good:
  assumes wf: "paxos_wf s" and slots: "\<forall>slot\<in>message_slots msg. slot < u64_max" and small: "p_next_slot s < u64_max"
    and r: "paxos_handle_message e m msg s = Some (s', outs)"
  shows "good s s'"
proof (cases msg)
  case (PForward v)
  with r inner_propose_good [OF wf small] good_refl [OF wf] show ?thesis
    by (auto simp: paxos_handle_message_def handle_forward_def split: if_splits)
next
  case (Heartbeat t)
  have "good s (handle_heartbeat e m t s)"
    by (rule good_frame [OF wf])
       (auto simp: handle_heartbeat_def update_leader_contact_def step_down_def Let_def split: leader_state.splits)
  with r Heartbeat good_refl [OF wf] show ?thesis by (auto simp: paxos_handle_message_def split: if_splits)
next
  case (NackLeader pn hp)
  have "good s (handle_nack_leader e hp s)"
    by (rule good_frame [OF wf]) (auto simp: handle_nack_leader_def update_highest_seen_round_def Let_def)
  with r NackLeader good_refl [OF wf] show ?thesis by (auto simp: paxos_handle_message_def split: if_splits)
next
  case (PrepareLeader pn since)
  with r handle_prepare_leader_good [OF wf, of e m pn since] good_refl [OF wf] show ?thesis
    by (auto simp: paxos_handle_message_def split: if_splits)
next
  case (PromiseLeader pn acc)
  with r handle_promise_leader_good [OF wf, of acc e m pn] slots good_refl [OF wf] show ?thesis
    by (auto simp: paxos_handle_message_def split: if_splits)
qed (use r slots handle_prepare_good [OF wf] handle_accept_good [OF wf] handle_promise_good [OF wf]
    handle_accepted_good [OF wf] handle_decide_good [OF wf] handle_nack_good [OF wf]
    in \<open>auto simp: paxos_handle_message_def prod_eq_iff\<close>)

lemma paxos_propose_good:
  assumes wf: "paxos_wf s" and small: "p_next_slot s < u64_max" and r: "paxos_propose e v s = Some (s', outs)"
  shows "good s s'"
  using r inner_propose_good [OF wf small] good_frame [OF wf]
  by (auto simp: paxos_propose_def propose_or_forward_def split: if_splits option.splits)

lemma retry_proposals_good:
  assumes "paxos_wf s" and "\<forall>slot\<in>set slots. slot < u64_max" and "retry_proposals e slots s = Some (s', outs)"
  shows "good s s'"
  using assms
proof (induction slots arbitrary: s outs)
  case Nil
  then show ?case by (auto simp: good_refl)
next
  case (Cons slot slots)
  then obtain s1 o1 o2 where 1: "retry_proposal e slot s = Some (s1, o1)" "retry_proposals e slots s1 = Some (s', o2)"
    by (auto simp: bind_eq_Some_conv)
  have g: "good s s1" using Cons.prems by (intro retry_good [OF _ _ 1(1)]) simp_all
  with Cons.IH [OF _ _ 1(2)] Cons.prems(2) have "good s1 s'" by (simp add: good_def)
  with g show ?case by (rule good_trans)
qed

text \<open>The parts of the state that no operation changes.\<close>

definition fixed_of :: "('v, 's) paxos_protocol \<Rightarrow> node_id \<times> nat \<times> bool" where
  "fixed_of s = (p_node_id s, p_quorum_size s, p_multi_paxos s)"

lemma fixed_simps [simp]:
  "fixed_of (set_instance slot i s) = fixed_of s" "fixed_of (remove_instance slot s) = fixed_of s"
  "fixed_of (decide e slot v s) = fixed_of s"
  by (simp_all add: fixed_of_def set_instance_def remove_instance_def)

lemma start_phase2_fixed: "start_phase2 e slot s = Some (s', outs) \<Longrightarrow> fixed_of s' = fixed_of s"
  by (erule start_phase2_cases) simp_all

lemma retry_fixed: "retry_proposal e slot s = Some (s', outs) \<Longrightarrow> fixed_of s' = fixed_of s"
  by (auto simp: retry_proposal_eq Let_def split: option.splits if_splits dest: start_phase2_fixed)

lemma retry_proposals_fixed: "retry_proposals e slots s = Some (s', outs) \<Longrightarrow> fixed_of s' = fixed_of s"
  by (induction slots arbitrary: s outs) (fastforce simp: bind_eq_Some_conv dest: retry_fixed)+

lemma paxos_on_tick_good:
  assumes wf: "paxos_wf s" and "\<not> p_multi_paxos s" and r: "paxos_on_tick e s = Some (s', outs)"
  shows "good s s'"
proof -
  from r obtain s1 o1 where 1: "retry_proposals e (get_retryable_proposals e s) s = Some (s1, o1)"
    by (auto simp: paxos_on_tick_def bind_eq_Some_conv)
  have "\<not> p_multi_paxos s1" using retry_proposals_fixed [OF 1] assms(2) by (simp add: fixed_of_def)
  with r 1 have s': "s' = fst (get_decision_rebroadcasts e s1)"
    by (auto simp: paxos_on_tick_def get_decision_rebroadcasts_def Let_def)
  have "slot < u64_max" if "slot \<in> set (get_retryable_proposals e s)" for slot
    using that wf by (auto simp: get_retryable_proposals_def paxos_wf_def hm_in_set [symmetric])
  then have g: "good s s1" by (intro retry_proposals_good [OF wf _ 1]) simp
  then have "good s1 s'" unfolding s'
    by (intro good_frame) (simp_all add: good_def get_decision_rebroadcasts_def Let_def)
  with g show ?thesis by (rule good_trans)
qed

end
