(* ===== verification/PaxosProps.thy ===== *)
theory PaxosProps
  imports PaxosLocal "HOL-Library.Code_Target_Nat"
begin

text \<open>
  The properties of a single Paxos node of \<open>daccord/src/protocol/paxos.rs\<close>: its decisions are
  final, the rules its acceptor and its proposer follow, retries, recovery and leader election.
\<close>

section \<open>A sample node\<close>

definition pn1 :: node_id where "pn1 = NodeId ''a'' 0"
definition pn2 :: node_id where "pn2 = NodeId ''b'' 0"
definition pn3 :: node_id where "pn3 = NodeId ''c'' 0"

definition penv :: env where
  "penv = \<lparr>clock = 0, random_range = (\<lambda>lo hi. lo)\<rparr>"

definition paxos0 :: "(nat, nat paxos_memory_storage) paxos_protocol" where
  "paxos0 = paxos_new_with_config False penv pn1 3 paxos_config_default paxos_memory_storage_new"

lemma paxos_new_wf: "paxos_wf (paxos_new_with_config mp e n k cfg st)"
  by (simp add: paxos_wf_def paxos_new_with_config_def)

lemma paxos0_fields [simp]:
  "paxos_wf paxos0" "p_next_slot paxos0 = 0" "p_instances paxos0 = []" "p_decided_slots paxos0 = []"
  "\<not> p_multi_paxos paxos0" "p_node_id paxos0 = pn1" "p_quorum_size paxos0 = 2"
  by (simp_all add: paxos0_def paxos_new_wf) (simp_all add: paxos_new_with_config_def)

text \<open>The same node after it has proposed the value \<open>7\<close>.\<close>

definition paxos1 :: "(nat, nat paxos_memory_storage) paxos_protocol" where
  "paxos1 = enter_round penv 7 paxos0"

lemma paxos1_fields:
  "hm_get (p_instances paxos1) 0 = Some (first_round penv pn1 7 paxos_instance_new)" "p_node_id paxos1 = pn1"
  "p_quorum_size paxos1 = 2" "p_decided_slots paxos1 = []" "\<not> p_multi_paxos paxos1" "p_lost_proposals paxos1 = []"
  by (simp_all add: paxos1_def enter_round_def set_instance_def instance_at_def)
    (simp add: paxos0_def paxos_new_with_config_def)

lemma paxos1_proposed: "paxos_propose penv 7 paxos0 = Some (paxos1, [Outgoing Broadcast (Prepare 0 (1, pn1))])"
  by (simp add: paxos1_def paxos_propose_def inner_propose_def propose_full_eq instance_at_def paxos_instance_new_def)

lemma penv_rng: "rng_in_range penv"
  by (simp add: penv_def rng_in_range_def)

lemma small_slot [simp]: "(0::nat) < u64_max"
  by (simp add: u64_max_def)

section \<open>Decisions\<close>

text \<open>
  The operations of a node: any message whose slots are below \<open>u64::MAX\<close>, a proposal, and - in the
  default build - a tick.
\<close>

definition paxos_operates :: "('v, 's) paxos_protocol \<Rightarrow> ('v, 's) paxos_protocol \<Rightarrow> bool" where
  "paxos_operates s s' \<longleftrightarrow>
     (\<exists>e m msg outs. (\<forall>slot\<in>message_slots msg. slot < u64_max) \<and> paxos_handle_message e m msg s = Some (s', outs))
     \<or> (\<exists>e v outs. paxos_propose e v s = Some (s', outs))
     \<or> (\<exists>e outs. \<not> p_multi_paxos s \<and> paxos_on_tick e s = Some (s', outs))"

lemma paxos_operates_good:
  assumes "paxos_wf s" and "p_next_slot s < u64_max" and "paxos_operates s s'"
  shows "good s s'"
  using assms(3) paxos_handle_message_good [OF assms(1) _ assms(2)] paxos_propose_good [OF assms(1,2)]
    paxos_on_tick_good [OF assms(1)]
  unfolding paxos_operates_def by blast



section \<open>The acceptor\<close>

lemma handle_prepare_eq:
  "handle_prepare m slot pn s =
     (case hm_get (p_decided_slots s) slot of
        Some v \<Rightarrow> (s, [Outgoing (Peer m) (Decide slot v)])
      | None \<Rightarrow>
          let i = instance_at slot s in
          case i_highest_promised i of
            Some hp \<Rightarrow>
              if hp < pn then (set_instance slot (i\<lparr>i_highest_promised := Some pn\<rparr>) s, [Outgoing (Peer m) (Promise slot pn (i_accepted i))])
              else (s, [Outgoing (Peer m) (NackPrepare slot pn hp)])
          | None \<Rightarrow> (set_instance slot (i\<lparr>i_highest_promised := Some pn\<rparr>) s, [Outgoing (Peer m) (Promise slot pn (i_accepted i))]))"
proof (cases "hm_get (p_decided_slots s) slot")
  case None
  obtain i s1 where g: "get_or_create_instance slot s = (i, s1)" by fastforce
  note i = get_or_create_fst [OF g] and set = set_instance_created [OF g]
  have "s1 = s" if "i_highest_promised i \<noteq> None"
    using that g by (auto simp: get_or_create_instance_def paxos_instance_new_def split: option.splits)
  with None show ?thesis
    by (auto simp: handle_prepare_def g set above_def Let_def simp flip: i split: option.splits)
qed (simp add: handle_prepare_def)

lemma at_least_greater: "at_least (Some (if a \<ge> b then a else b)) pn \<longleftrightarrow> at_least (Some a) pn \<and> at_least (Some b) pn"
  using order_trans [of a b pn] order_trans [of b a pn] linorder_linear [of a b] by (simp add: at_least_def del: less_eq_prod_simp) blast

text \<open>
  Accept: an undecided acceptor accepts exactly the proposals that reach its floor, which is its
  promise for the slot and, in the \<open>multi-paxos\<close> build, also the promise it gave to a leader for all
  slots. An accepted proposal becomes its promise and its accepted value; a refused one changes
  neither.
\<close>

theorem paxos_accept_rule:
  assumes "hm_get (p_decided_slots s) slot = None"
  shows "let i = instance_at slot s;
          reaches = (at_least (i_highest_promised i) pn \<and> (p_multi_paxos s \<longrightarrow> at_least (p_leader_promise s) pn))
     in (reaches \<longrightarrow> handle_accept m slot pn v s =
           (set_instance slot (i\<lparr>i_highest_promised := Some pn, i_accepted := Some (pn, v)\<rparr>) s, [Outgoing (Peer m) (Accepted slot pn v)]))
        \<and> (\<not> reaches \<longrightarrow> instance_at slot (fst (handle_accept m slot pn v s)) = i
             \<and> (\<exists>hp>pn. snd (handle_accept m slot pn v s) = [Outgoing (Peer m) (NackAccept slot pn hp)]))"
proof -
  obtain i s1 where g: "get_or_create_instance slot s = (i, s1)" by fastforce
  note i = get_or_create_fst [OF g] and set = set_instance_created [OF g]
  have same: "instance_at slot s1 = i"
    using g by (auto simp: get_or_create_instance_def instance_at_def split: option.splits)
  have per: "Option.bind (hm_get (p_instances s) slot) i_highest_promised = i_highest_promised i"
    by (simp add: i instance_at_def paxos_instance_new_def split: option.split)
  have floor: "at_least (effective_floor slot s) pn \<longleftrightarrow>
      (at_least (i_highest_promised i) pn \<and> (p_multi_paxos s \<longrightarrow> at_least (p_leader_promise s) pn))"
    unfolding effective_floor_def per Let_def
    by (cases "i_highest_promised i"; cases "p_leader_promise s")
      (simp_all only: at_least_greater option.case prod.case split: if_split, simp_all add: at_least_def)
  have nack: "\<exists>hp>pn. the (effective_floor slot s) = hp" if "\<not> at_least (effective_floor slot s) pn"
    using that by (cases "effective_floor slot s") (simp_all add: at_least_def not_le del: split_paired_Ex)
  show ?thesis
    using assms same nack
    unfolding Let_def i [symmetric] floor [symmetric] by (auto simp: handle_accept_def g set Let_def)
qed

theorem paxos_accept_rule_witness:
  "fst (handle_accept pn2 0 (1, pn2) 5 paxos0) =
     set_instance 0 (paxos_instance_new\<lparr>i_highest_promised := Some (1, pn2), i_accepted := Some ((1, pn2), 5)\<rparr>) paxos0"
  using paxos_accept_rule [of paxos0 0 "(1, pn2)" pn2 5] by (simp add: instance_at_def Let_def paxos_instance_new_def at_least_def)

text \<open>Promises are compared with nothing as the least.\<close>

definition promise_le :: "proposal_number option \<Rightarrow> proposal_number option \<Rightarrow> bool" where
  "promise_le a b \<longleftrightarrow> (\<forall>x. a = Some x \<longrightarrow> (\<exists>y. b = Some y \<and> x \<le> y))"

definition keeps_promises :: "('v, 's) paxos_protocol \<Rightarrow> ('v, 's) paxos_protocol \<Rightarrow> bool" where
  "keeps_promises s s' \<longleftrightarrow>
     (\<forall>slot i. hm_get (p_instances s) slot = Some i \<longrightarrow>
        (case hm_get (p_instances s') slot of
           Some i' \<Rightarrow> promise_le (i_highest_promised i) (i_highest_promised i')
         | None \<Rightarrow> hm_contains (p_decided_slots s') slot))"

lemma promise_le_refl [simp]: "promise_le a a"
  by (simp add: promise_le_def)

lemma promise_le_Some: "at_least a pn \<or> above a pn \<Longrightarrow> promise_le a (Some pn)"
  by (auto simp: promise_le_def at_least_def above_def split: option.splits)

lemma keeps_refl: "p_instances s' = p_instances s \<Longrightarrow> keeps_promises s s'"
  by (simp add: keeps_promises_def split: option.split)

lemma keeps_set:
  assumes "promise_le (i_highest_promised (instance_at slot s)) (i_highest_promised j)"
  shows "keeps_promises s (set_instance slot j s)"
  using assms by (auto simp: keeps_promises_def set_instance_def instance_at_def split: option.splits)

lemma keeps_settle: "keeps_promises s (remove_instance slot (decide e slot v (set_instance slot i s)))"
  by (auto simp: keeps_promises_def remove_instance_def set_instance_def split: option.split)

lemma keeps_phase2:
  assumes "start_phase2 e slot (set_instance slot j s) = Some (s', outs)"
    and "i_highest_promised j = i_highest_promised (instance_at slot s)"
  shows "keeps_promises s s'"
proof -
  have twice: "set_instance slot x (set_instance slot j s) = set_instance slot x s" for x
    by (simp add: set_instance_def hm_insert_insert)
  have "promise_le (i_highest_promised (instance_at slot s)) (i_highest_promised (self_accept n v j))" for n v
    using assms(2) by (auto simp: self_accept_def intro: promise_le_Some)
  with keeps_set [of slot s] assms(1) show ?thesis
    by (auto elim!: start_phase2_cases simp: set_instance_def [of slot j] twice [unfolded set_instance_def [of slot j]]
        keeps_settle)
qed

lemma keeps_decide: "keeps_promises s (handle_decide e m slot v s)"
proof -
  obtain ls where eq: "handle_decide e m slot v s =
    (if hm_contains (p_decided_slots s) slot then s\<lparr>p_leader_state := ls\<rparr>
     else remove_instance slot (decide e slot v
       (s\<lparr>p_leader_state := ls, p_lost_proposals := p_lost_proposals s @ lost_value slot v s\<rparr>)))"
    by (rule handle_decide_eq)
  show ?thesis unfolding eq by (auto simp: keeps_promises_def remove_instance_def split: option.split)
qed

lemma keeps_nack:
  assumes "\<not> p_multi_paxos s"
  shows "keeps_promises s (handle_nack e slot hp s)"
proof -
  have "p_multi_paxos (nacked e slot (fst hp) s) = p_multi_paxos s"
    by (simp add: nacked_def set_instance_def split: option.split)
  then show ?thesis using assms
    by (auto simp: handle_nack_eq nacked_def keeps_refl instance_at_def cong: if_cong intro!: keeps_set split: option.split)
qed

lemma keeps_accept:
  assumes "\<not> p_multi_paxos s"
  shows "keeps_promises s (fst (handle_accept m slot pn v s))"
proof -
  obtain j s1 where g: "get_or_create_instance slot s = (j, s1)" by fastforce
  have "keeps_promises s s1"
    using g by (auto simp: keeps_promises_def get_or_create_instance_def split: option.splits if_splits)
  moreover have "at_least (i_highest_promised (instance_at slot s)) pn" if "at_least (effective_floor slot s) pn"
    using that assms by (auto simp: effective_floor_def instance_at_def paxos_instance_new_def at_least_def
        split: option.splits)
  ultimately show ?thesis
    by (auto simp: handle_accept_def g Let_def set_instance_created [OF g] keeps_refl
        split: option.splits intro!: keeps_set promise_le_Some)
qed



section \<open>The proposer\<close>

text \<open>Delivering a list of promises for one proposal.\<close>

fun deliver_promises ::
  "env \<Rightarrow> u64 \<Rightarrow> proposal_number \<Rightarrow> (node_id \<times> (proposal_number \<times> 'v) option) list \<Rightarrow> ('v, 's) paxos_protocol
   \<Rightarrow> (('v, 's) paxos_protocol \<times> 'v paxos_out) option" where
  "deliver_promises e slot pn [] s = Some (s, [])"
| "deliver_promises e slot pn ((m, acc) # ps) s =
     Option.bind (paxos_handle_message e m (Promise slot pn acc) s) (\<lambda>(s1, out1).
       map_option (\<lambda>(s2, out2). (s2, out1 @ out2)) (deliver_promises e slot pn ps s1))"

fun record_promises ::
  "(node_id \<times> (proposal_number \<times> 'v) option) list \<Rightarrow> 'v paxos_instance \<Rightarrow> 'v paxos_instance" where
  "record_promises [] i = i"
| "record_promises ((m, acc) # ps) i = record_promises ps (record_promise m acc i)"

text \<open>What a proposer must propose once it has the promises \<open>ps\<close>.\<close>

definition safe_choice :: "(node_id \<times> (proposal_number \<times> 'v) option) list \<Rightarrow> 'v \<Rightarrow> 'v \<Rightarrow> bool" where
  "safe_choice ps own v \<longleftrightarrow>
     (if \<forall>p\<in>set ps. snd p = None then v = own
      else \<exists>x. Some x \<in> snd ` set ps \<and> v = snd x \<and> (\<forall>y. Some y \<in> snd ` set ps \<longrightarrow> fst y \<le> fst x))"

lemma record_promises_sel [simp]:
  "i_proposal_number (record_promises ps i) = i_proposal_number i"
  "i_accepts_received (record_promises ps i) = i_accepts_received i"
  "i_proposed_value (record_promises ps i) = i_proposed_value i"
  "i_highest_promised (record_promises ps i) = i_highest_promised i"
  "i_decided (record_promises ps i) = i_decided i"
  "i_promises_received (record_promises ps i) = fst ` set ps \<union> i_promises_received i"
  by (induction ps i rule: record_promises.induct) auto

text \<open>The highest accepted value among those recorded.\<close>

definition is_highest :: "('n::linorder \<times> 'v) set \<Rightarrow> ('n \<times> 'v) option \<Rightarrow> bool" where
  "is_highest A h \<longleftrightarrow> (case h of None \<Rightarrow> A = {} | Some x \<Rightarrow> x \<in> A \<and> (\<forall>y\<in>A. fst y \<le> fst x))"

lemma is_highest_step:
  assumes "is_highest A h"
  shows "is_highest (insert (n, v) A) (if (case map_option fst h of None \<Rightarrow> True | Some k \<Rightarrow> k < n) then Some (n, v) else h)"
  using assms by (cases h) (auto simp: is_highest_def not_less intro: order_trans less_imp_le)

lemma is_highest_record:
  assumes "is_highest A (i_highest_accepted i)"
  shows "is_highest (A \<union> set_option acc) (i_highest_accepted (record_promise m acc i))"
proof (cases acc)
  case (Some x)
  have "i_highest_accepted (record_promise m acc i) =
      (if (case map_option fst (i_highest_accepted i) of None \<Rightarrow> True | Some k \<Rightarrow> k < fst x) then Some (fst x, snd x)
       else i_highest_accepted i)"
    unfolding record_promise_def above_def Some Let_def by (cases x) (simp split: option.split)
  with Some is_highest_step [OF assms, of "fst x" "snd x"] show ?thesis by simp
qed (use assms in \<open>simp add: record_promise_def Let_def\<close>)

lemma is_highest_records:
  assumes "is_highest A (i_highest_accepted i)"
  shows "is_highest (A \<union> \<Union> (set_option ` snd ` set ps)) (i_highest_accepted (record_promises ps i))"
  using assms
proof (induction ps i arbitrary: A rule: record_promises.induct)
  case (2 m acc ps i)
  from 2(1) [OF is_highest_record [OF 2(2), of acc m]] show ?case by (simp add: Un_assoc)
qed simp

lemma safe_choice_highest:
  assumes "i_highest_accepted i = None" and "i_proposed_value i = Some own" and "phase2_value (record_promises ps i) = Some v"
  shows "safe_choice ps own v"
proof -
  let ?A = "{x. Some x \<in> snd ` set ps}"
  have A: "?A = \<Union> (set_option ` snd ` set ps)" 
    by (rule set_eqI) (simp only: mem_Collect_eq Union_iff bex_simps elem_set image_iff eq_commute)
  have h: "is_highest ?A (i_highest_accepted (record_promises ps i))"
    using is_highest_records [of "{}" i ps] assms(1) by (simp add: is_highest_def A)
  show ?thesis
  proof (cases "i_highest_accepted (record_promises ps i)")
    case None
    with h have none: "Some x \<notin> snd ` set ps" for x
      by (auto simp: is_highest_def simp del: split_paired_All)
    have "snd p = None" if "p \<in> set ps" for p using none [of "the (snd p)"] that by (cases "snd p") force+
    with None assms(2,3) show ?thesis by (simp add: safe_choice_def phase2_value_def)
  next
    case (Some x)
    with h have x: "Some x \<in> snd ` set ps" "\<And>y. Some y \<in> snd ` set ps \<Longrightarrow> fst y \<le> fst x"
      by (auto simp: is_highest_def simp del: split_paired_All)
    moreover have "v = snd x" using Some assms(3) by (cases x) (simp add: phase2_value_def)
    moreover have "\<not> (\<forall>p\<in>set ps. snd p = None)" using x(1) by force
    ultimately show ?thesis unfolding safe_choice_def by (simp only: if_False) blast
  qed
qed

text \<open>Until the quorum is reached the promises are recorded; the one that completes it starts phase 2.\<close>

lemma deliver_promises_record:
  assumes "hm_get (p_decided_slots s) slot = None" and "hm_get (p_instances s) slot = Some i"
    and "i_proposal_number i = pn" and "\<not> i_decided i" and "ps \<noteq> []"
    and "card (fst ` set (butlast ps) \<union> i_promises_received i) < p_quorum_size s"
    and "p_quorum_size s \<le> card (fst ` set ps \<union> i_promises_received i)" and "finite (i_promises_received i)"
  shows "deliver_promises e slot pn ps s = start_phase2 e slot (set_instance slot (record_promises ps i) s)"
  using assms
proof (induction ps arbitrary: s i)
  case (Cons p ps)
  obtain m acc where p: "p = (m, acc)" by fastforce
  have eq: "handle_promise e m slot pn acc s =
      (if card (insert m (i_promises_received i)) \<ge> p_quorum_size s
       then start_phase2 e slot (set_instance slot (record_promise m acc i) s)
       else Some (set_instance slot (record_promise m acc i) s, []))"
    using Cons.prems(1-4) unfolding handle_promise_def Let_def record_promise_def [unfolded Let_def, symmetric]
    by (simp add: hm_contains_def)
  show ?case
  proof (cases "ps = []")
    case True
    with Cons.prems p eq show ?thesis
      by (cases "start_phase2 e slot (set_instance slot (record_promise m acc i) s)") (auto simp: paxos_handle_message_def)
  next
    case False
    let ?j = "record_promise m acc i" and ?s = "set_instance slot (record_promise m acc i) s"
    have sub: "insert m (i_promises_received i) \<subseteq> fst ` set (butlast (p # ps)) \<union> i_promises_received i"
      using False p by auto
    have "card (insert m (i_promises_received i)) < p_quorum_size s"
      using card_mono [OF _ sub] Cons.prems(6,8) by simp
    then have "deliver_promises e slot pn (p # ps) s = deliver_promises e slot pn ps ?s"
      using p eq by (cases "deliver_promises e slot pn ps ?s") (auto simp: paxos_handle_message_def)
    also have "\<dots> = start_phase2 e slot (set_instance slot (record_promises ps ?j) ?s)"
      using Cons.prems False p by (intro Cons.IH) (simp_all add: set_instance_def insert_commute)
    finally show ?thesis using p by (simp add: set_instance_def hm_insert_insert)
  qed
qed simp

text \<open>
  C23. Phase 2: a proposer that collects promises from distinct other nodes until it has a quorum
  proposes the value accepted under the highest number among those the promises report, and its own
  value when they report none.
\<close>

theorem paxos_phase2_rule:
  assumes "hm_get (p_decided_slots s) slot = None" and "hm_get (p_instances s) slot = Some i"
    and "\<not> i_decided i" and "i_highest_accepted i = None" and "i_proposed_value i = Some own"
    and "i_promises_received i = {p_node_id s}" and "i_accepts_received i = {}"
    and "distinct (p_node_id s # map fst ps)" and "Suc (length ps) = p_quorum_size s" and "ps \<noteq> []"
  shows "\<exists>s' v. deliver_promises e slot (i_proposal_number i) ps s
           = Some (s', [Outgoing Broadcast (Accept slot (i_proposal_number i) v)]) \<and> safe_choice ps own v"
proof -
  let ?j = "record_promises ps i"
  have d: "distinct (map fst (butlast ps))" "distinct (map fst ps)" using assms(8) by (auto simp: map_butlast distinct_butlast)
  have c: "card (fst ` set (butlast ps)) = length ps - 1" "card (fst ` set ps) = length ps"
    using distinct_card [OF d(1)] distinct_card [OF d(2)] by simp_all
  have "fst ` set (butlast ps) \<subseteq> fst ` set ps" by (auto dest: in_set_butlastD)
  moreover have "p_node_id s \<notin> fst ` set ps" using assms(8) by simp
  ultimately have "p_node_id s \<notin> fst ` set (butlast ps)" by blast
  with assms(8-10) c have "deliver_promises e slot (i_proposal_number i) ps s = start_phase2 e slot (set_instance slot ?j s)"
    by (intro deliver_promises_record [OF assms(1,2) refl assms(3)]) (simp_all add: assms(6) card_insert_if)
  moreover obtain v where v: "phase2_value ?j = Some v"
    using assms(5) by (cases "i_highest_accepted ?j") (auto simp: phase2_value_def)
  moreover have "card (i_accepts_received (self_accept (p_node_id s) v ?j)) < p_quorum_size s"
    using assms(7,9,10) by (cases ps) (simp_all add: self_accept_def)
  ultimately show ?thesis
    using safe_choice_highest [OF assms(4,5) v] by (simp add: start_phase2_eq set_instance_def Let_def)
qed

theorem paxos_phase2_rule_witness:
  "\<exists>s' v. deliver_promises penv 0 (1, pn1) [(pn2, Some ((1, pn3), 9))] paxos1 = Some (s', [Outgoing Broadcast (Accept 0 (1, pn1) v)])
     \<and> v = 9"
proof -
  let ?i = "first_round penv pn1 (7::nat) paxos_instance_new"
  have n: "pn1 \<noteq> pn2" by (simp add: pn1_def pn2_def)
  have "\<exists>s' v. deliver_promises penv 0 (i_proposal_number ?i) [(pn2, Some ((1, pn3), 9))] paxos1
      = Some (s', [Outgoing Broadcast (Accept 0 (i_proposal_number ?i) v)]) \<and> safe_choice [(pn2, Some ((1, pn3), 9))] 7 v"
    by (rule paxos_phase2_rule [OF _ paxos1_fields(1)]) (simp_all add: paxos1_fields n first_round_def paxos_instance_new_def)
  then show ?thesis by (auto simp: safe_choice_def first_round_def)
qed

section \<open>Retries\<close>

lemma new_round_above:
  assumes "\<And>hp. i_highest_promised i = Some hp \<Longrightarrow> fst hp < u64_max" and "\<And>r. i_highest_seen_nack i = Some r \<Longrightarrow> r < u64_max"
    and "fst (i_proposal_number i) < u64_max"
  shows "fst (i_proposal_number i) < new_round i" and "i_highest_seen_nack i = Some r \<Longrightarrow> r < new_round i"
    and "i_highest_promised i = Some hp \<Longrightarrow> fst hp < new_round i"
  using assms by (auto simp: new_round_def u64_max_def max_def split: option.splits)

text \<open>
  A retry opens a fresh round: its number is above the node's own promise for the slot, above
  its previous number and above every refusal it has seen, and belongs to the node; the promises and
  acceptances of earlier rounds are forgotten, while the value proposed and the value accepted stay.
\<close>

theorem paxos_retry_rule:
  assumes "hm_get (p_instances s) slot = Some i" and "i_is_proposer i" and "\<not> i_decided i" and "2 \<le> p_quorum_size s"
    and "\<And>hp. i_highest_promised i = Some hp \<Longrightarrow> fst hp < u64_max" and "\<And>r. i_highest_seen_nack i = Some r \<Longrightarrow> r < u64_max"
    and "fst (i_proposal_number i) < u64_max"
  shows "\<exists>j pn. retry_proposal e slot s = Some (set_instance slot j s, [Outgoing Broadcast (Prepare slot pn)])
    \<and> i_proposal_number j = pn \<and> i_highest_promised j = Some pn \<and> snd pn = p_node_id s
    \<and> above (i_highest_promised i) pn \<and> i_proposal_number i < pn \<and> (\<forall>r. i_highest_seen_nack i = Some r \<longrightarrow> r < fst pn)
    \<and> i_promises_received j = {p_node_id s} \<and> i_accepts_received j = {} \<and> i_highest_accepted j = None
    \<and> i_proposed_value j = i_proposed_value i \<and> i_accepted j = i_accepted i \<and> i_is_proposer j"
proof -
  note r = new_round_above [OF assms(5-7)]
  have "i_proposal_number i < (new_round i, p_node_id s)"
    using r(1) by (cases "i_proposal_number i") simp
  moreover have "above (i_highest_promised i) (new_round i, p_node_id s)"
    using r(3) by (auto simp: above_def split: option.split)
  ultimately show ?thesis
    using assms(1-4) r(2)
    by (intro exI [of _ "next_round e (p_node_id s) i"] exI [of _ "(new_round i, p_node_id s)"])
      (simp add: retry_proposal_eq next_round_def Let_def)
qed

theorem paxos_retry_rule_witness:
  "\<exists>j pn. retry_proposal penv 0 paxos1 = Some (set_instance 0 j paxos1, [Outgoing Broadcast (Prepare 0 pn)])
     \<and> (1, pn1) < pn \<and> i_accepts_received j = {}"
proof -
  have "\<exists>j pn. retry_proposal penv 0 paxos1 = Some (set_instance 0 j paxos1, [Outgoing Broadcast (Prepare 0 pn)])
      \<and> i_proposal_number (first_round penv pn1 (7::nat) paxos_instance_new) < pn \<and> i_accepts_received j = {}"
    using paxos_retry_rule [OF paxos1_fields(1), of penv]
    by (simp add: paxos1_fields first_round_def paxos_instance_new_def u64_max_def) blast
  then show ?thesis by (simp add: first_round_def)
qed

lemma retry_delay_bounds:
  assumes "rng_in_range e"
  shows "from_millis 100 \<le> retry_delay e k" and "retry_delay e k \<le> from_millis 1200"
proof -
  let ?b = "u64_saturating_mul 100 (2 ^ min k 3)"
  have "min k 3 \<in> {0, 1, 2, 3}" by (auto simp: min_def)
  then have b: "100 \<le> ?b \<and> ?b \<le> 800" by (auto simp: u64_saturating_mul_def u64_max_def)
  moreover have "random_range e 0 (?b div 2) \<le> ?b div 2" using assms by (simp add: rng_in_range_def)
  ultimately have "?b + random_range e 0 (?b div 2) \<le> 1200" by linarith
  with b show "from_millis 100 \<le> retry_delay e k" "retry_delay e k \<le> from_millis 1200"
    by (simp_all add: retry_delay_def from_millis_def Let_def)
qed

text \<open>
  C24. A refused proposer backs off: it does not retry the slot during the next 100 ms, and it is due
  for a retry 1200 ms later at the latest.
\<close>

theorem paxos_nack_backoff:
  assumes "rng_in_range e" and "hm_get (p_instances s) slot = Some i" and "i_is_proposer i" and "\<not> i_decided i"
  shows "\<exists>j. hm_get (p_instances (handle_nack e slot hp s)) slot = Some j
    \<and> (\<forall>now < clock e + from_millis 100. \<not> retryable now (p_quorum_size s) j)
    \<and> (\<forall>now \<ge> clock e + from_millis 1200. retryable now (p_quorum_size s) j)"
proof -
  note d = retry_delay_bounds [OF assms(1), of "i_retry_count i"]
  obtain j where j: "hm_get (p_instances (handle_nack e slot hp s)) slot = Some j" "i_nacked j" "\<not> i_decided j" "i_is_proposer j"
    "i_next_retry_at j = Some (clock e + retry_delay e (i_retry_count i))"
    using assms(2-4) by (simp add: handle_nack_eq nacked_def set_instance_def update_highest_seen_round_def step_down_def Let_def)
  with d show ?thesis by (intro exI [of _ j]) (auto simp: retryable_def)
qed

theorem paxos_nack_backoff_witness:
  "\<exists>j. hm_get (p_instances (handle_nack penv 0 (3, pn2) paxos1)) 0 = Some j
     \<and> \<not> retryable 0 2 j \<and> retryable (from_millis 1200) 2 j"
proof -
  from paxos_nack_backoff [OF penv_rng paxos1_fields(1), of "(3, pn2)"]
  obtain j where j: "hm_get (p_instances (handle_nack penv 0 (3, pn2) paxos1)) 0 = Some j"
    "\<forall>now < clock penv + from_millis 100. \<not> retryable now 2 j" "\<forall>now \<ge> clock penv + from_millis 1200. retryable now 2 j"
    by (auto simp: first_round_def paxos_instance_new_def paxos1_fields)
  then show ?thesis by (intro exI [of _ j]) (simp add: penv_def from_millis_def)
qed

section \<open>The fate of a proposal\<close>

text \<open>A proposal in progress: the node proposed \<open>v\<close> for \<open>slot\<close> and has no outcome yet.\<close>

definition proposing :: "u64 \<Rightarrow> 'v \<Rightarrow> ('v, 's) paxos_protocol \<Rightarrow> bool" where
  "proposing slot v s \<longleftrightarrow>
     (\<exists>i. hm_get (p_instances s) slot = Some i \<and> i_is_proposer i \<and> i_proposed_value i = Some v)"

definition fate :: "u64 \<Rightarrow> 'v \<Rightarrow> ('v, 's) paxos_protocol \<Rightarrow> 'v paxos_out \<Rightarrow> bool" where
  "fate slot v s' outs \<longleftrightarrow> proposing slot v s' \<or> hm_get (p_decided_slots s') slot = Some v \<or> v \<in> set (p_lost_proposals s')
     \<or> (\<exists>w. w \<noteq> v \<and> hm_get (p_decided_slots s') slot = Some w \<and> Outgoing Broadcast (Decide slot w) \<in> set outs)"

lemma fate_same: "proposing slot v s \<Longrightarrow> p_instances s' = p_instances s \<Longrightarrow> fate slot v s' outs"
  by (simp add: fate_def proposing_def)

lemma fate_set:
  assumes "proposing slot v s"
    and "i_is_proposer j = i_is_proposer (instance_at sl s)" "i_proposed_value j = i_proposed_value (instance_at sl s)"
  shows "fate slot v (set_instance sl j s) outs"
  using assms by (auto simp: fate_def proposing_def set_instance_def instance_at_def split: option.splits)

lemma fate_settle:
  assumes "proposing slot v s"
  shows "fate slot v (remove_instance sl (decide e sl w (set_instance sl j s))) [Outgoing Broadcast (Decide sl w)]"
  using assms by (auto simp: fate_def proposing_def remove_instance_def set_instance_def)

lemma fate_phase2:
  assumes "proposing slot v s" and "start_phase2 e sl (set_instance sl j s) = Some (s', outs)"
    and "i_is_proposer j = i_is_proposer (instance_at sl s)" "i_proposed_value j = i_proposed_value (instance_at sl s)"
  shows "fate slot v s' outs"
proof -
  have twice: "set_instance sl x (set_instance sl j s) = set_instance sl x s" for x
    by (simp add: set_instance_def hm_insert_insert)
  have same: "i_is_proposer (self_accept n w j) = i_is_proposer (instance_at sl s)"
    "i_proposed_value (self_accept n w j) = i_proposed_value (instance_at sl s)" for n w
    using assms(3,4) by (simp_all add: self_accept_def)
  from assms(2) show ?thesis
  proof (cases rule: start_phase2_cases)
    case (1 i w)
    then have "i = j" by (simp add: set_instance_def)
    with 1(3,4) fate_settle [OF assms(1)] show ?thesis by (simp add: twice)
  next
    case (2 i w)
    then have "i = j" by (simp add: set_instance_def)
    with 2(3) fate_set [OF assms(1) same] show ?thesis by (simp add: twice)
  qed
qed

lemma fate_decide:
  assumes "proposing slot v s"
  shows "fate slot v (handle_decide e m sl w s) outs"
proof -
  obtain ls where eq: "handle_decide e m sl w s =
    (if hm_contains (p_decided_slots s) sl then s\<lparr>p_leader_state := ls\<rparr>
     else remove_instance sl (decide e sl w
       (s\<lparr>p_leader_state := ls, p_lost_proposals := p_lost_proposals s @ lost_value sl w s\<rparr>)))"
    by (rule handle_decide_eq)
  show ?thesis using assms unfolding eq by (auto simp: fate_def proposing_def remove_instance_def lost_value_def)
qed

lemma fate_nack: "proposing slot v s \<Longrightarrow> fate slot v (handle_nack e sl hp s) outs"
  by (auto simp: fate_def proposing_def handle_nack_eq nacked_def set_instance_def update_highest_seen_round_def
      step_down_def Let_def split: option.split)



text \<open>A promise quorum that reports another value makes the node finish that value and forget its own.\<close>

theorem paxos_adopted_value_drops_proposal:
  "\<exists>s1 s2. deliver_promises penv 0 (1, pn1) [(pn2, Some ((1, pn3), 9))] paxos1 = Some (s1, [Outgoing Broadcast (Accept 0 (1, pn1) 9)])
     \<and> paxos_handle_message penv pn2 (Accepted 0 (1, pn1) 9) s1 = Some (s2, [Outgoing Broadcast (Decide 0 9)])
     \<and> proposing 0 7 paxos1 \<and> hm_get (p_decided_slots s2) 0 = Some 9 \<and> p_lost_proposals s2 = [] \<and> p_instances s2 = []"
proof -
  have p: "proposing 0 7 paxos1" by (simp add: proposing_def paxos1_fields first_round_def)
  have "(case deliver_promises penv 0 (1, pn1) [(pn2, Some ((1, pn3), 9))] paxos1 of None \<Rightarrow> False | Some (s1, o1) \<Rightarrow>
      o1 = [Outgoing Broadcast (Accept 0 (1, pn1) 9)] \<and>
      (case paxos_handle_message penv pn2 (Accepted 0 (1, pn1) 9) s1 of None \<Rightarrow> False | Some (s2, o2) \<Rightarrow>
        o2 = [Outgoing Broadcast (Decide 0 9)] \<and> hm_get (p_decided_slots s2) 0 = Some 9 \<and> p_lost_proposals s2 = []
        \<and> p_instances s2 = []))"
    by code_simp
  with p show ?thesis by (auto split: option.splits)
qed

section \<open>Panics\<close>



end
