(* ===== verification/NodeProps.thy ===== *)
theory NodeProps
  imports Node RaftProps PaxosProps "HOL-Library.Multiset"
begin

text \<open>
  The properties of the event loop of \<open>daccord/src/node.rs\<close>: every call of \<open>propose\<close> is answered
  exactly once, a node speaks its own protocol only, foreign and malformed input is harmless, and a
  cluster of one answers at once.
\<close>

section \<open>Multisets of a hash map\<close>

lemma mset_delete:
  assumes "hm_wf m"
  shows "mset m = mset (hm_remove k m) + (case hm_get m k of Some v \<Rightarrow> {#(k, v)#} | None \<Rightarrow> {#})"
  using assms
proof (induction m)
  case (Cons x m)
  obtain k' v where x: "x = (k', v)" by fastforce
  show ?case
  proof (cases "k' = k")
    case True
    with Cons.prems x have "k \<notin> set (map fst m)" by (simp add: hm_wf_def)
    then have "AList.delete k m = m" by (simp add: delete_id)
    with True x show ?thesis by (simp add: hm_remove_def hm_get_def)
  next
    case False
    with Cons x show ?thesis by (simp add: hm_wf_def hm_remove_def hm_get_def)
  qed
qed (simp add: hm_remove_def)

lemma mset_insert:
  assumes "hm_wf m"
  shows "mset (hm_insert k v m) = add_mset (k, v) (mset (hm_remove k m))"
  using mset_delete [OF hm_wf_insert [OF assms], of k v k] by (simp add: hm_remove_insert)

section \<open>Tokens\<close>

definition tokens :: "'v pending_map \<Rightarrow> token multiset" where
  "tokens m = image_mset (\<lambda>(_, entry). pe_completion entry) (mset m)"

lemma tokens_Nil [simp]: "tokens [] = {#}"
  by (simp add: tokens_def)

text \<open>The calls of \<open>propose\<close> that an effect answers: a one-shot fired, or its sender dropped.\<close>

fun answered :: "('v, 'b) effect \<Rightarrow> token list" where
  "answered (Completed t r) = [t]"
| "answered (Dropped t) = [t]"
| "answered _ = []"

definition resolved :: "('v, 'b) effect list \<Rightarrow> token multiset" where
  "resolved fx = mset (concat (map answered fx))"

lemma resolved_simps [simp]:
  "resolved [] = {#}" "resolved (x # fx) = mset (answered x) + resolved fx" "resolved (fx @ fy) = resolved fx + resolved fy"
  by (simp_all add: resolved_def)

lemma tokens_remove:
  "hm_wf m \<Longrightarrow> tokens m = tokens (hm_remove k m) + (case hm_get m k of Some x \<Rightarrow> {#pe_completion x#} | None \<Rightarrow> {#})"
  using mset_delete [of m k] by (simp add: tokens_def split: option.split)

lemma tokens_insert: "hm_wf m \<Longrightarrow> tokens (hm_insert k x m) = add_mset (pe_completion x) (tokens (hm_remove k m))"
  by (simp add: tokens_def mset_insert)

text \<open>A step that keeps track of the callers: whoever it no longer holds it has answered.\<close>

definition conserves :: "('v, 'ps, 'rs) node \<Rightarrow> flow \<times> ('v, 'ps, 'rs) node \<times> ('v, 'b) effect list \<Rightarrow> bool" where
  "conserves nd r \<longleftrightarrow>
     (hm_wf (n_pending nd) \<longrightarrow> (case r of (fl, nd', fx) \<Rightarrow>
        hm_wf (n_pending nd') \<and> resolved fx + tokens (n_pending nd') = tokens (n_pending nd)))"

lemma conserves_same: "n_pending nd' = n_pending nd \<Longrightarrow> resolved fx = {#} \<Longrightarrow> conserves nd (fl, nd', fx)"
  by (simp add: conserves_def)

lemma conserves_and_then:
  assumes "conserves nd r" and "\<And>nd'. conserves nd' (f nd')"
  shows "conserves nd (and_then r f)"
proof -
  obtain fl nd1 fx where r: "r = (fl, nd1, fx)" by (cases r)
  show ?thesis
    using assms(1) assms(2) [of nd1] unfolding r
    by (cases fl) (auto simp: and_then_def conserves_def add.assoc split: prod.splits)
qed

lemma pending_insert_tokens:
  assumes "hm_wf m" and "pending_insert p tx m = (fx, m')"
  shows "hm_wf m' \<and> resolved fx + tokens m' = add_mset tx (tokens m)"
  using assms tokens_remove [OF assms(1), of "pd_nonce p"]
  by (auto simp: pending_insert_def tokens_insert split: option.splits)

lemma remove_for_decision_tokens:
  assumes "hm_wf m" and "remove_for_decision nonce v m = (tx, m')"
  shows "hm_wf m' \<and> tokens m = tokens m' + (case tx of Some t \<Rightarrow> {#t#} | None \<Rightarrow> {#})"
proof -
  have out: "hm_wf (hm_remove k m) \<and> tokens m = tokens (hm_remove k m)
      + (case map_option pe_completion (hm_get m k) of Some t \<Rightarrow> {#t#} | None \<Rightarrow> {#})" for k
    using tokens_remove [OF assms(1), of k] assms(1) by (simp split: option.split)
  show ?thesis
    using assms out [of nonce] out
    by (cases "nonce = 0"; cases "List.find (\<lambda>(_, entry). pe_value entry = v) m") (auto simp: remove_for_decision_def)
qed

lemma deliver_decisions_tokens:
  fixes fx :: "('v, 'b) effect list"
  assumes "hm_wf m" and "deliver_decisions ds m = (fx, m')"
  shows "hm_wf m' \<and> resolved fx + tokens m' = tokens m"
  using assms
proof (induction ds arbitrary: m fx m')
  case (Cons d ds)
  obtain tx m1 where 1: "remove_for_decision (pd_nonce (d_value d)) (pd_value (d_value d)) m = (tx, m1)" by fastforce
  obtain fx' :: "('v, 'b) effect list" and m2 where 2: "deliver_decisions ds m1 = (fx', m2)" by fastforce
  from remove_for_decision_tokens [OF Cons.prems(1) 1] have m1: "hm_wf m1"
    "tokens m = tokens m1 + (case tx of Some t \<Rightarrow> {#t#} | None \<Rightarrow> {#})" by simp_all
  from Cons.prems(2) 1 2 have "m' = m2" "fx = (case tx of Some t \<Rightarrow> [Completed t (Ok (Decided (d_slot d) (pd_value (d_value d))))] | None \<Rightarrow> [])
      @ [Offered (Decided (d_slot d) (pd_value (d_value d)))] @ fx'" by (simp_all add: Let_def)
  with m1 Cons.IH [OF m1(1) 2] show ?case by (cases tx) simp_all
qed simp

lemma send_oneD:
  assumes "x \<in> set (send_one codec n senders out)"
  obtains peer bytes where "x = Sent peer bytes" "peer \<in> set senders" "to_bytes codec (Message n (o_message out)) = Ok bytes"
proof -
  obtain bytes where b: "to_bytes codec (Message n (o_message out)) = Ok bytes"
    using assms by (cases "to_bytes codec (Message n (o_message out))") (simp_all add: send_one_def)
  show thesis
  proof (cases "o_target out")
    case (Peer target)
    with assms b show thesis
      by (cases "List.find (\<lambda>peer. peer = target) senders") (auto simp: send_one_def find_Some_iff intro!: that [OF _ _ b])
  next
    case Broadcast
    with assms b show thesis by (auto simp: send_one_def intro!: that [OF _ _ b])
  qed
qed

lemma send_outgoingD:
  assumes "x \<in> set (send_outgoing codec n outs senders)"
  obtains out peer bytes where "x = Sent peer bytes" "peer \<in> set senders" "out \<in> set outs"
    "to_bytes codec (Message n (o_message out)) = Ok bytes"
proof -
  from assms obtain out where out: "out \<in> set outs" "x \<in> set (send_one codec n senders out)" by (auto simp: send_outgoing_def)
  from out(2) show thesis by (rule send_oneD) (rule that [OF _ _ out(1)])
qed

lemma send_outgoing_resolved [simp]: "resolved (send_outgoing codec n outs senders) = {#}"
proof -
  have "answered x = []" if "x \<in> set (send_outgoing codec n outs senders)" for x
    using that by (rule send_outgoingD) simp
  then show ?thesis by (simp add: resolved_def)
qed

lemma process_decisions_conserves: "conserves nd (process_decisions st nd)"
  by (auto simp: process_decisions_def conserves_def split: prod.split result.split dest: deliver_decisions_tokens)

lemma after_protocol_conserves: "conserves nd (after_protocol st codec r nd)"
  by (auto simp: after_protocol_def conserves_same split: option.split prod.split result.split
      intro!: conserves_and_then process_decisions_conserves)

lemma publish_conserves: "conserves nd (publish_state nd)"
  by (simp add: publish_state_def conserves_same)

lemma repropose_conserves: "conserves nd (repropose st codec es lost nd)"
  by (induction lost arbitrary: es nd) (simp_all add: conserves_same conserves_and_then after_protocol_conserves)

lemma handle_incoming_conserves: "conserves nd (handle_incoming_bytes st codec es data nd)"
proof -
  have "conserves nd1 (repropose st codec es lost (nd1\<lparr>n_protocol := p\<rparr>))" for nd1 es lost p
    using repropose_conserves [of "nd1\<lparr>n_protocol := p\<rparr>"] by (simp add: conserves_def)
  then show ?thesis
    by (auto simp: handle_incoming_bytes_def conserves_same split: result.split prod.split
        intro!: conserves_and_then after_protocol_conserves publish_conserves)
qed

lemma handle_retries_conserves: "conserves nd (handle_retries st codec e now nd)"
  by (simp add: handle_retries_def conserves_and_then after_protocol_conserves publish_conserves)

lemma handle_submission_tokens:
  fixes fx :: "('v, 'b) effect list"
  assumes "hm_wf (n_pending nd)" and "handle_submission st codec e sub nd = (fl, nd', fx)"
  shows "hm_wf (n_pending nd') \<and> resolved fx + tokens (n_pending nd') = add_mset (sub_completion sub) (tokens (n_pending nd))"
proof -
  obtain fx0 m where i: "pending_insert (sub_pending sub) (sub_completion sub) (n_pending nd) = (fx0 :: ('v, 'b) effect list, m)" by fastforce
  note m = pending_insert_tokens [OF assms(1) i]
  let ?nd = "nd\<lparr>n_pending := m\<rparr>"
  let ?r = "and_then (after_protocol st codec (protocol_propose e (sub_pending sub) (n_protocol ?nd)) ?nd) publish_state"
  have "handle_submission st codec e sub nd = (case ?r of (fl, nd', fx) \<Rightarrow> (fl, nd', fx0 @ fx))"
    unfolding handle_submission_def i by (auto simp: and_then_def split: prod.split flow.split)
  moreover have "conserves ?nd ?r" by (intro conserves_and_then after_protocol_conserves publish_conserves)
  ultimately show ?thesis
    using m assms(2) by (auto simp: conserves_def add.assoc split: prod.splits)
qed

section \<open>Every call is answered\<close>

fun submits :: "('v, 'b) node_event \<Rightarrow> token list" where
  "submits (Submitted e sub) = [sub_completion sub]"
| "submits _ = []"

definition submitted :: "('v, 'b) node_event list \<Rightarrow> token multiset" where
  "submitted evs = mset (concat (map submits evs))"

lemma submitted_simps [simp]: "submitted [] = {#}" "submitted (ev # evs) = mset (submits ev) + submitted evs"
  by (simp_all add: submitted_def)

lemma loop_step_tokens:
  assumes "hm_wf (n_pending nd)" and "loop_step st codec ev nd = (fin, nd', fx)"
  shows "hm_wf (n_pending nd') \<and> resolved fx + tokens (n_pending nd') = tokens (n_pending nd) + mset (submits ev)"
proof (cases ev)
  case (Submitted e sub)
  obtain fl nd1 fx1 where r: "handle_submission st codec e sub nd = (fl, nd1, fx1)" by (rule prod_cases3)
  with handle_submission_tokens [OF assms(1) r] Submitted assms(2) show ?thesis by (simp add: loop_step_def)
next
  case (Received es data)
  with handle_incoming_conserves [of nd st codec es data] assms show ?thesis
    by (cases "handle_incoming_bytes st codec es data nd") (auto simp: loop_step_def conserves_def split: if_splits)
next
  case (TickDue e now)
  with handle_retries_conserves [of nd st codec e now] assms show ?thesis
    by (cases "handle_retries st codec e now nd") (auto simp: loop_step_def conserves_def)
qed (use assms in \<open>auto simp: loop_step_def Let_def split: if_splits\<close>)

lemma cancel_pending_resolved: "resolved (cancel_pending m) = tokens m"
  by (induction m) (auto simp: cancel_pending_def tokens_def)

lemma node_loop_tokens:
  fixes fx :: "('v, 'b) effect list"
  assumes "hm_wf (n_pending nd)" and "node_loop st codec evs nd = (fin, nd', fx)"
  shows "\<exists>k \<le> length evs. resolved fx + tokens (n_pending nd') = tokens (n_pending nd) + submitted (take k evs)
    \<and> (if fin = Running then k = length evs else n_pending nd' = [])"
  using assms
proof (induction evs arbitrary: nd fx)
  case (Cons ev evs)
  obtain fin1 nd1 and fx1 :: "('v, 'b) effect list" where 1: "loop_step st codec ev nd = (fin1, nd1, fx1)" by (rule prod_cases3)
  note s = loop_step_tokens [OF Cons.prems(1) 1]
  show ?case
  proof (cases "fin1 = Running")
    case True
    obtain fx2 :: "('v, 'b) effect list" where 2: "node_loop st codec evs nd1 = (fin, nd', fx2)" "fx = fx1 @ fx2"
      using Cons.prems(2) 1 True by (auto split: prod.splits)
    from Cons.IH [OF _ 2(1)] s obtain k where "k \<le> length evs"
        "resolved fx2 + tokens (n_pending nd') = tokens (n_pending nd1) + submitted (take k evs)"
        "if fin = Running then k = length evs else n_pending nd' = []" by blast
    with s 2(2) show ?thesis by (intro exI [of _ "Suc k"]) (simp add: add.assoc)
  next
    case False
    with Cons.prems(2) 1 have "fin = fin1" "nd' = nd1\<lparr>n_pending := []\<rparr>" "fx = fx1 @ cancel_pending (n_pending nd1)"
      by (cases fin1; simp)+
    with s False show ?thesis
      by (intro exI [of _ 1]) (simp add: cancel_pending_resolved tokens_def)
  qed
qed simp


section \<open>A sample node\<close>

definition plain_codec :: "('v, 'v message) codec" where
  "plain_codec = \<lparr>to_bytes = Ok, from_bytes = Ok\<rparr>"

definition memory_storages :: "(nat pending, nat paxos_memory_storage, nat raft_memory_storage) storages" where
  "memory_storages = adapted paxos_memory_ops raft_memory_ops"

definition lone_node :: "(nat, nat paxos_memory_storage, nat raft_memory_storage) node" where
  "lone_node = paxos_with_id_inner False penv pn1 paxos_config_default [] paxos_memory_storage_new"


section \<open>Who is told what\<close>

lemma remove_for_decision_match:
  assumes "hm_wf m" and "remove_for_decision nonce v m = (Some t, m')"
  obtains n x where "hm_get m n = Some x" "pe_completion x = t" "n = nonce \<or> nonce = 0 \<and> pe_value x = v"
proof (cases "nonce = 0")
  case False
  with assms(2) show thesis by (auto simp: remove_for_decision_def intro: that)
next
  case True
  with assms(2) obtain n x where "List.find (\<lambda>(_, entry). pe_value entry = v) m = Some (n, x)"
    by (auto simp: remove_for_decision_def split: option.splits)
  moreover from this have "(n, x) \<in> set m" "pe_value x = v" by (auto simp: find_Some_iff intro: nth_mem dest: nth_mem)
  ultimately show thesis
    using True assms(2) hm_in_set [OF assms(1)] by (intro that [of n x]) (auto simp: remove_for_decision_def)
qed

lemma remove_for_decision_keeps:
  "remove_for_decision nonce v m = (tx, m') \<Longrightarrow> hm_get m' n = Some x \<Longrightarrow> hm_get m n = Some x"
  by (auto simp: remove_for_decision_def split: if_splits option.splits)

text \<open>
  C30. Decisions reach the right callers: the subscriber is offered every drained decision, in order,
  and a caller is answered only by a decision with the nonce of its submission - or, for a decision
  recovered from storage, which has lost its nonce, by one with the same value.
\<close>

theorem node_completion_rule:
  fixes fx :: "('v, 'b) effect list"
  assumes "hm_wf m" and "deliver_decisions ds m = (fx, m')"
  shows "[d. Offered d \<leftarrow> fx] = map (\<lambda>d. Decided (d_slot d) (pd_value (d_value d))) ds
    \<and> (\<forall>t r. Completed t r \<in> set fx \<longrightarrow>
        (\<exists>d\<in>set ds. r = Ok (Decided (d_slot d) (pd_value (d_value d)))
          \<and> (\<exists>n x. hm_get m n = Some x \<and> pe_completion x = t
               \<and> (n = pd_nonce (d_value d) \<or> pd_nonce (d_value d) = 0 \<and> pe_value x = pd_value (d_value d)))))"
  using assms
proof (induction ds arbitrary: m fx m')
  case (Cons d ds)
  obtain tx m1 where 1: "remove_for_decision (pd_nonce (d_value d)) (pd_value (d_value d)) m = (tx, m1)" by fastforce
  obtain fx1 :: "('v, 'b) effect list" and m2 where 2: "deliver_decisions ds m1 = (fx1, m2)" by fastforce
  let ?d = "Decided (d_slot d) (pd_value (d_value d))"
  from Cons.prems(2) 1 2 have fx: "fx = (case tx of Some t \<Rightarrow> [Completed t (Ok ?d)] | None \<Rightarrow> []) @ [Offered ?d] @ fx1"
    by (simp add: Let_def)
  from remove_for_decision_tokens [OF Cons.prems(1) 1] have "hm_wf m1" by simp
  note IH = Cons.IH [OF this 2]
  show ?case
  proof (intro conjI allI impI)
    show "[d. Offered d \<leftarrow> fx] = map (\<lambda>d. Decided (d_slot d) (pd_value (d_value d))) (d # ds)"
      using IH fx by (cases tx) simp_all
    fix t r assume "Completed t r \<in> set fx"
    then consider "tx = Some t" "r = Ok ?d" | "Completed t r \<in> set fx1" using fx by (cases tx) auto
    then show "\<exists>d'\<in>set (d # ds). r = Ok (Decided (d_slot d') (pd_value (d_value d')))
          \<and> (\<exists>n x. hm_get m n = Some x \<and> pe_completion x = t
               \<and> (n = pd_nonce (d_value d') \<or> pd_nonce (d_value d') = 0 \<and> pe_value x = pd_value (d_value d')))"
    proof cases
      case 1
      with \<open>remove_for_decision _ _ m = (tx, m1)\<close> show ?thesis
        using remove_for_decision_match [OF Cons.prems(1), of "pd_nonce (d_value d)" "pd_value (d_value d)" t m1]
        by (intro bexI [of _ d]) (simp, blast, simp)
    next
      case 2
      with IH remove_for_decision_keeps [OF 1] show ?thesis by (simp, blast)
    qed
  qed
qed simp

theorem node_completion_rule_witness:
  "\<exists>m'. deliver_decisions [Decision 3 (Pending 5 7)] [(5, PendingEntry 7 42)]
       = ([Completed 42 (Ok (Decided 3 7)), Offered (Decided 3 7)] :: (nat, nat) effect list, m')
     \<and> [d. Offered d \<leftarrow> [Completed 42 (Ok (Decided 3 7)), Offered (Decided 3 7)] :: (nat, nat) effect list] = [Decided 3 (7::nat)]"
proof -
  have d: "deliver_decisions [Decision 3 (Pending 5 7)] [(5, PendingEntry 7 42)]
      = ([Completed 42 (Ok (Decided 3 7)), Offered (Decided 3 7)] :: (nat, nat) effect list, [])"
    by (simp add: remove_for_decision_def hm_get_def hm_remove_def Let_def)
  from node_completion_rule [OF _ d] d show ?thesis by (auto simp: hm_wf_def)
qed

section \<open>A node speaks its own protocol\<close>

definition own_kind ::
  "('v pending, 'b) codec \<Rightarrow> ('v, 'ps, 'rs) node \<Rightarrow> 'f \<times> ('v, 'ps, 'rs) node \<times> ('v, 'b) effect list \<Rightarrow> bool" where
  "own_kind codec nd r \<longleftrightarrow>
     (case r of (fl, nd', fx) \<Rightarrow>
        n_node_id nd' = n_node_id nd \<and> n_peers nd' = n_peers nd \<and> n_algorithm nd' = n_algorithm nd
        \<and> runs_raft (n_protocol nd') = runs_raft (n_protocol nd)
        \<and> (\<forall>peer bytes. Sent peer bytes \<in> set fx \<longrightarrow> peer \<in> set (n_peers nd)
             \<and> (\<exists>m. is_raft_message m = runs_raft (n_protocol nd) \<and> to_bytes codec (Message (n_node_id nd) m) = Ok bytes)))"

lemma own_kind_and_then:
  assumes "own_kind codec nd r" and "\<And>nd'. own_kind codec nd' (f nd')"
  shows "own_kind codec nd (and_then r f)"
proof -
  obtain fl nd1 fx where r: "r = (fl, nd1, fx)" by (cases r)
  show ?thesis
    using assms(1) assms(2) [of nd1] unfolding r
    by (cases fl) (auto simp: and_then_def own_kind_def split: prod.splits)
qed

lemma deliver_decisions_no_send: "deliver_decisions ds m = (fx, m') \<Longrightarrow> Sent peer bytes \<notin> set fx"
  by (induction ds arbitrary: m fx m') (auto simp: Let_def split: prod.splits option.splits)

lemma process_decisions_own: "own_kind codec nd (process_decisions st nd)"
  using deliver_decisions_no_send
  by (fastforce simp: process_decisions_def own_kind_def split: prod.split result.split dest: protocol_drain_variant)

lemma after_protocol_own:
  assumes "same_variant (n_protocol nd) r"
  shows "own_kind codec nd (after_protocol st codec r nd)"
proof (cases r)
  case (Some po)
  obtain p outs where po: "po = (p, outs)" by fastforce
  have v: "runs_raft p = runs_raft (n_protocol nd)" "\<And>out. out \<in> set outs \<Longrightarrow> is_raft_message (o_message out) = runs_raft (n_protocol nd)"
    using assms Some po by (auto simp: same_variant_def)
  have sent: "own_kind codec nd (Continue, nd\<lparr>n_protocol := p1\<rparr>, send_outgoing codec (n_node_id nd) outs (n_peers nd))"
    if "runs_raft p1 = runs_raft p" for p1
    using v that by (auto simp: own_kind_def elim!: send_outgoingD)
  show ?thesis
  proof (cases "protocol_flush_persist st p")
    case None
    with Some po v(1) show ?thesis by (simp add: after_protocol_def own_kind_def)
  next
    case (Some rp)
    obtain x p1 where rp: "rp = (x, p1)" by fastforce
    have p1: "runs_raft p1 = runs_raft p" using protocol_flush_variant Some rp by blast
    from Some rp \<open>r = Some po\<close> po v(1) p1 show ?thesis
      by (cases x) (auto simp: after_protocol_def intro!: own_kind_and_then process_decisions_own sent, simp_all add: own_kind_def)
  qed
qed (simp add: after_protocol_def own_kind_def)

lemma publish_own: "own_kind codec nd (publish_state nd)"
  by (simp add: publish_state_def own_kind_def)

lemma repropose_own: "own_kind codec nd (repropose st codec es lost nd)"
proof (induction lost arbitrary: es nd)
  case (Cons v lost)
  then show ?case by (simp add: own_kind_and_then after_protocol_own protocol_propose_variant)
qed (simp add: own_kind_def)

lemma handle_incoming_own:
  fixes nd :: "('v, 'ps, 'rs) node"
  shows "own_kind codec nd (handle_incoming_bytes st codec es data nd)"
proof -
  have "own_kind codec nd1 (repropose st codec es lost (nd1\<lparr>n_protocol := p\<rparr>))"
    if "protocol_take_lost_proposals (n_protocol nd1) = (lost, p)" for nd1 :: "('v, 'ps, 'rs) node" and es lost p
    using repropose_own [of codec "nd1\<lparr>n_protocol := p\<rparr>"] protocol_take_lost_variant [OF that] by (auto simp: own_kind_def)
  then show ?thesis
    unfolding handle_incoming_bytes_def
    by (auto split: result.split prod.split intro!: own_kind_and_then after_protocol_own handle_wire_variant publish_own)
      (simp_all add: own_kind_def)
qed

lemma handle_submission_own:
  fixes codec :: "('v pending, 'b) codec"
  shows "own_kind codec nd (handle_submission st codec e sub nd)"
proof -
  obtain fx m where i: "pending_insert (sub_pending sub) (sub_completion sub) (n_pending nd) = (fx :: ('v, 'b) effect list, m)" by fastforce
  have "own_kind codec nd (Continue, nd\<lparr>n_pending := m\<rparr>, fx)"
    using i by (auto simp: own_kind_def pending_insert_def split: option.splits)
  then show ?thesis
    unfolding handle_submission_def i by (auto intro!: own_kind_and_then after_protocol_own protocol_propose_variant publish_own)
qed

text \<open>
  C31. A node stays what it is: no event changes its identity, its peers or the algorithm it runs, and
  whatever it sends goes to one of its peers and is an envelope with its own identity around a
  message of the algorithm it runs.
\<close>

theorem node_speaks_own_protocol:
  fixes nd :: "('v, 'ps, 'rs) node" and fx :: "('v, 'b) effect list"
  assumes "loop_step st codec ev nd = (fin, nd', fx)"
  shows "n_node_id nd' = n_node_id nd \<and> n_peers nd' = n_peers nd \<and> n_algorithm nd' = n_algorithm nd
    \<and> runs_raft (n_protocol nd') = runs_raft (n_protocol nd)
    \<and> (\<forall>peer bytes. Sent peer bytes \<in> set fx \<longrightarrow> peer \<in> set (n_peers nd)
         \<and> (\<exists>m. is_raft_message m = runs_raft (n_protocol nd) \<and> to_bytes codec (Message (n_node_id nd) m) = Ok bytes))"
proof -
  have lift: "own_kind codec nd (map_prod finish_of id r)" if "own_kind codec nd r" for r :: "('v, 'ps, 'rs, 'b) outcome"
    using that by (cases r) (simp add: own_kind_def)
  have "own_kind codec nd (loop_step st codec ev nd)"
    by (cases ev)
      (simp_all add: loop_step_def lift handle_submission_own handle_incoming_own handle_retries_def own_kind_and_then
        after_protocol_own protocol_on_tick_variant publish_own Let_def, simp_all add: own_kind_def)
  with assms show ?thesis by (simp add: own_kind_def)
qed

theorem node_speaks_own_protocol_witness:
  "\<exists>fin nd' fx. loop_step memory_storages plain_codec (Submitted penv (Submission (Pending 5 7) 42)) lone_node = (fin, nd', fx)
     \<and> n_algorithm nd' = PaxosAlgorithm \<and> \<not> runs_raft (n_protocol nd')"
proof -
  obtain fin nd' fx where r: "loop_step memory_storages plain_codec
      (Submitted penv (Submission (Pending 5 7) 42) :: (nat, nat pending message) node_event) lone_node = (fin, nd', fx)"
    by (rule prod_cases3)
  with node_speaks_own_protocol [OF r] show ?thesis
    by (auto simp: lone_node_def paxos_with_id_inner_def runs_raft_def)
qed

section \<open>Foreign and malformed input\<close>

text \<open>Nothing to persist, to announce or to propose again, as between two events.\<close>

definition quiet :: "('v, 'ps, 'rs) protocol_impl \<Rightarrow> bool" where
  "quiet p = (case p of
      Paxos s \<Rightarrow> p_pending_decisions s = [] \<and> p_lost_proposals s = []
    | Raft s \<Rightarrow> clean s \<and> r_pending_decisions s = [] \<and> r_lost_proposals s = [])"

lemma quiet_flush: "quiet p \<Longrightarrow> protocol_flush_persist st p = Some (Ok (), p)"
  by (cases p) (simp_all add: quiet_def protocol_flush_persist_def paxos_flush_persist_def raft_flush_persist_def
      drain_persist_intent_def persist_step_def clean_def)

lemma quiet_drain: "quiet p \<Longrightarrow> protocol_drain_decisions st p = (Ok [], p)"
  by (cases p) (simp_all add: quiet_def protocol_drain_decisions_def paxos_drain_decisions_def paxos_take_decisions_def
      raft_drain_decisions_def raft_take_decisions_def map_ok_def)

lemma quiet_lost: "quiet p \<Longrightarrow> protocol_take_lost_proposals p = ([], p)"
  by (cases p) (simp_all add: quiet_def protocol_take_lost_proposals_def paxos_take_lost_proposals_def raft_take_lost_proposals_def)



section \<open>States\<close>

text \<open>
  The state a handle reports before the loop starts is the one the loop would compute: for both
  constructors it equals the snapshot of the fresh protocol.
\<close>

theorem node_initial_state_equiv:
  "n_state (paxos_with_id_inner mp e n cfg peers st) = compute_state (paxos_with_id_inner mp e n cfg peers st)
   \<and> map_option n_state (raft_with_id_inner e n rcfg peers rst) = map_option compute_state (raft_with_id_inner e n rcfg peers rst)"
proof
  show "n_state (paxos_with_id_inner mp e n cfg peers st) = compute_state (paxos_with_id_inner mp e n cfg peers st)"
    by (simp add: paxos_with_id_inner_def compute_state_def initial_state_def protocol_peek_state_def paxos_peek_state_def Let_def)
  show "map_option n_state (raft_with_id_inner e n rcfg peers rst) = map_option compute_state (raft_with_id_inner e n rcfg peers rst)"
    by (auto simp: raft_with_id_inner_def compute_state_def initial_state_def protocol_peek_state_def raft_peek_state_def
        raft_new_def Let_def split: result.splits)
qed

section \<open>Nonces\<close>

text \<open>
  Drawing a nonce ends as soon as the generator yields anything but zero, with that draw; zero,
  the mark of a recovered value, is never handed out.
\<close>

theorem live_nonce_total:
  "live_nonce draws = List.find (\<lambda>n. n \<noteq> 0) draws \<and> live_nonce draws \<noteq> Some 0
   \<and> (live_nonce draws = None \<longleftrightarrow> set draws \<subseteq> {0})"
  by (induction draws) auto

section \<open>A cluster of one\<close>

lemma lone_propose:
  assumes "\<not> p_multi_paxos s" and "p_quorum_size s = 1" and "hm_get (p_instances s) (p_next_slot s) = None"
  shows "paxos_propose e v s = Some (remove_instance (p_next_slot s) (decide e (p_next_slot s) v
      (set_instance (p_next_slot s) (self_accept (p_node_id s) v (first_round e (p_node_id s) v paxos_instance_new)) (enter_round e v s))),
    [Outgoing Broadcast (Decide (p_next_slot s) v)])"
  using assms
  by (simp add: paxos_propose_def inner_propose_def propose_full_eq start_phase2_eq instance_at_def phase2_value_def
      enter_round_def first_round_def self_accept_def paxos_instance_new_def set_instance_def at_least_def Let_def)



end
