(* ===== verification/NodeCluster.thy ===== *)
theory NodeCluster
  imports NodeProps
begin

text \<open>
  A cluster of whole Raft nodes: event loops of \<open>daccord/src/node.rs\<close> that exchange encoded messages
  over lossy first-in first-out channels, take submissions and ticks, and restart over their storage.
  Every event of a node is a sequence of steps of the protocol cluster of \<open>RaftFifo\<close>, so that its
  safety carries over to what the nodes deliver to their subscribers.
\<close>

section \<open>The cluster\<close>

record ('v, 'ps, 'rs, 'b) ncluster =
  nc_node :: "node_id \<Rightarrow> ('v, 'ps, 'rs) node"
  nc_chan :: "node_id \<Rightarrow> node_id \<Rightarrow> 'b list"
  nc_offered :: "(node_id \<times> 'v decided) set"

definition sent_to :: "node_id \<Rightarrow> ('v, 'b) effect list \<Rightarrow> 'b list" where
  "sent_to y fx = concat (map (\<lambda>x. case x of Sent z b \<Rightarrow> (if z = y then [b] else []) | _ \<Rightarrow> []) fx)"

definition offers :: "('v, 'b) effect list \<Rightarrow> 'v decided set" where
  "offers fx = {d. Offered d \<in> set fx}"

definition transmit ::
  "node_id \<Rightarrow> ('v, 'b) effect list \<Rightarrow> (node_id \<Rightarrow> node_id \<Rightarrow> 'b list) \<Rightarrow> node_id \<Rightarrow> node_id \<Rightarrow> 'b list" where
  "transmit n fx chan x y = (if x = n then chan x y @ sent_to y fx else chan x y)"

definition advance ::
  "node_id \<Rightarrow> ('v, 'ps, 'rs) node \<Rightarrow> ('v, 'b) effect list \<Rightarrow> ('v, 'ps, 'rs, 'b) ncluster \<Rightarrow> ('v, 'ps, 'rs, 'b) ncluster" where
  "advance n nd fx c = \<lparr>nc_node = (nc_node c)(n := nd), nc_chan = transmit n fx (nc_chan c),
     nc_offered = nc_offered c \<union> Pair n ` offers fx\<rparr>"

text \<open>The term a node is in, for the overflow of a campaign.\<close>

definition node_term :: "('v, 'ps, 'rs) node \<Rightarrow> u64" where
  "node_term nd = snap_term (protocol_peek_state (n_protocol nd))"

text \<open>
  The steps: an event that keeps the loop running, the next message of a channel, the loss of a
  message, and a restart of the node over its storage.
\<close>

inductive nstep ::
  "('v pending, 'ps, 'rs) storages \<Rightarrow> ('v pending, 'b) codec \<Rightarrow> node_id set
   \<Rightarrow> ('v, 'ps, 'rs, 'b) ncluster \<Rightarrow> ('v, 'ps, 'rs, 'b) ncluster \<Rightarrow> bool"
  for st :: "('v pending, 'ps, 'rs) storages" and codec :: "('v pending, 'b) codec" and N :: "node_id set"
where
  submit: "n \<in> N \<Longrightarrow> loop_step st codec (Submitted e sub) (nc_node c n) = (Running, nd, fx) \<Longrightarrow>
    nstep st codec N c (advance n nd fx c)"
| tick: "n \<in> N \<Longrightarrow> node_term (nc_node c n) < u64_max \<Longrightarrow>
    loop_step st codec (TickDue e now) (nc_node c n) = (Running, nd, fx) \<Longrightarrow> nstep st codec N c (advance n nd fx c)"
| receive: "m \<in> N \<Longrightarrow> n \<in> N \<Longrightarrow> nc_chan c m n = data # rest \<Longrightarrow>
    loop_step st codec (Received es data) (nc_node c n) = (Running, nd, fx) \<Longrightarrow>
    nstep st codec N c (advance n nd fx (c\<lparr>nc_chan := (nc_chan c)(m := (nc_chan c m)(n := rest))\<rparr>))"
| receive_failed: "n \<in> N \<Longrightarrow> loop_step st codec ReceiveFailed (nc_node c n) = (Running, nd, fx) \<Longrightarrow>
    nstep st codec N c (advance n nd fx c)"
| lose: "nc_chan c m n = ms @ data # rest \<Longrightarrow>
    nstep st codec N c (c\<lparr>nc_chan := (nc_chan c)(m := (nc_chan c m)(n := ms @ rest))\<rparr>)"
| restart: "n \<in> N \<Longrightarrow> n_protocol (nc_node c n) = Raft s \<Longrightarrow>
    raft_with_id_inner e n cfg (n_peers (nc_node c n)) (r_storage s) = Some nd0 \<Longrightarrow>
    node_run st codec e' [] nd0 = (Running, nd, fx) \<Longrightarrow> nstep st codec N c (advance n nd fx c)"

definition ncluster_init ::
  "('rs \<Rightarrow> bool) \<Rightarrow> ('rs \<Rightarrow> 'v durable) \<Rightarrow> node_id set \<Rightarrow> ('v, 'ps, 'rs, 'b) ncluster \<Rightarrow> bool" where
  "ncluster_init swf durable N c \<longleftrightarrow>
     (\<forall>n\<in>N. \<exists>e cfg peers st0. raft_with_id_inner e n cfg peers st0 = Some (nc_node c n)
        \<and> distinct peers \<and> set peers = N - {n} \<and> swf st0 \<and> durable st0 = durable_empty)
     \<and> nc_chan c = (\<lambda>_ _. []) \<and> nc_offered c = {}"

text \<open>What is relied on of the JSON encoding: a message is encoded, and decodes to itself.\<close>

definition codec_roundtrip :: "('v, 'b) codec \<Rightarrow> bool" where
  "codec_roundtrip codec \<longleftrightarrow> (\<forall>m. \<exists>b. to_bytes codec m = Ok b \<and> from_bytes codec b = Ok m)"

section \<open>What a step does to a Raft node\<close>

lemma sent_to_append [simp]: "sent_to y (fx @ fx') = sent_to y fx @ sent_to y fx'"
  by (simp add: sent_to_def)

lemma sent_to_Nil [simp]: "sent_to y [] = []"
  by (simp add: sent_to_def)

lemma offers_append [simp]: "offers (fx @ fx') = offers fx \<union> offers fx'"
  by (auto simp: offers_def)

lemma offers_Nil [simp]: "offers [] = {}"
  by (simp add: offers_def)

lemma sent_to_none: "(\<And>z b. Sent z b \<notin> set fx) \<Longrightarrow> sent_to y fx = []"
  unfolding sent_to_def concat_eq_Nil_conv by (auto split: effect.splits)

lemma deliver_offers:
  fixes fx :: "('v, 'b) effect list"
  assumes "deliver_decisions ds m = (fx, m')"
  shows "offers fx = (\<lambda>d. Decided (d_slot d) (pd_value (d_value d))) ` set ds"
  using assms
proof (induction ds arbitrary: m fx m')
  case (Cons d ds)
  obtain tx m1 m2 and fx1 :: "('v, 'b) effect list" where 1: "remove_for_decision (pd_nonce (d_value d)) (pd_value (d_value d)) m = (tx, m1)"
    "deliver_decisions ds m1 = (fx1, m2)" by (metis surj_pair)
  with Cons.prems have "fx = (case tx of Some t \<Rightarrow> [Completed t (Ok (Decided (d_slot d) (pd_value (d_value d))))] | None \<Rightarrow> [])
      @ [Offered (Decided (d_slot d) (pd_value (d_value d)))] @ fx1" by (simp add: Let_def)
  then have "offers fx = insert (Decided (d_slot d) (pd_value (d_value d))) (offers fx1)"
    by (cases tx) (auto simp: offers_def)
  with Cons.IH [OF 1(2)] show ?case by simp
qed simp

text \<open>The Raft message an encoded one stands for.\<close>

definition carried :: "('v pending, 'b) codec \<Rightarrow> node_id \<Rightarrow> 'b \<Rightarrow> 'v pending raft_message \<Rightarrow> bool" where
  "carried codec x b m \<longleftrightarrow> from_bytes codec b = Ok (Message x (WRaft m))"

lemma sent_to_peer: "distinct peers \<Longrightarrow> sent_to y (map (\<lambda>peer. Sent peer b) peers) = (if y \<in> set peers then [b] else [])"
  by (induction peers) (auto simp: sent_to_def)

lemma send_one_carried:
  assumes "codec_roundtrip codec" and "distinct peers" and "y \<in> set peers"
  shows "list_all2 (carried codec n) (sent_to y (send_one codec n peers (wrap_raft out)))
    (if o_target out = Peer y \<or> o_target out = Broadcast then [o_message out] else [])"
proof -
  obtain b where b: "to_bytes codec (Message n (WRaft (o_message out))) = Ok b"
      "from_bytes codec b = Ok (Message n (WRaft (o_message out)))"
    using assms(1) unfolding codec_roundtrip_def by blast
  show ?thesis
  proof (cases "o_target out")
    case Broadcast
    with b show ?thesis
      by (simp add: send_one_def wrap_raft_def sent_to_peer [OF assms(2)] assms(3) carried_def)
  next
    case (Peer z)
    have "List.find (\<lambda>peer. peer = z) peers = (if z \<in> set peers then Some z else None)" by (induction peers) auto
    with Peer b assms(3) show ?thesis by (simp add: send_one_def wrap_raft_def sent_to_def carried_def)
  qed
qed

lemma send_outgoing_carried:
  assumes "codec_roundtrip codec" and "distinct peers" and "y \<in> set peers"
  shows "list_all2 (carried codec n) (sent_to y (send_outgoing codec n (map wrap_raft outs) peers)) (posted y outs)"
proof (induction outs)
  case (Cons out outs)
  from list_all2_appendI [OF send_one_carried [OF assms, of n out] Cons] show ?case
    by (cases "o_target out = Peer y \<or> o_target out = Broadcast") (auto simp: send_outgoing_def posted_def)
qed (simp add: send_outgoing_def posted_def)

lemma sent_to_outsider:
  assumes "y \<notin> set peers"
  shows "sent_to y (send_outgoing codec n outs peers) = []"
proof -
  have "(case x of Sent z b \<Rightarrow> if z = y then [b] else [] | _ \<Rightarrow> []) = []" if "x \<in> set (send_outgoing codec n outs peers)" for x
    using that by (rule send_outgoingD) (use assms in auto)
  then show ?thesis unfolding sent_to_def concat_eq_Nil_conv by auto
qed

lemma after_protocol_raft:
  fixes fx :: "('v, 'b) effect list"
  assumes "after_protocol st codec (lift_raft r) nd = (Continue, nd', fx)"
  obtains s1 outs s2 m fx2 where "raft_io (st_raft st) r = Some (s1, outs)"
    "raft_drain_decisions (st_raft st) s1 = (Ok (r_pending_decisions s1), s2)"
    "deliver_decisions (r_pending_decisions s1) (n_pending nd) = (fx2, m)"
    "nd' = nd\<lparr>n_protocol := Raft s2, n_pending := m\<rparr>"
    "fx = send_outgoing codec (n_node_id nd) (map wrap_raft outs) (n_peers nd) @ fx2"
proof -
  from assms obtain s outs where r: "r = Some (s, outs)"
    by (cases r) (auto simp: after_protocol_def lift_raft_def)
  from assms r obtain s1 where flush: "raft_flush_persist (st_raft st) s = Some (Ok (), s1)"
    by (cases "raft_flush_persist (st_raft st) s")
      (auto simp: after_protocol_def lift_raft_def protocol_flush_persist_def split: result.splits)
  let ?nd = "nd\<lparr>n_protocol := Raft s1\<rparr>"
  let ?sent = "send_outgoing codec (n_node_id nd) (map wrap_raft outs) (n_peers nd)"
  have eq: "after_protocol st codec (lift_raft r) nd = and_then (Continue, ?nd, ?sent) (process_decisions st)"
    by (simp add: after_protocol_def lift_raft_def r protocol_flush_persist_def flush)
  obtain res s2 where drain: "raft_drain_decisions (st_raft st) s1 = (res, s2)" by fastforce
  from assms eq drain have "res = Ok (r_pending_decisions s1)"
    by (cases res) (auto simp: and_then_def process_decisions_def protocol_drain_decisions_def raft_drain_decisions_def
        raft_take_decisions_def Let_def split: prod.splits)
  moreover obtain fx2 m where del: "deliver_decisions (r_pending_decisions s1) (n_pending nd) = (fx2 :: ('v, 'b) effect list, m)" by fastforce
  ultimately show thesis
    using assms eq drain
    by (intro that [of s1 outs s2 fx2 m])
      (simp_all add: r flush raft_io_def and_then_def process_decisions_def protocol_drain_decisions_def)
qed

section \<open>Events as steps of the protocol cluster\<close>

definition node_rel :: "node_id set \<Rightarrow> node_id \<Rightarrow> ('v, 'ps, 'rs) node \<Rightarrow> ('v pending, 'rs) raft_protocol \<Rightarrow> bool" where
  "node_rel N n nd s \<longleftrightarrow> n_node_id nd = n \<and> set (n_peers nd) = N - {n} \<and> distinct (n_peers nd) \<and> n_protocol nd = Raft s"

text \<open>
  The protocol cluster \<open>f\<close> after node \<open>n\<close> has acted with the effects \<open>fx\<close>: \<open>chan\<close> are the channels
  before it sent anything.
\<close>

definition follows ::
  "('v pending, 'b) codec \<Rightarrow> node_id set \<Rightarrow> node_id \<Rightarrow> ('v pending, 'rs) fcluster
   \<Rightarrow> (node_id \<Rightarrow> node_id \<Rightarrow> 'v pending raft_message list) \<Rightarrow> ('v, 'ps, 'rs) node \<Rightarrow> ('v, 'b) effect list
   \<Rightarrow> ('v pending, 'rs) fcluster \<Rightarrow> bool" where
  "follows codec N n f chan nd fx f' \<longleftrightarrow>
     node_rel N n nd (f_node f' n) \<and> (\<forall>m. m \<noteq> n \<longrightarrow> f_node f' m = f_node f m)
     \<and> (\<forall>y. y \<in> N - {n} \<longrightarrow> (\<exists>ms. f_chan f' n y = chan n y @ ms \<and> list_all2 (carried codec n) (sent_to y fx) ms))
     \<and> (\<forall>x y. x \<noteq> n \<or> y \<notin> N - {n} \<longrightarrow> f_chan f' x y = chan x y) \<and> (\<forall>y. y \<notin> N - {n} \<longrightarrow> sent_to y fx = [])"

text \<open>The simulation of \<open>RaftFifo\<close>, for nodes that store user values behind the adapter.\<close>

abbreviation nodes_sim ::
  "('s \<Rightarrow> bool) \<Rightarrow> ('s \<Rightarrow> 'v durable) \<Rightarrow> ('v \<Rightarrow> 'v) \<Rightarrow> node_id set \<Rightarrow> 'v pending acluster \<Rightarrow> ('v pending, 's) fcluster \<Rightarrow> bool" where
  "nodes_sim swf durable norm N a f \<equiv>
     fsim swf (\<lambda>s. wrap_durable (durable s)) (\<lambda>p. recovered (norm (pd_value p))) N a f"

definition knows :: "('v \<Rightarrow> 'v) \<Rightarrow> 'v pending acluster \<Rightarrow> ('v, 'b) effect list \<Rightarrow> bool" where
  "knows norm a fx \<longleftrightarrow> (\<forall>d\<in>offers fx. (dc_slot d, recovered (norm (dc_value d))) \<in> ac_decided a)"

lemma follows_trans:
  assumes "follows codec N n f chan nd1 fx1 f1" and "follows codec N n f1 (f_chan f1) nd2 fx2 f2"
  shows "follows codec N n f chan nd2 (fx1 @ fx2) f2"
proof -
  have "\<exists>ms. f_chan f2 n y = chan n y @ ms \<and> list_all2 (carried codec n) (sent_to y (fx1 @ fx2)) ms" if "y \<in> N - {n}" for y
  proof -
    from assms(1) that obtain ms1 where 1: "f_chan f1 n y = chan n y @ ms1" "list_all2 (carried codec n) (sent_to y fx1) ms1"
      unfolding follows_def by blast
    from assms(2) that obtain ms2 where 2: "f_chan f2 n y = f_chan f1 n y @ ms2" "list_all2 (carried codec n) (sent_to y fx2) ms2"
      unfolding follows_def by blast
    from 1 2 show ?thesis by (intro exI [of _ "ms1 @ ms2"]) (simp add: list_all2_appendI)
  qed
  with assms show ?thesis unfolding follows_def by simp
qed

lemma follows_silent:
  assumes "node_rel N n nd (f_node f n)" and "\<And>y. sent_to y fx = []"
  shows "follows codec N n f (f_chan f) nd fx f"
  using assms by (simp add: follows_def)

lemma follows_effects:
  assumes "follows codec N n f chan nd fx f'" and "\<And>y. sent_to y fx' = []" and "node_rel N n nd' (f_node f' n)"
  shows "follows codec N n f chan nd' (fx @ fx') f'"
  using assms by (simp add: follows_def)

lemma post_follows:
  assumes "codec_roundtrip codec" and "node_rel N n nd (f_node f n)" and "f_node f' = (f_node f)(n := s')"
    and "f_chan f' = post N n outs chan" and "nd' = nd\<lparr>n_protocol := Raft s', n_pending := m\<rparr>"
  shows "follows codec N n f chan nd' (send_outgoing codec (n_node_id nd) (map wrap_raft outs) (n_peers nd)) f'"
proof -
  have peers: "n_node_id nd = n" "distinct (n_peers nd)" "set (n_peers nd) = N - {n}" using assms(2) by (simp_all add: node_rel_def)
  let ?fx = "send_outgoing codec n (map wrap_raft outs) (n_peers nd)"
  have "\<exists>ms. f_chan f' n y = chan n y @ ms \<and> list_all2 (carried codec n) (sent_to y ?fx) ms" if "y \<in> N - {n}" for y
    using send_outgoing_carried [OF assms(1) peers(2)] that peers(3) by (intro exI [of _ "posted y outs"]) (simp add: assms(4) post_def)
  moreover have "f_chan f' x y = chan x y" if "x \<noteq> n \<or> y \<notin> N - {n}" for x y using that by (auto simp: assms(4) post_def)
  moreover have "sent_to y ?fx = []" if "y \<notin> N - {n}" for y
    by (rule sent_to_outsider) (use that peers(3) in simp)
  ultimately show ?thesis using assms(2,3,5) peers by (simp add: follows_def node_rel_def)
qed

context pending_raft
begin

lemma nodes_after_protocol:
  fixes fx :: "('v, 'b) effect list" and nd :: "('v, 'ps, 's) node"
  assumes st: "st_raft st = pending_raft_storage ops" and codec: "codec_roundtrip codec" and fin: "finite N" and "n \<in> N"
    and sim: "nodes_sim swf durable norm N a f"
    and rel: "node_rel N n nd (f_node f n)"
    and step: "\<And>s1 outs. raft_io (pending_raft_storage ops) r = Some (s1, outs) \<Longrightarrow>
      fstep (pending_raft_storage ops) N f \<lparr>f_node = (f_node f)(n := s1), f_chan = post N n outs chan\<rparr>"
    and run: "after_protocol st codec (lift_raft r) nd = (Continue, nd', fx)"
  shows "\<exists>b f'. nodes_sim swf durable norm N b f'
    \<and> ac_decided a \<subseteq> ac_decided b \<and> follows codec N n f chan nd' fx f' \<and> knows norm b fx"
proof -
  let ?dur = "\<lambda>s. wrap_durable (durable s)" and ?norm = "\<lambda>p. recovered (norm (pd_value p))"
  from run obtain s1 outs s2 m and fx2 :: "('v, 'b) effect list" where
    r: "raft_io (pending_raft_storage ops) r = Some (s1, outs)"
      "raft_drain_decisions (pending_raft_storage ops) s1 = (Ok (r_pending_decisions s1), s2)"
      "deliver_decisions (r_pending_decisions s1) (n_pending nd) = (fx2, m)"
      "nd' = nd\<lparr>n_protocol := Raft s2, n_pending := m\<rparr>"
      "fx = send_outgoing codec (n_node_id nd) (map wrap_raft outs) (n_peers nd) @ fx2"
    by (rule after_protocol_raft) (simp add: st)
  let ?f1 = "\<lparr>f_node = (f_node f)(n := s1), f_chan = post N n outs chan\<rparr>"
  let ?f2 = "\<lparr>f_node = (f_node ?f1)(n := s2), f_chan = post N n [] (f_chan ?f1)\<rparr>"
  from adapted.fstep_refines [OF step [OF r(1)] fin sim] obtain a1 where
    a1: "fsim swf ?dur ?norm N a1 ?f1" "ac_decided a \<subseteq> ac_decided a1" by blast
  have "fstep (pending_raft_storage ops) N ?f1 ?f2"
    using \<open>n \<in> N\<close> r(2) by (intro fstep.local_event local_step.drain) simp_all
  from adapted.fstep_refines [OF this fin a1(1)] obtain a2 where
    a2: "fsim swf ?dur ?norm N a2 ?f2" "ac_decided a1 \<subseteq> ac_decided a2" by blast
  have "node_ok True swf ?dur ?norm N a1 n (f_node ?f1 n)" using a1(1) \<open>n \<in> N\<close> unfolding fsim_def by blast
  then have "node_ok True swf ?dur ?norm N a1 n s1" by simp
  from node_decided_abs [OF this] have "(d_slot d, ?norm (d_value d)) \<in> ac_decided a1" if "d \<in> set (r_pending_decisions s1)" for d
    using that by (auto simp: node_decided_def)
  then have "knows norm a2 fx2" using a2(2) deliver_offers [OF r(3)] by (auto simp: knows_def)
  moreover have "offers (send_outgoing codec (n_node_id nd) (map wrap_raft outs) (n_peers nd)) = {}"
    by (auto simp: offers_def elim: send_outgoingD)
  ultimately have "knows norm a2 fx" by (simp add: knows_def r(5))
  moreover have "follows codec N n f chan (nd\<lparr>n_protocol := Raft s2, n_pending := m\<rparr>) fx ?f2"
  proof -
    have "post N n [] ch = ch" for ch :: "node_id \<Rightarrow> node_id \<Rightarrow> 'v pending raft_message list"
      by (auto simp: post_def posted_def fun_eq_iff)
    then have "follows codec N n f chan (nd\<lparr>n_protocol := Raft s2, n_pending := m\<rparr>)
        (send_outgoing codec (n_node_id nd) (map wrap_raft outs) (n_peers nd)) ?f2"
      by (intro post_follows [OF codec rel, where s' = s2]) simp_all
    then show ?thesis
      unfolding r(5)
      by (rule follows_effects) (use rel sent_to_none [OF deliver_decisions_no_send [OF r(3)]] in \<open>simp_all add: node_rel_def\<close>)
  qed
  ultimately show ?thesis using a1(2) a2 r(4) by blast
qed

end

lemma and_then_Continue:
  "and_then r f = (Continue, nd, fx) \<longleftrightarrow>
     (\<exists>nd1 fx1 fx2. r = (Continue, nd1, fx1) \<and> f nd1 = (Continue, nd, fx2) \<and> fx = fx1 @ fx2)"
  by (auto simp: and_then_def split: prod.splits flow.splits)

lemma finish_of_Running [simp]: "finish_of fl = Running \<longleftrightarrow> fl = Continue" "Running = finish_of fl \<longleftrightarrow> fl = Continue"
  by (cases fl; simp add: finish_of_def)+

lemma knows_append [simp]: "knows norm a (fx @ fx') \<longleftrightarrow> knows norm a fx \<and> knows norm a fx'"
  by (auto simp: knows_def)

lemma knows_mono: "knows norm a fx \<Longrightarrow> ac_decided a \<subseteq> ac_decided b \<Longrightarrow> knows norm b fx"
  by (auto simp: knows_def)

context pending_raft
begin

text \<open>A value the node proposes.\<close>

lemma nodes_propose:
  fixes fx :: "('v, 'b) effect list" and nd :: "('v, 'ps, 's) node"
  assumes st: "st_raft st = pending_raft_storage ops" and codec: "codec_roundtrip codec" and fin: "finite N" and "n \<in> N"
    and sim: "nodes_sim swf durable norm N a f"
    and rel: "node_rel N n nd (f_node f n)"
    and run: "after_protocol st codec (protocol_propose e v (n_protocol nd)) nd = (Continue, nd', fx)"
  shows "\<exists>b f'. nodes_sim swf durable norm N b f'
    \<and> ac_decided a \<subseteq> ac_decided b \<and> follows codec N n f (f_chan f) nd' fx f' \<and> knows norm b fx"
proof (rule nodes_after_protocol [OF st codec fin \<open>n \<in> N\<close> sim rel])
  show "after_protocol st codec (lift_raft (raft_propose e v (f_node f n))) nd = (Continue, nd', fx)"
    using run rel by (simp add: node_rel_def protocol_propose_def)
qed (use \<open>n \<in> N\<close> in \<open>blast intro: fstep.local_event local_step.propose\<close>)

lemma nodes_repropose:
  fixes fx :: "('v, 'b) effect list" and nd :: "('v, 'ps, 's) node"
  assumes st: "st_raft st = pending_raft_storage ops" and codec: "codec_roundtrip codec" and fin: "finite N" and "n \<in> N"
    and "nodes_sim swf durable norm N a f"
    and "node_rel N n nd (f_node f n)" and "repropose st codec es lost nd = (Continue, nd', fx)"
  shows "\<exists>b f'. nodes_sim swf durable norm N b f'
    \<and> ac_decided a \<subseteq> ac_decided b \<and> follows codec N n f (f_chan f) nd' fx f' \<and> knows norm b fx"
  using assms(5-7)
proof (induction lost arbitrary: es nd a f fx)
  case Nil
  then show ?case
    by (intro exI [of _ a] exI [of _ f]) (simp add: follows_silent knows_def)
next
  case (Cons v lost)
  from Cons.prems(3) obtain nd1 fx1 fx2 where 1: "after_protocol st codec (protocol_propose (es 0) v (n_protocol nd)) nd = (Continue, nd1, fx1)"
      "repropose st codec (\<lambda>k. es (Suc k)) lost nd1 = (Continue, nd', fx2)" "fx = fx1 @ fx2"
    by (auto simp: and_then_Continue)
  from nodes_propose [OF st codec fin \<open>n \<in> N\<close> Cons.prems(1,2) 1(1)] obtain b f1 where
    b: "nodes_sim swf durable norm N b f1"
      "ac_decided a \<subseteq> ac_decided b" "follows codec N n f (f_chan f) nd1 fx1 f1" "knows norm b fx1" by blast
  have "node_rel N n nd1 (f_node f1 n)" using b(3) by (simp add: follows_def)
  from Cons.IH [OF b(1) this 1(2)] obtain d f2 where
    d: "nodes_sim swf durable norm N d f2"
      "ac_decided b \<subseteq> ac_decided d" "follows codec N n f1 (f_chan f1) nd' fx2 f2" "knows norm d fx2" by blast
  from d b follows_trans [OF b(3) d(3)] knows_mono [OF b(4) d(2)] 1(3) show ?case
    by (intro exI [of _ d] exI [of _ f2]) auto
qed

text \<open>Publishing the state is invisible to the protocol cluster.\<close>

lemma publish_follows:
  assumes "follows codec N n f chan nd fx f'" and "publish_state nd = (Continue, nd', fx')"
  shows "follows codec N n f chan nd' (fx @ fx') f' \<and> offers fx' = {}"
proof -
  have "node_rel N n nd' (f_node f' n)" using assms by (auto simp: follows_def publish_state_def node_rel_def)
  with assms show ?thesis
    by (auto simp: publish_state_def offers_def intro!: follows_effects [OF assms(1)]) (simp_all add: sent_to_def)
qed

end

section \<open>The cluster of nodes refines the protocol cluster\<close>

definition crel ::
  "('v pending, 'b) codec \<Rightarrow> node_id set \<Rightarrow> ('v, 'ps, 'rs, 'b) ncluster \<Rightarrow> ('v pending, 'rs) fcluster \<Rightarrow> bool" where
  "crel codec N c f \<longleftrightarrow> (\<forall>n\<in>N. node_rel N n (nc_node c n) (f_node f n))
     \<and> (\<forall>x y. list_all2 (carried codec x) (nc_chan c x y) (f_chan f x y))"

definition offered_ok :: "('v \<Rightarrow> 'v) \<Rightarrow> 'v pending acluster \<Rightarrow> ('v, 'ps, 'rs, 'b) ncluster \<Rightarrow> bool" where
  "offered_ok norm a c \<longleftrightarrow> (\<forall>n d. (n, d) \<in> nc_offered c \<longrightarrow> (dc_slot d, recovered (norm (dc_value d))) \<in> ac_decided a)"

lemma crel_advance:
  assumes "crel codec N c f" and "n \<in> N" and "follows codec N n f chan nd fx f'"
    and "\<And>x y. list_all2 (carried codec x) (chan' x y) (chan x y)"
  shows "crel codec N (advance n nd fx (c\<lparr>nc_chan := chan'\<rparr>)) f'"
proof -
  have "list_all2 (carried codec x) (transmit n fx chan' x y) (f_chan f' x y)" for x y
  proof (cases "x = n \<and> y \<in> N - {n}")
    case True
    with assms(3) obtain ms where "f_chan f' n y = chan n y @ ms" "list_all2 (carried codec n) (sent_to y fx) ms"
      unfolding follows_def by blast
    with True assms(4) show ?thesis by (simp add: transmit_def list_all2_appendI)
  next
    case False
    then have "x \<noteq> n \<or> y \<notin> N - {n}" by blast
    with assms(3) have "f_chan f' x y = chan x y" "x = n \<longrightarrow> sent_to y fx = []" unfolding follows_def by blast+
    with assms(4) show ?thesis by (simp add: transmit_def)
  qed
  with assms(1-3) show ?thesis by (auto simp: crel_def advance_def follows_def)
qed

lemma crel_advance_same:
  assumes "crel codec N c f" and "n \<in> N" and "follows codec N n f (f_chan f) nd fx f'"
  shows "crel codec N (advance n nd fx c) f'"
  using crel_advance [OF assms, of "nc_chan c"] assms(1) by (simp add: crel_def)

lemma offered_advance:
  assumes "offered_ok norm a c" and "ac_decided a \<subseteq> ac_decided b" and "knows norm b fx"
  shows "offered_ok norm b (advance n nd fx (c\<lparr>nc_chan := chan\<rparr>))" and "offered_ok norm b (advance n nd fx c)"
  using assms by (auto simp: offered_ok_def knows_def advance_def)

context pending_raft
begin

lemma nodes_submit:
  fixes fx :: "('v, 'b) effect list" and nd :: "('v, 'ps, 's) node"
  assumes "st_raft st = pending_raft_storage ops" and "codec_roundtrip codec" and "finite N" and "n \<in> N"
    and "nodes_sim swf durable norm N a f" and rel: "node_rel N n nd (f_node f n)"
    and run: "handle_submission st codec e sub nd = (Continue, nd', fx)"
  shows "\<exists>b f'. nodes_sim swf durable norm N b f' \<and> ac_decided a \<subseteq> ac_decided b
    \<and> follows codec N n f (f_chan f) nd' fx f' \<and> knows norm b fx"
proof -
  obtain fx0 m where i: "pending_insert (sub_pending sub) (sub_completion sub) (n_pending nd) = (fx0 :: ('v, 'b) effect list, m)" by fastforce
  let ?nd = "nd\<lparr>n_pending := m\<rparr>"
  from run obtain nd1 fx1 fx2 where 1: "after_protocol st codec (protocol_propose e (sub_pending sub) (n_protocol ?nd)) ?nd = (Continue, nd1, fx1)"
      "publish_state nd1 = (Continue, nd', fx2)" "fx = fx0 @ fx1 @ fx2"
    by (auto simp: handle_submission_def i and_then_Continue)
  have silent: "sent_to y fx0 = []" "offers fx0 = {}" for y
    using i by (auto simp: pending_insert_def sent_to_def offers_def split: option.splits)
  have rel': "node_rel N n ?nd (f_node f n)" using rel by (simp add: node_rel_def)
  from nodes_propose [OF assms(1-5) rel' 1(1)] obtain b f1 where
    b: "nodes_sim swf durable norm N b f1" "ac_decided a \<subseteq> ac_decided b" "follows codec N n f (f_chan f) nd1 fx1 f1" "knows norm b fx1"
    by blast
  from follows_trans [OF follows_silent [OF rel' silent(1)] b(3)] have "follows codec N n f (f_chan f) nd1 (fx0 @ fx1) f1" .
  from publish_follows [OF this 1(2)] b(1,2,4) silent(2) 1(3) show ?thesis
    by (intro exI [of _ b] exI [of _ f1]) (simp add: knows_def)
qed

lemma nodes_tick:
  fixes fx :: "('v, 'b) effect list" and nd :: "('v, 'ps, 's) node"
  assumes "st_raft st = pending_raft_storage ops" and "codec_roundtrip codec" and "finite N" and "n \<in> N"
    and "nodes_sim swf durable norm N a f" and rel: "node_rel N n nd (f_node f n)" and room: "node_term nd < u64_max"
    and run: "handle_retries st codec e now nd = (Continue, nd', fx)"
  shows "\<exists>b f'. nodes_sim swf durable norm N b f' \<and> ac_decided a \<subseteq> ac_decided b
    \<and> follows codec N n f (f_chan f) nd' fx f' \<and> knows norm b fx"
proof -
  have s: "n_protocol nd = Raft (f_node f n)" using rel by (simp add: node_rel_def)
  from run obtain nd1 fx1 fx2 where 1: "after_protocol st codec (lift_raft (raft_on_tick e now (f_node f n))) nd = (Continue, nd1, fx1)"
      "publish_state nd1 = (Continue, nd', fx2)" "fx = fx1 @ fx2"
    by (auto simp: handle_retries_def protocol_on_tick_def s and_then_Continue)
  have "r_current_term (f_node f n) < u64_max"
    using room by (simp add: node_term_def s protocol_peek_state_def raft_peek_state_def)
  then have "\<And>s1 outs. raft_io (pending_raft_storage ops) (raft_on_tick e now (f_node f n)) = Some (s1, outs) \<Longrightarrow>
      fstep (pending_raft_storage ops) N f \<lparr>f_node = (f_node f)(n := s1), f_chan = post N n outs (f_chan f)\<rparr>"
    using \<open>n \<in> N\<close> by (blast intro: fstep.local_event local_step.tick)
  from nodes_after_protocol [OF assms(1-5) rel this 1(1)] obtain b f1 where
    b: "nodes_sim swf durable norm N b f1" "ac_decided a \<subseteq> ac_decided b" "follows codec N n f (f_chan f) nd1 fx1 f1" "knows norm b fx1"
    by blast
  from publish_follows [OF b(3) 1(2)] b(1,2,4) 1(3) show ?thesis
    by (intro exI [of _ b] exI [of _ f1]) (simp add: knows_def)
qed

lemma nodes_receive:
  fixes fx :: "('v, 'b) effect list" and nd :: "('v, 'ps, 's) node"
  assumes st: "st_raft st = pending_raft_storage ops" and codec: "codec_roundtrip codec" and fin: "finite N" and "n \<in> N" and "m \<in> N"
    and sim: "nodes_sim swf durable norm N a f" and rel: "node_rel N n nd (f_node f n)"
    and chan: "f_chan f m n = msg # rest" and data: "carried codec m data msg"
    and run: "handle_incoming_bytes st codec es data nd = (Continue, nd', fx)"
  shows "\<exists>b f'. nodes_sim swf durable norm N b f' \<and> ac_decided a \<subseteq> ac_decided b
    \<and> follows codec N n f ((f_chan f)(m := (f_chan f m)(n := rest))) nd' fx f' \<and> knows norm b fx"
proof -
  let ?chan = "(f_chan f)(m := (f_chan f m)(n := rest))"
  have s: "n_protocol nd = Raft (f_node f n)" using rel by (simp add: node_rel_def)
  from data have d: "from_bytes codec data = Ok (Message m (WRaft msg))" by (simp add: carried_def)
  from run obtain nd1 fx1 nd2 fx2 fx3 where
    1: "after_protocol st codec (lift_raft (raft_handle_message (es 0) m msg (f_node f n))) nd = (Continue, nd1, fx1)"
      "repropose st codec (\<lambda>k. es (Suc k)) (fst (protocol_take_lost_proposals (n_protocol nd1)))
         (nd1\<lparr>n_protocol := snd (protocol_take_lost_proposals (n_protocol nd1))\<rparr>) = (Continue, nd2, fx2)"
      "publish_state nd2 = (Continue, nd', fx3)" "fx = (fx1 @ fx2) @ fx3"
    by (auto simp: handle_incoming_bytes_def d handle_wire_message_def s and_then_Continue case_prod_unfold)
  have "\<And>s1 outs. raft_io (pending_raft_storage ops) (raft_handle_message (es 0) m msg (f_node f n)) = Some (s1, outs) \<Longrightarrow>
      fstep (pending_raft_storage ops) N f \<lparr>f_node = (f_node f)(n := s1), f_chan = post N n outs ?chan\<rparr>"
    using \<open>n \<in> N\<close> \<open>m \<in> N\<close> chan by (blast intro: fstep.deliver)
  from nodes_after_protocol [OF st codec fin \<open>n \<in> N\<close> sim rel this 1(1)] obtain b f1 where
    b: "nodes_sim swf durable norm N b f1" "ac_decided a \<subseteq> ac_decided b" "follows codec N n f ?chan nd1 fx1 f1" "knows norm b fx1"
    by blast
  let ?s = "snd (raft_take_lost_proposals (f_node f1 n))"
  let ?f2 = "\<lparr>f_node = (f_node f1)(n := ?s), f_chan = post N n [] (f_chan f1)\<rparr>"
  have rel1: "node_rel N n nd1 (f_node f1 n)" using b(3) by (simp add: follows_def)
  let ?p = "snd (protocol_take_lost_proposals (n_protocol nd1))"
  have p: "?p = Raft ?s" using rel1 by (simp add: node_rel_def protocol_take_lost_proposals_def case_prod_unfold)
  have "fstep (pending_raft_storage ops) N f1 ?f2"
    using \<open>n \<in> N\<close> by (intro fstep.local_event local_step.take_lost [where lost = "fst (raft_take_lost_proposals (f_node f1 n))"]) simp_all
  from adapted.fstep_refines [OF this fin b(1)] obtain b2 where
    b2: "nodes_sim swf durable norm N b2 ?f2" "ac_decided b \<subseteq> ac_decided b2" by blast
  have "f_chan ?f2 = f_chan f1" by (auto simp: post_def posted_def fun_eq_iff)
  with b(3) p have f2: "follows codec N n f ?chan (nd1\<lparr>n_protocol := ?p\<rparr>) fx1 ?f2"
    by (simp add: follows_def node_rel_def)
  then have "node_rel N n (nd1\<lparr>n_protocol := ?p\<rparr>) (f_node ?f2 n)" by (simp add: follows_def)
  from nodes_repropose [OF st codec fin \<open>n \<in> N\<close> b2(1) this 1(2)] obtain d f3 where
    d: "nodes_sim swf durable norm N d f3" "ac_decided b2 \<subseteq> ac_decided d" "follows codec N n ?f2 (f_chan ?f2) nd2 fx2 f3" "knows norm d fx2"
    by blast
  from publish_follows [OF follows_trans [OF f2 d(3)] 1(3)] have "follows codec N n f ?chan nd' fx f3" "offers fx3 = {}" using 1(4) by simp_all
  moreover have "knows norm d fx" using knows_mono [OF b(4)] b2(2) d(2,4) \<open>offers fx3 = {}\<close> by (auto simp: 1(4) knows_def)
  ultimately show ?thesis using b(2) b2(2) d(1,2) by blast
qed

end

definition node_inv ::
  "('rs \<Rightarrow> bool) \<Rightarrow> ('rs \<Rightarrow> 'v durable) \<Rightarrow> ('v \<Rightarrow> 'v) \<Rightarrow> ('v pending, 'b) codec \<Rightarrow> node_id set
   \<Rightarrow> ('v, 'ps, 'rs, 'b) ncluster \<Rightarrow> bool" where
  "node_inv swf durable norm codec N c \<longleftrightarrow>
     (\<exists>a f. nodes_sim swf durable norm N a f \<and> crel codec N c f \<and> offered_ok norm a c)"

lemma node_inv_advance:
  assumes "crel codec N c f" and "offered_ok norm a c" and "n \<in> N"
    and "\<exists>b f'. nodes_sim swf durable norm N b f' \<and> ac_decided a \<subseteq> ac_decided b
      \<and> follows codec N n f (f_chan f) nd fx f' \<and> knows norm b fx"
  shows "node_inv swf durable norm codec N (advance n nd fx c)"
  using assms crel_advance_same offered_advance(2) unfolding node_inv_def by blast

lemma raft_with_id_inner_rel:
  assumes "raft_with_id_inner e n cfg peers st0 = Some (nd :: ('v, 'ps, 'rs) node)" and "distinct peers" and "set peers = N - {n}"
    and "finite N" and "n \<in> N"
  obtains s where "raft_new e n (card N) cfg st0 = Some s" and "node_rel N n nd s"
proof -
  have "card N = length peers + 1" using assms(2-5) distinct_card [of peers] by (simp add: card_Diff_singleton) (metis Suc_pred card_gt_0_iff empty_iff)
  with assms(1-3) that show ?thesis by (auto simp: raft_with_id_inner_def node_rel_def)
qed

context pending_raft
begin

lemma nodes_restart:
  fixes fx :: "('v, 'b) effect list" and nd :: "('v, 'ps, 's) node"
  assumes st: "st_raft st = pending_raft_storage ops" and fin: "finite N" and "n \<in> N"
    and sim: "nodes_sim swf durable norm N a f" and rel: "node_rel N n nd (f_node f n)"
    and new: "raft_with_id_inner e n cfg (n_peers nd) (r_storage (f_node f n)) = Some nd0"
    and run: "node_run st codec e' [] nd0 = (Running, nd', fx)"
  shows "\<exists>b f'. nodes_sim swf durable norm N b f' \<and> ac_decided a \<subseteq> ac_decided b
    \<and> follows codec N n f (f_chan f) nd' fx f' \<and> knows norm b fx"
proof -
  from rel have "distinct (n_peers nd)" "set (n_peers nd) = N - {n}" by (simp_all add: node_rel_def)
  from raft_with_id_inner_rel [OF new this fin \<open>n \<in> N\<close>] obtain s0 where
    s0: "raft_new e n (card N) cfg (r_storage (f_node f n)) = Some s0" "node_rel N n nd0 s0" by blast
  have "n_protocol nd0 = Raft s0" using s0(2) by (simp add: node_rel_def)
  with run obtain s1 nd1 where 1: "raft_recover (pending_raft_storage ops) e' s0 = Some (Ok (), s1)"
      "publish_state (nd0\<lparr>n_protocol := Raft s1\<rparr>) = (Continue, nd1, fx)"
      "nd' = nd1\<lparr>n_receiver_alive := (n_peers nd1 \<noteq> []), n_pending := []\<rparr>"
    by (auto simp: node_run_def protocol_recover_def st publish_state_def split: option.splits result.splits prod.splits if_splits)
  let ?f = "\<lparr>f_node = (f_node f)(n := s1), f_chan = post N n [] (f_chan f)\<rparr>"
  have "fstep (pending_raft_storage ops) N f ?f"
    using \<open>n \<in> N\<close> s0(1) 1(1) by (intro fstep.local_event local_step.restart)
  from adapted.fstep_refines [OF this fin sim] obtain b where
    b: "nodes_sim swf durable norm N b ?f" "ac_decided a \<subseteq> ac_decided b" by blast
  have "f_chan ?f = f_chan f" by (auto simp: post_def posted_def fun_eq_iff)
  with s0(2) have "follows codec N n f (f_chan f) (nd0\<lparr>n_protocol := Raft s1\<rparr>) [] ?f"
    by (simp add: follows_def node_rel_def)
  from publish_follows [OF this 1(2)] have "follows codec N n f (f_chan f) nd' fx ?f" "offers fx = {}"
    by (simp_all add: 1(3) follows_def node_rel_def)
  with b show ?thesis by (auto simp: knows_def)
qed

lemma nodes_receive_failed:
  assumes rel: "node_rel N n nd (f_node f n)" and sim: "nodes_sim swf durable norm N a f"
    and run: "loop_step st codec ReceiveFailed nd = (Running, nd', fx)"
  shows "\<exists>b f'. nodes_sim swf durable norm N b f' \<and> ac_decided a \<subseteq> ac_decided b
    \<and> follows codec N n f (f_chan f) nd' fx f' \<and> knows norm b fx"
proof -
  have fx: "fx = []" and "nd' = nd \<or> nd' = nd\<lparr>n_receiver_alive := False\<rparr>"
    using run by (simp_all add: loop_step_def Let_def split: if_splits)
  then have "node_rel N n nd' (f_node f n)" using rel by (elim disjE) (simp_all add: node_rel_def)
  with fx show ?thesis using sim by (intro exI [of _ a] exI [of _ f]) (simp add: follows_silent knows_def)
qed

text \<open>The loss of a message.\<close>

lemma node_inv_lose:
  assumes fin: "finite N" and sim: "nodes_sim swf durable norm N a f" and rel: "crel codec N c f" and off: "offered_ok norm a c"
    and chan: "nc_chan c m n = ms @ data # rest" and c': "c' = c\<lparr>nc_chan := (nc_chan c)(m := (nc_chan c m)(n := ms @ rest))\<rparr>"
  shows "node_inv swf durable norm codec N c'"
proof -
  have "list_all2 (carried codec m) (ms @ data # rest) (f_chan f m n)" using rel chan by (metis crel_def)
  then obtain fms msg frest where f: "f_chan f m n = fms @ msg # frest" "list_all2 (carried codec m) ms fms" "list_all2 (carried codec m) rest frest"
    by (auto simp: list_all2_append1 list_all2_Cons1)
  let ?f = "f\<lparr>f_chan := (f_chan f)(m := (f_chan f m)(n := fms @ frest))\<rparr>"
  from adapted.fstep_refines [OF fstep.drop_message [OF f(1)] fin sim] obtain b where
    b: "nodes_sim swf durable norm N b ?f" "ac_decided a \<subseteq> ac_decided b" by blast
  have "crel codec N c' ?f" using rel f(2,3) by (auto simp: crel_def c' list_all2_appendI)
  moreover have "offered_ok norm b c'" using off b(2) by (auto simp: offered_ok_def c')
  ultimately show ?thesis using b(1) unfolding node_inv_def by blast
qed

lemma nstep_keeps_inv:
  fixes c :: "('v, 'ps, 's, 'b) ncluster"
  assumes step: "nstep st codec N c c'" and st: "st_raft st = pending_raft_storage ops" and codec: "codec_roundtrip codec"
    and fin: "finite N" and inv: "node_inv swf durable norm codec N c"
  shows "node_inv swf durable norm codec N c'"
proof -
  from inv obtain a f where a: "nodes_sim swf durable norm N a f" and rel: "crel codec N c f" and off: "offered_ok norm a c"
    by (auto simp: node_inv_def)
  have nrel: "node_rel N n (nc_node c n) (f_node f n)" if "n \<in> N" for n using rel that by (simp add: crel_def)
  from step show ?thesis
  proof cases
    case (submit n e sub nd fx)
    then have "handle_submission st codec e sub (nc_node c n) = (Continue, nd, fx)"
      by (cases "handle_submission st codec e sub (nc_node c n)") (simp add: loop_step_def)
    from node_inv_advance [OF rel off submit(2) nodes_submit [OF st codec fin submit(2) a nrel [OF submit(2)] this]]
    show ?thesis by (simp add: submit(1))
  next
    case (tick n e now nd fx)
    then have "handle_retries st codec e now (nc_node c n) = (Continue, nd, fx)"
      by (cases "handle_retries st codec e now (nc_node c n)") (simp add: loop_step_def)
    from node_inv_advance [OF rel off tick(2) nodes_tick [OF st codec fin tick(2) a nrel [OF tick(2)] tick(3) this]]
    show ?thesis by (simp add: tick(1))
  next
    case (receive_failed n nd fx)
    from node_inv_advance [OF rel off this(2) nodes_receive_failed [OF nrel [OF this(2)] a this(3)]] this(1)
    show ?thesis by simp
  next
    case (restart n s e cfg nd0 e' nd fx)
    then have "s = f_node f n" using nrel by (simp add: node_rel_def)
    from node_inv_advance [OF rel off restart(2) nodes_restart [OF st fin restart(2) a nrel [OF restart(2)] restart(4) [unfolded this] restart(5)]]
    show ?thesis by (simp add: restart(1))
  next
    case (receive m n data rest es nd fx)
    have "list_all2 (carried codec m) (data # rest) (f_chan f m n)" using rel receive(4) by (metis crel_def)
    then obtain msg frest where f: "f_chan f m n = msg # frest" "carried codec m data msg" "list_all2 (carried codec m) rest frest"
      by (auto simp: list_all2_Cons1)
    let ?chan = "(f_chan f)(m := (f_chan f m)(n := frest))"
    show ?thesis
    proof (cases "n_receiver_alive (nc_node c n)")
      case True
      with receive(5) have "handle_incoming_bytes st codec es data (nc_node c n) = (Continue, nd, fx)"
        by (cases "handle_incoming_bytes st codec es data (nc_node c n)") (simp add: loop_step_def)
      from nodes_receive [OF st codec fin receive(3,2) a nrel [OF receive(3)] f(1,2) this] obtain b f' where
        b: "nodes_sim swf durable norm N b f'" "ac_decided a \<subseteq> ac_decided b" "follows codec N n f ?chan nd fx f'" "knows norm b fx"
        by blast
      have "crel codec N c' f'"
        unfolding receive(1) by (rule crel_advance [OF rel receive(3) b(3)]) (use rel f(3) in \<open>auto simp: crel_def\<close>)
      moreover have "offered_ok norm b c'" unfolding receive(1) by (rule offered_advance(1) [OF off b(2,4)])
      ultimately show ?thesis using b(1) unfolding node_inv_def by blast
    next
      case False
      with receive(5) have "nd = nc_node c n" "fx = []" by (simp_all add: loop_step_def)
      then have "c' = c\<lparr>nc_chan := (nc_chan c)(m := (nc_chan c m)(n := [] @ rest))\<rparr>"
        by (simp add: receive(1) advance_def transmit_def fun_eq_iff)
      from node_inv_lose [OF fin a rel off _ this] receive(4) show ?thesis by simp
    qed
  next
    case (lose m n ms data rest)
    from node_inv_lose [OF fin a rel off lose(2) lose(1)] show ?thesis .
  qed
qed

lemma node_inv_init:
  fixes c :: "('v, 'ps, 's, 'b) ncluster"
  assumes init: "ncluster_init swf durable N c" and fin: "finite N"
  shows "node_inv swf durable norm codec N c"
proof -
  let ?dur = "\<lambda>s. wrap_durable (durable s)"
  have "\<exists>s. fresh_node swf ?dur N n s \<and> node_rel N n (nc_node c n) s" if "n \<in> N" for n
  proof -
    from init that obtain e cfg peers st0 where i: "raft_with_id_inner e n cfg peers st0 = Some (nc_node c n)"
        "distinct peers" "set peers = N - {n}" "swf st0" "durable st0 = durable_empty"
      unfolding ncluster_init_def by blast
    from raft_with_id_inner_rel [OF i(1-3) fin that] obtain s where "raft_new e n (card N) cfg st0 = Some s" "node_rel N n (nc_node c n) s"
      by blast
    moreover have "?dur st0 = durable_empty" using i(5) by (simp add: wrap_durable_def durable_empty_def wrap_log_entries_def fun_eq_iff)
    ultimately show ?thesis using i(4) unfolding fresh_node_def by blast
  qed
  then obtain node where node: "\<And>n. n \<in> N \<Longrightarrow> fresh_node swf ?dur N n (node n) \<and> node_rel N n (nc_node c n) (node n)" by metis
  let ?f = "\<lparr>f_node = node, f_chan = \<lambda>_ _. []\<rparr>"
  have "fcluster_init swf ?dur N ?f" using node by (simp add: fcluster_init_def)
  from adapted.fcluster_refines [OF this rtranclp.rtrancl_refl fin] obtain a where "nodes_sim swf durable norm N a ?f" by blast
  moreover have "crel codec N c ?f" using node init by (simp add: crel_def ncluster_init_def)
  moreover have "offered_ok norm a c" using init by (simp add: offered_ok_def ncluster_init_def)
  ultimately show ?thesis unfolding node_inv_def by blast
qed

lemma nodes_agree:
  fixes c0 :: "('v, 'ps, 's, 'b) ncluster"
  assumes init: "ncluster_init swf durable N c0" and run: "(nstep st codec N)\<^sup>*\<^sup>* c0 c" and fin: "finite N"
    and st: "st_raft st = pending_raft_storage ops" and codec: "codec_roundtrip codec"
    and "(n, Decided slot v) \<in> nc_offered c" and "(m, Decided slot w) \<in> nc_offered c"
  shows "norm v = norm w"
proof -
  from run have "node_inv swf durable norm codec N c"
    by (induction rule: rtranclp_induct) (use node_inv_init [OF init fin] nstep_keeps_inv [OF _ st codec fin] in blast)+
  then obtain a f where a: "nodes_sim swf durable norm N a f" and "offered_ok norm a c" by (auto simp: node_inv_def)
  with assms(6,7) have "(slot, recovered (norm v)) \<in> ac_decided a" "(slot, recovered (norm w)) \<in> ac_decided a"
    by (fastforce simp: offered_ok_def)+
  moreover have "full_inv N a" by (rule areach_full [OF _ fin]) (use a in \<open>simp add: fsim_def\<close>)
  ultimately have "recovered (norm v) = recovered (norm w)" by (metis abstract_state_machine_safety)
  then show ?thesis by (simp add: recovered_def)
qed

end

section \<open>Executing events\<close>

lemma offers_code [code]:
  "offers fx = set (concat (map (\<lambda>x. case x of Offered d \<Rightarrow> [d] | _ \<Rightarrow> []) fx))"
  by (force simp: offers_def split: effect.splits)

datatype 'v nevent =
    Submit_At node_id env "'v submission"
  | Tick_At node_id env nat
  | Arrive_At node_id node_id "nat \<Rightarrow> env"
  | Start node_id env raft_config env

definition still_running ::
  "node_id \<Rightarrow> finish \<times> ('v, 'ps, 'rs) node \<times> ('v, 'b) effect list \<Rightarrow> ('v, 'ps, 'rs, 'b) ncluster
   \<Rightarrow> ('v, 'ps, 'rs, 'b) ncluster option" where
  "still_running n r c = (case r of (fin, nd, fx) \<Rightarrow> if fin = Running then Some (advance n nd fx c) else None)"

fun nexec ::
  "('v pending, 'ps, 'rs) storages \<Rightarrow> ('v pending, 'b) codec \<Rightarrow> node_id set \<Rightarrow> 'v nevent
   \<Rightarrow> ('v, 'ps, 'rs, 'b) ncluster \<Rightarrow> ('v, 'ps, 'rs, 'b) ncluster option" where
  "nexec st codec N (Submit_At n e sub) c =
     (if n \<in> N then still_running n (loop_step st codec (Submitted e sub) (nc_node c n)) c else None)"
| "nexec st codec N (Tick_At n e now) c =
     (if n \<in> N \<and> node_term (nc_node c n) < u64_max
      then still_running n (loop_step st codec (TickDue e now) (nc_node c n)) c else None)"
| "nexec st codec N (Arrive_At m n es) c =
     (if m \<in> N \<and> n \<in> N then
        (case nc_chan c m n of [] \<Rightarrow> None
         | data # rest \<Rightarrow> still_running n (loop_step st codec (Received es data) (nc_node c n))
             (c\<lparr>nc_chan := (nc_chan c)(m := (nc_chan c m)(n := rest))\<rparr>))
      else None)"
| "nexec st codec N (Start n e cfg e') c =
     (if n \<in> N then
        (case n_protocol (nc_node c n) of
           Paxos _ \<Rightarrow> None
         | Raft s \<Rightarrow>
             (case raft_with_id_inner e n cfg (n_peers (nc_node c n)) (r_storage s) of
                None \<Rightarrow> None
              | Some nd0 \<Rightarrow> still_running n (node_run st codec e' [] nd0) c))
      else None)"

fun nexecs ::
  "('v pending, 'ps, 'rs) storages \<Rightarrow> ('v pending, 'b) codec \<Rightarrow> node_id set \<Rightarrow> 'v nevent list
   \<Rightarrow> ('v, 'ps, 'rs, 'b) ncluster \<Rightarrow> ('v, 'ps, 'rs, 'b) ncluster option" where
  "nexecs st codec N [] c = Some c"
| "nexecs st codec N (ev # evs) c = Option.bind (nexec st codec N ev c) (nexecs st codec N evs)"

lemma nexec_step: "nexec st codec N ev c = Some c' \<Longrightarrow> nstep st codec N c c'"
  by (cases ev)
     (auto simp: still_running_def split: if_splits list.splits option.splits prod.splits protocol_impl.splits
        intro: nstep.intros)

lemma nexecs_steps: "nexecs st codec N evs c = Some c' \<Longrightarrow> (nstep st codec N)\<^sup>*\<^sup>* c c'"
  by (induction evs arbitrary: c)
     (auto simp: bind_eq_Some_conv intro: converse_rtranclp_into_rtranclp nexec_step)

section \<open>A run of three nodes\<close>

text \<open>
  Three nodes start, \<open>a\<close> is elected by \<open>b\<close>, takes a submission and replicates it to \<open>b\<close>; both deliver
  it to their subscribers.
\<close>

definition ncluster0 :: "(nat, nat paxos_memory_storage, nat raft_memory_storage, nat pending message) ncluster" where
  "ncluster0 = \<lparr>nc_node = (\<lambda>n. the (raft_with_id_inner env0 n cfg0 (filter (\<lambda>m. m \<noteq> n) [n1, n2, n3]) raft_memory_storage_new)),
     nc_chan = (\<lambda>_ _. []), nc_offered = {}\<rparr>"

definition nrun1 :: "nat nevent list" where
  "nrun1 = [Start n1 env0 cfg0 env0, Start n2 env0 cfg0 env0, Start n3 env0 cfg0 env0, Tick_At n1 env0 0,
     Arrive_At n1 n2 (\<lambda>_. env0), Arrive_At n2 n1 (\<lambda>_. env0), Submit_At n1 env0 (Submission (Pending 5 7) 42),
     Arrive_At n1 n2 (\<lambda>_. env0), Arrive_At n2 n1 (\<lambda>_. env0), Arrive_At n1 n2 (\<lambda>_. env0), Arrive_At n2 n1 (\<lambda>_. env0),
     Tick_At n1 env0 0, Arrive_At n1 n2 (\<lambda>_. env0)]"

lemma nrun1_eval:
  "map_option (\<lambda>c. (n1, Decided 0 7) \<in> nc_offered c \<and> (n2, Decided 0 7) \<in> nc_offered c)
     (nexecs memory_storages plain_codec trio nrun1 ncluster0) = Some True"
  by code_simp

definition ncluster1 :: "(nat, nat paxos_memory_storage, nat raft_memory_storage, nat pending message) ncluster" where
  "ncluster1 = the (nexecs memory_storages plain_codec trio nrun1 ncluster0)"

lemma nrun1_exec: "nexecs memory_storages plain_codec trio nrun1 ncluster0 = Some ncluster1"
  using nrun1_eval unfolding ncluster1_def by (cases "nexecs memory_storages plain_codec trio nrun1 ncluster0") simp_all

lemma nrun1_steps: "(nstep memory_storages plain_codec trio)\<^sup>*\<^sup>* ncluster0 ncluster1"
  by (rule nexecs_steps [OF nrun1_exec])

lemma nrun1_offered: "(n1, Decided 0 7) \<in> nc_offered ncluster1" "(n2, Decided 0 7) \<in> nc_offered ncluster1"
  using nrun1_eval unfolding nrun1_exec by simp_all

lemma ncluster0_init: "ncluster_init rm_wf rm_durable trio ncluster0"
proof -
  have "raft_with_id_inner env0 n cfg0 peers raft_memory_storage_new \<noteq> (None :: (nat, nat paxos_memory_storage, nat raft_memory_storage) node option)" for n peers
    by (simp add: raft_with_id_inner_def raft_new_def cfg0_def raft_config_validate_def)
  then have "raft_with_id_inner env0 n cfg0 (filter (\<lambda>m. m \<noteq> n) [n1, n2, n3]) raft_memory_storage_new = Some (nc_node ncluster0 n)" for n
    by (simp add: ncluster0_def)
  moreover have "distinct (filter (\<lambda>m. m \<noteq> n) [n1, n2, n3])" "set (filter (\<lambda>m. m \<noteq> n) [n1, n2, n3]) = trio - {n}" for n
    by (simp_all add: n1_def n2_def n3_def trio_def) auto
  moreover have "rm_wf raft_memory_storage_new" "rm_durable raft_memory_storage_new = durable_empty"
    by (simp_all add: rm_wf_def rm_durable_def durable_empty_def raft_memory_storage_new_def hm_wf_def hm_get_def fun_eq_iff)
  ultimately have "\<forall>n\<in>trio. \<exists>e cfg peers st0. raft_with_id_inner e n cfg peers st0 = Some (nc_node ncluster0 n)
      \<and> distinct peers \<and> set peers = trio - {n} \<and> rm_wf st0 \<and> rm_durable st0 = durable_empty" by blast
  then show ?thesis unfolding ncluster_init_def by (simp add: ncluster0_def)
qed

lemma plain_codec_roundtrip: "codec_roundtrip plain_codec"
  by (simp add: codec_roundtrip_def plain_codec_def)

end
