(* ===== verification/PaxosRecovery.thy ===== *)
theory PaxosRecovery
  imports PaxosProps
begin

text \<open>
  Two recoveries of a Paxos node of \<open>daccord/src/protocol/paxos.rs\<close>: of its decisions from storage
  after a restart, and of the values accepted in earlier terms after a leader election.
\<close>

section \<open>Recovery\<close>

context paxos_storage_contract
begin

lemma paxos_save_decisions:
  assumes "swf st" and "save_decisions (ps_save_decision ops) ds st = (Ok u, st')"
  shows "swf st' \<and> decided st' = decided st ++ map_of (rev (map (\<lambda>d. (d_slot d, norm (d_value d))) ds))"
  using assms
proof (induction ds arbitrary: st)
  case (Cons d ds)
  then obtain st1 where 1: "ps_save_decision ops (d_slot d) (d_value d) st = (Ok (), st1)"
      "save_decisions (ps_save_decision ops) ds st1 = (Ok u, st')"
    by (auto split: prod.splits result.splits)
  from ps_save [OF Cons.prems(1) 1(1)] Cons.IH [OF _ 1(2)] show ?case by (simp add: fun_eq_iff map_add_def split: option.split)
qed simp

end

lemma map_of_rev_distinct: "distinct (map fst xs) \<Longrightarrow> map_of (rev xs) = map_of xs"
  by (subst map_of_inject_set) (simp_all add: rev_map [symmetric])

lemma learned_norm: "map_of (map (\<lambda>d. (d_slot d, f (d_value d))) ds) = (\<lambda>slot. map_option f (learned ds slot))"
  by (induction ds) auto

lemma initialize_decided:
  "hm_get (p_decided_slots (initialize_from_decisions ds s)) = hm_get (p_decided_slots s) ++ map_of (rev ds)"
  by (induction ds s rule: initialize_from_decisions.induct) (simp_all add: Let_def fun_eq_iff map_add_def split: option.split)

lemma initialize_frame:
  "p_instances (initialize_from_decisions ds s) = p_instances s"
  "p_pending_decisions (initialize_from_decisions ds s) = p_pending_decisions s"
  "p_election (initialize_from_decisions ds s) = p_election s" "p_storage (initialize_from_decisions ds s) = p_storage s"
  by (induction ds s rule: initialize_from_decisions.induct) (simp_all add: Let_def)

lemma initialize_next_slot:
  assumes "\<forall>d\<in>set ds. fst d < u64_max"
  shows "p_next_slot s \<le> p_next_slot (initialize_from_decisions ds s)
    \<and> (\<forall>d\<in>set ds. fst d < p_next_slot (initialize_from_decisions ds s))"
  using assms
proof (induction ds s rule: initialize_from_decisions.induct)
  case (2 slot v rest s)
  let ?s1 = "let s1 = s\<lparr>p_decided_slots := hm_insert slot v (p_decided_slots s)\<rparr>
        in if slot \<ge> p_next_slot s1 then s1\<lparr>p_next_slot := u64_add slot 1\<rparr> else s1"
  have "p_next_slot s \<le> p_next_slot ?s1" "slot < p_next_slot ?s1" using 2(2) by (auto simp: Let_def)
  with 2 show ?case by auto
qed simp

lemma initialize_hm_wf: "hm_wf (p_decided_slots s) \<Longrightarrow> hm_wf (p_decided_slots (initialize_from_decisions ds s))"
  by (induction ds s rule: initialize_from_decisions.induct) (simp_all add: Let_def)

context paxos_storage_contract
begin

lemma restart_decided:
  assumes "swf (p_storage s)" and "paxos_drain_decisions ops s = (Ok ds, s1)"
    and "paxos_recover ops (paxos_new_with_config mp e n k cfg (p_storage s1)) = (Ok (), s2)"
    and "distinct (map d_slot (p_pending_decisions s))"
    and "\<And>slot. slot \<in> dom (decided (p_storage s)) \<Longrightarrow> slot < u64_max" "\<And>d. d \<in> set (p_pending_decisions s) \<Longrightarrow> d_slot d < u64_max"
  shows "ds = p_pending_decisions s \<and> paxos_wf s2 \<and> p_pending_decisions s2 = []
    \<and> hm_get (p_decided_slots s2) = decided (p_storage s) ++ (\<lambda>slot. map_option norm (learned ds slot))"
proof -
  obtain u st where st: "save_decisions (ps_save_decision ops) (p_pending_decisions s) (p_storage s) = (Ok u, st)"
      "ds = p_pending_decisions s" "s1 = s\<lparr>p_pending_decisions := [], p_storage := st\<rparr>"
    using assms(2) by (auto simp: paxos_drain_decisions_def paxos_take_decisions_def Let_def split: prod.splits result.splits)
  let ?kv = "map (\<lambda>d. (d_slot d, norm (d_value d))) (p_pending_decisions s)"
  have dec: "swf st" "decided st = decided (p_storage s) ++ map_of (rev ?kv)"
    using paxos_save_decisions [OF assms(1) st(1)] by simp_all
  have kv: "map_of (rev ?kv) = (\<lambda>slot. map_option norm (learned ds slot))"
    using assms(4) learned_norm [of norm] by (simp add: st(2) map_of_rev_distinct comp_def)
  obtain xs where xs: "ps_load_decisions ops st = Ok xs" "s2 = initialize_from_decisions xs (paxos_new_with_config mp e n k cfg st)"
    using assms(3) by (auto simp: paxos_recover_def st(3) paxos_new_with_config_def split: result.splits)
  have load: "map_of xs = decided st" "distinct (map fst xs)" using ps_load [OF dec(1) xs(1)] by simp_all
  have small: "\<forall>d\<in>set xs. fst d < u64_max"
  proof
    fix d assume "d \<in> set xs"
    then have "fst d \<in> dom (decided st)" using load(1) by (metis dom_map_of_conv_image_fst image_eqI)
    also have "\<dots> = d_slot ` set (p_pending_decisions s) \<union> dom (decided (p_storage s))"
      unfolding dec(2) kv st(2) learned_dom [symmetric] by (auto simp: dom_def map_add_def split: option.splits)
    finally show "fst d < u64_max" using assms(5,6) by auto
  qed
  have decs: "hm_get (p_decided_slots s2) = decided st"
    by (simp add: xs(2) initialize_decided map_of_rev_distinct [OF load(2)] load(1) paxos_new_with_config_def fun_eq_iff map_add_def
        split: option.split)
  have "slot < p_next_slot s2" if "decided st slot = Some v" for slot v
  proof -
    have "(slot, v) \<in> set xs" using that unfolding load(1) [symmetric] by (rule map_of_SomeD)
    with initialize_next_slot [OF small] show ?thesis unfolding xs(2) by fastforce
  qed
  then have "paxos_wf s2"
    using decs by (simp add: paxos_wf_def) (simp add: xs(2) initialize_frame initialize_hm_wf paxos_new_with_config_def)
  then show ?thesis
    using decs st(2) by (simp add: dec(2) kv) (simp add: xs(2) initialize_frame paxos_new_with_config_def)
qed

end

text \<open>
  C27. Restart: when the pending decisions have been drained, a node created anew over the same
  storage recovers exactly the stored decisions and the drained ones, as the storage keeps them; it
  meets the node's invariant - in particular it proposes only past them - and announces none again.
\<close>

theorem paxos_restart_recovers:
  assumes "paxos_storage_contract ops swf decided norm" and "swf (p_storage s)" and "paxos_drain_decisions ops s = (Ok ds, s1)"
    and "paxos_recover ops (paxos_new_with_config mp e n k cfg (p_storage s1)) = (Ok (), s2)"
    and "distinct (map d_slot (p_pending_decisions s))"
    and "\<And>slot. slot \<in> dom (decided (p_storage s)) \<Longrightarrow> slot < u64_max" and "\<And>d. d \<in> set (p_pending_decisions s) \<Longrightarrow> d_slot d < u64_max"
  shows "ds = p_pending_decisions s \<and> paxos_wf s2 \<and> p_pending_decisions s2 = []
    \<and> hm_get (p_decided_slots s2) = decided (p_storage s) ++ (\<lambda>slot. map_option norm (learned ds slot))"
  by (rule paxos_storage_contract.restart_decided [OF assms])

definition paxos_decided4 :: "(nat, nat paxos_memory_storage) paxos_protocol" where
  "paxos_decided4 = handle_decide penv pn2 4 5 paxos0"

theorem paxos_restart_recovers_witness:
  "\<exists>s1 s2. paxos_drain_decisions paxos_memory_ops paxos_decided4 = (Ok [Decision 4 5], s1)
     \<and> paxos_recover paxos_memory_ops (paxos_new_with_config False penv pn1 3 paxos_config_default (p_storage s1)) = (Ok (), s2)
     \<and> paxos_wf s2 \<and> hm_get (p_decided_slots s2) 4 = Some 5"
proof -
  have dec: "p_pending_decisions paxos_decided4 = [Decision 4 5]" "pm_decisions (p_storage paxos_decided4) = []"
    by code_simp+
  have drain: "paxos_drain_decisions paxos_memory_ops paxos_decided4 =
      (Ok [Decision 4 5], snd (paxos_drain_decisions paxos_memory_ops paxos_decided4))" (is "_ = (_, ?s1)")
    by (simp add: paxos_drain_decisions_def paxos_take_decisions_def dec paxos_memory_ops_def pm_save_decision_def)
  have recover: "paxos_recover paxos_memory_ops (paxos_new_with_config False penv pn1 3 paxos_config_default (p_storage ?s1)) =
      (Ok (), snd (paxos_recover paxos_memory_ops (paxos_new_with_config False penv pn1 3 paxos_config_default (p_storage ?s1))))"
      (is "_ = (_, ?s2)")
    by (simp add: paxos_recover_def paxos_memory_ops_def pm_load_decisions_def)
  have "pm_wf (p_storage paxos_decided4)" by (simp add: dec pm_wf_def)
  from paxos_restart_recovers [OF paxos_memory.paxos_storage_contract_axioms this drain recover]
  have "paxos_wf ?s2 \<and> hm_get (p_decided_slots ?s2) 4 = Some 5"
    by (simp add: dec u64_max_def dom_def)
  with drain recover show ?thesis by blast
qed

section \<open>Leader election\<close>

definition reported :: "u64 \<Rightarrow> (u64 \<times> proposal_number \<times> 'v) list \<Rightarrow> (proposal_number \<times> 'v) set" where
  "reported slot xs = {x. (slot, x) \<in> set xs}"

lemma highest_per_slot_get:
  assumes "hm_get dec slot = None" and "is_highest A (hm_get m slot)"
  shows "is_highest (A \<union> reported slot xs) (hm_get (highest_per_slot dec xs m) slot)"
  using assms(2)
proof (induction xs arbitrary: A m)
  case (Cons x xs)
  obtain sl pn v where x: "x = (sl, pn, v)" by (cases x) auto
  let ?m = "if hm_contains dec sl then m
        else case hm_get m sl of
            Some (existing_pn, _) \<Rightarrow> (if pn \<le> existing_pn then m else hm_insert sl (pn, v) m)
          | None \<Rightarrow> hm_insert sl (pn, v) m"
  show ?case
  proof (cases "sl = slot")
    case False
    then have "hm_get ?m slot = hm_get m slot" by (simp split: option.split)
    with False x Cons.IH [of A ?m] Cons.prems show ?thesis by (simp add: reported_def)
  next
    case True
    then have "hm_get ?m slot = (if (case map_option fst (hm_get m slot) of None \<Rightarrow> True | Some k \<Rightarrow> k < pn) then Some (pn, v) else hm_get m slot)"
      using assms(1) by (auto simp: hm_contains_def not_le simp del: less_eq_prod_simp less_prod_simp split: option.split)
    then have "is_highest (insert (pn, v) A) (hm_get ?m slot)" using is_highest_step [OF Cons.prems] by simp
    moreover have "insert (pn, v) A \<union> reported slot xs = A \<union> reported slot (x # xs)" using True x by (auto simp: reported_def)
    ultimately show ?thesis using Cons.IH [of "insert (pn, v) A" ?m] x by simp
  qed
qed (simp add: reported_def)

lemma highest_per_slot_undecided:
  "hm_contains (highest_per_slot dec xs m) slot \<Longrightarrow> hm_contains m slot \<or> hm_get dec slot = None"
  by (induction dec xs m rule: highest_per_slot.induct) (auto simp: hm_contains_def split: if_splits option.splits)

lemma highest_per_slot_wf: "hm_wf m \<Longrightarrow> hm_wf (highest_per_slot dec xs m)"
  by (induction dec xs m rule: highest_per_slot.induct) (auto split: option.splits)

lemma replay_accepts_outs:
  assumes "2 \<le> p_quorum_size s" and "distinct (map fst xs)" and "\<forall>x\<in>set xs. hm_get (p_decided_slots s) (fst x) = None"
  shows "snd (replay_accepts e pn xs s) = map (\<lambda>(slot, v). Outgoing Broadcast (Accept slot pn v)) xs
    \<and> p_leader_state (fst (replay_accepts e pn xs s)) = p_leader_state s
    \<and> p_next_slot (fst (replay_accepts e pn xs s)) = p_next_slot s"
  using assms
proof (induction xs arbitrary: s)
  case (Cons x xs)
  obtain slot v where x: "x = (slot, v)" by fastforce
  let ?s1 = "set_instance slot (fast_round e (p_node_id s) pn v {} {} (instance_at slot s)) s"
  have "replay_accept e slot pn v s = (?s1, [Outgoing Broadcast (Accept slot pn v)])"
    using Cons.prems x by (simp add: replay_accept_eq vote_round_def hm_contains_def fast_round_def Let_def set_instance_def)
  with Cons.IH [of ?s1] Cons.prems x show ?case by (simp add: set_instance_def split_beta)
qed simp

text \<open>
  C28. Log recovery after an election: a candidate of a cluster of at least two nodes that completes
  its election becomes the leader of its term and proposes again, under its new number, exactly one
  value for every undecided slot that a promise reported - the one accepted under the highest number
  reported for it - and continues with slots past all of them.
\<close>

theorem paxos_election_recovers:
  assumes "p_election s = Some el" and "2 \<le> p_quorum_size s" and "complete_leader_election e s = (s', outs)"
    and "election_ok (p_election s)"
  shows "p_leader_state s' = PLeader (fst (el_proposal_number el))
    \<and> (\<exists>chosen. outs = map (\<lambda>(slot, v). Outgoing Broadcast (Accept slot (el_proposal_number el) v)) chosen
         \<and> distinct (map fst chosen)
         \<and> fst ` set chosen = {slot. hm_get (p_decided_slots s) slot = None \<and> reported slot (el_accepted el) \<noteq> {}}
         \<and> (\<forall>(slot, v)\<in>set chosen. slot < p_next_slot s'
              \<and> (\<exists>pn. is_highest (reported slot (el_accepted el)) (Some (pn, v)))))"
proof -
  let ?h = "highest_per_slot (p_decided_slots s) (el_accepted el) []"
  let ?chosen = "map (\<lambda>(slot, (_, val)). (slot, val)) ?h"
  let ?s1 = "s\<lparr>p_election := None, p_election_started_at := None\<rparr>"
  let ?s2 = "advance_next_slot (list_max (hm_keys ?h)) ?s1"
  let ?s3 = "advance_next_slot (list_max (hm_keys (p_instances ?s2))) ?s2"
  let ?s4 = "paxos_become_leader (fst (el_proposal_number el)) ?s3"
  have r: "replay_accepts e (el_proposal_number el) ?chosen ?s4 = (s', outs)"
    using assms(1,3) by (simp add: complete_leader_election_def Let_def)
  have wf: "hm_wf ?h" by (rule highest_per_slot_wf) simp
  have keys: "map fst ?chosen = hm_keys ?h" by (simp add: hm_keys_def comp_def split_beta)
  have get: "is_highest (reported slot (el_accepted el)) (hm_get ?h slot)" if "hm_get (p_decided_slots s) slot = None" for slot
    using highest_per_slot_get [OF that, of "{}" "[]" "el_accepted el"] by (simp add: is_highest_def)
  have und: "hm_get (p_decided_slots s) slot = None" if "hm_contains ?h slot" for slot
    using highest_per_slot_undecided [OF that] by simp
  have frame: "p_quorum_size ?s4 = p_quorum_size s" "p_decided_slots ?s4 = p_decided_slots s"
    "p_leader_state ?s4 = PLeader (fst (el_proposal_number el))"
    by (simp_all add: paxos_become_leader_def advance_next_slot_def split: option.split)
  have q: "2 \<le> p_quorum_size ?s4" "distinct (map fst ?chosen)" 
    using assms(2) wf unfolding keys frame by (simp_all add: hm_wf_def hm_keys_def)
  have keys': "fst x \<in> set (hm_keys ?h)" if "x \<in> set ?chosen" for x using that by (force simp: hm_keys_def)
  with und have "\<forall>x\<in>set ?chosen. hm_get (p_decided_slots ?s4) (fst x) = None" by (simp add: frame hm_keys_contains)
  from replay_accepts_outs [OF q this, of e "el_proposal_number el"]
  have out: "outs = map (\<lambda>(slot, v). Outgoing Broadcast (Accept slot (el_proposal_number el) v)) ?chosen"
    "p_leader_state s' = PLeader (fst (el_proposal_number el))" "p_next_slot s' = p_next_slot ?s4"
    unfolding r by (simp_all add: frame)
  have dom: "hm_contains ?h slot \<longleftrightarrow> hm_get (p_decided_slots s) slot = None \<and> reported slot (el_accepted el) \<noteq> {}" for slot
    using get [of slot] und [of slot] by (auto simp: hm_contains_def is_highest_def split: option.splits)
  have past: "slot < p_next_slot s'" if slot: "slot \<in> set (hm_keys ?h)" for slot
  proof -
    from slot obtain m where m: "list_max (hm_keys ?h) = Some m" "slot \<le> m" "m \<in> set (hm_keys ?h)"
      using list_max_Some [of "hm_keys ?h"] by (cases "list_max (hm_keys ?h)") auto
    have "m < u64_max"
      using m(3) dom [of m] assms(1,4) by (auto simp: hm_keys_contains election_ok_def reported_def)
    then have "m < p_next_slot ?s2" by (simp add: m(1) advance_next_slot_def)
    also have "\<dots> \<le> p_next_slot ?s4" by (simp add: paxos_become_leader_def advance_next_slot_def split: option.split)
    finally show ?thesis using m(2) out(3) by simp
  qed
  have "\<exists>pn. is_highest (reported slot (el_accepted el)) (Some (pn, v))" if "(slot, v) \<in> set ?chosen" for slot v
  proof -
    from that obtain pn where "(slot, pn, v) \<in> set ?h" by auto
    then have "hm_get ?h slot = Some (pn, v)" using hm_in_set [OF wf] by blast
    with get [of slot] und [of slot] show ?thesis by (intro exI [of _ pn]) (auto simp: hm_contains_def)
  qed
  moreover have "fst ` set ?chosen = {slot. hm_get (p_decided_slots s) slot = None \<and> reported slot (el_accepted el) \<noteq> {}}"
    using dom keys by (auto simp: hm_keys_contains [symmetric] simp flip: set_map)
  ultimately show ?thesis
    using out q(2) past keys' by (intro conjI exI [of _ ?chosen]) (force+)
qed

definition paxos_candidate :: "(nat, nat paxos_memory_storage) paxos_protocol" where
  "paxos_candidate = paxos0\<lparr>p_multi_paxos := True,
     p_election := Some \<lparr>el_proposal_number = (3, pn1), el_since_slot = 0, el_promises_received = {pn1, pn2},
       el_accepted = [(0, (1, pn2), 5), (0, (2, pn3), 6)]\<rparr>\<rparr>"

theorem paxos_election_recovers_witness:
  "p_leader_state (fst (complete_leader_election penv paxos_candidate)) = PLeader 3
   \<and> snd (complete_leader_election penv paxos_candidate) = [Outgoing Broadcast (Accept 0 (3, pn1) 6)]"
proof
  have "election_ok (p_election paxos_candidate)"
    by (simp add: election_ok_def paxos_candidate_def u64_max_def)
  then show "p_leader_state (fst (complete_leader_election penv paxos_candidate)) = PLeader 3"
    using paxos_election_recovers [of paxos_candidate _ penv, OF _ _ prod.collapse [symmetric]]
    by (simp add: paxos_candidate_def)
  show "snd (complete_leader_election penv paxos_candidate) = [Outgoing Broadcast (Accept 0 (3, pn1) 6)]"
    by code_simp
qed

end
