(* ===== verification/PaxosSpec.thy ===== *)
theory PaxosSpec
  imports Prelude
begin

text \<open>
  The abstract specification of agreement on one slot: voters promise ever higher ballots, a ballot
  is given a value that is safe for it, and voters vote for values given to ballots not below their
  promise. In every reachable state at most one value is chosen, over any family of quorums that
  pairwise meet. \<open>PaxosCluster\<close> shows when the nodes of \<open>PaxosProtocol\<close> implement it.
\<close>

section \<open>States and steps\<close>

record ('n, 'b, 'v) ballots =
  b_promised :: "'n \<Rightarrow> 'b option"
  b_votes :: "('n \<times> 'b \<times> 'v) set"
  b_proposed :: "('b \<times> 'v) set"

definition ballots_init :: "('n, 'b, 'v) ballots" where
  "ballots_init = \<lparr>b_promised = (\<lambda>_. None), b_votes = {}, b_proposed = {}\<rparr>"

definition up_to :: "'b::linorder option \<Rightarrow> 'b \<Rightarrow> bool" where
  "up_to p b = (case p of None \<Rightarrow> True | Some m \<Rightarrow> m \<le> b)"

definition chosen :: "('n set \<Rightarrow> bool) \<Rightarrow> ('n, 'b, 'v) ballots \<Rightarrow> 'b \<Rightarrow> 'v \<Rightarrow> bool" where
  "chosen quorum a b v \<longleftrightarrow> (\<exists>Q. quorum Q \<and> (\<forall>n\<in>Q. (n, b, v) \<in> b_votes a))"

text \<open>A quorum that has voted for the value, or whose promises still allow it to.\<close>

definition choosable :: "('n set \<Rightarrow> bool) \<Rightarrow> ('n, 'b::linorder, 'v) ballots \<Rightarrow> 'b \<Rightarrow> 'v \<Rightarrow> bool" where
  "choosable quorum a b v \<longleftrightarrow> (\<exists>Q. quorum Q \<and> (\<forall>n\<in>Q. (n, b, v) \<in> b_votes a \<or> up_to (b_promised a n) b))"

definition safe_at :: "('n set \<Rightarrow> bool) \<Rightarrow> ('n, 'b::linorder, 'v) ballots \<Rightarrow> 'b \<Rightarrow> 'v \<Rightarrow> bool" where
  "safe_at quorum a b v \<longleftrightarrow> (\<forall>b0 v0. b0 < b \<longrightarrow> v0 \<noteq> v \<longrightarrow> \<not> choosable quorum a b0 v0)"

inductive bstep :: "('n set \<Rightarrow> bool) \<Rightarrow> ('n, 'b::linorder, 'v) ballots \<Rightarrow> ('n, 'b, 'v) ballots \<Rightarrow> bool"
  for quorum :: "'n set \<Rightarrow> bool"
where
  promise: "up_to (b_promised a n) b \<Longrightarrow> bstep quorum a (a\<lparr>b_promised := (b_promised a)(n := Some b)\<rparr>)"
| propose: "safe_at quorum a b v \<Longrightarrow> (\<And>w. (b, w) \<in> b_proposed a \<Longrightarrow> w = v) \<Longrightarrow>
    bstep quorum a (a\<lparr>b_proposed := insert (b, v) (b_proposed a)\<rparr>)"
| vote: "up_to (b_promised a n) b \<Longrightarrow> (b, v) \<in> b_proposed a \<Longrightarrow>
    bstep quorum a (a\<lparr>b_promised := (b_promised a)(n := Some b), b_votes := insert (n, b, v) (b_votes a)\<rparr>)"

definition breach :: "('n set \<Rightarrow> bool) \<Rightarrow> ('n, 'b::linorder, 'v) ballots \<Rightarrow> bool" where
  "breach quorum a \<longleftrightarrow> (bstep quorum)\<^sup>*\<^sup>* ballots_init a"

section \<open>The invariant\<close>

definition ballots_inv :: "('n set \<Rightarrow> bool) \<Rightarrow> ('n, 'b::linorder, 'v) ballots \<Rightarrow> bool" where
  "ballots_inv quorum a \<longleftrightarrow>
     (\<forall>n b v. (n, b, v) \<in> b_votes a \<longrightarrow> (b, v) \<in> b_proposed a \<and> (\<exists>m. b_promised a n = Some m \<and> b \<le> m))
     \<and> (\<forall>b v w. (b, v) \<in> b_proposed a \<longrightarrow> (b, w) \<in> b_proposed a \<longrightarrow> v = w)
     \<and> (\<forall>b v. (b, v) \<in> b_proposed a \<longrightarrow> safe_at quorum a b v)"

lemma ballots_invD:
  assumes "ballots_inv quorum a"
  shows "(n, b, v) \<in> b_votes a \<Longrightarrow> (b, v) \<in> b_proposed a" and "(n, b, v) \<in> b_votes a \<Longrightarrow> \<exists>m. b_promised a n = Some m \<and> b \<le> m"
    and "(b, v) \<in> b_proposed a \<Longrightarrow> (b, w) \<in> b_proposed a \<Longrightarrow> v = w" and "(b, v) \<in> b_proposed a \<Longrightarrow> safe_at quorum a b v"
  using assms unfolding ballots_inv_def by blast+

text \<open>What can be chosen only shrinks, so a safe value stays safe.\<close>

lemma choosable_step:
  assumes "bstep quorum a a'" and "choosable quorum a' b v"
  shows "choosable quorum a b v"
proof -
  from assms(1) have "(n, b, v) \<in> b_votes a \<or> up_to (b_promised a n) b"
    if "(n, b, v) \<in> b_votes a' \<or> up_to (b_promised a' n) b" for n
    by cases (use that in \<open>auto simp: up_to_def split: if_splits option.splits\<close>)
  with assms(2) show ?thesis unfolding choosable_def by blast
qed

lemma safe_at_step: "bstep quorum a a' \<Longrightarrow> safe_at quorum a b v \<Longrightarrow> safe_at quorum a' b v"
  by (meson choosable_step safe_at_def)

lemma bstep_inv:
  assumes step: "bstep quorum a a'" and inv: "ballots_inv quorum a"
  shows "ballots_inv quorum a'"
proof -
  note safe = safe_at_step [OF step]
  from step show ?thesis
  proof cases
    case (promise n b)
    with inv have "(\<exists>m. b_promised a' k = Some m \<and> b' \<le> m)" if "(k, b', v) \<in> b_votes a'" for k b' v
      using that ballots_invD(2) [OF inv, of k b' v] by (auto simp: up_to_def)
    with ballots_invD [OF inv] safe promise(1) show ?thesis unfolding ballots_inv_def by simp
  next
    case (propose b v)
    with ballots_invD [OF inv] safe show ?thesis unfolding ballots_inv_def by auto
  next
    case (vote n b v)
    with inv have "(\<exists>m. b_promised a' k = Some m \<and> b' \<le> m)" if "(k, b', w) \<in> b_votes a'" for k b' w
      using that ballots_invD(2) [OF inv, of k b' w] by (auto simp: up_to_def)
    moreover have "(b', w) \<in> b_proposed a'" if "(k, b', w) \<in> b_votes a'" for k b' w
      using that vote(1,3) ballots_invD(1) [OF inv, of k b' w] by auto
    moreover have "b_proposed a' = b_proposed a" using vote(1) by simp
    ultimately show ?thesis using ballots_invD(3,4) [OF inv] safe unfolding ballots_inv_def by metis
  qed
qed

lemma breach_inv:
  assumes "breach quorum a"
  shows "ballots_inv quorum a"
  using assms unfolding breach_def
proof (induction rule: rtranclp_induct)
  case base
  show ?case by (simp add: ballots_inv_def ballots_init_def)
qed (rule bstep_inv)

lemma breach_step: "breach quorum a \<Longrightarrow> bstep quorum a a' \<Longrightarrow> breach quorum a'"
  unfolding breach_def by (rule rtranclp.rtrancl_into_rtrancl)

lemma chosen_choosable: "chosen quorum a b v \<Longrightarrow> choosable quorum a b v"
  unfolding chosen_def choosable_def by blast

lemma chosen_mono: "chosen quorum a b v \<Longrightarrow> b_votes a \<subseteq> b_votes a' \<Longrightarrow> chosen quorum a' b v"
  unfolding chosen_def by blast

context quorum_system
begin

lemma chosen_proposed: "ballots_inv is_quorum a \<Longrightarrow> chosen is_quorum a b v \<Longrightarrow> (b, v) \<in> b_proposed a"
  unfolding chosen_def using quorum_not_empty ballots_invD(1) by fastforce

text \<open>A value given to a later ballot is the chosen one.\<close>

lemma later_value:
  assumes inv: "ballots_inv is_quorum a" and "chosen is_quorum a b v" and "(c, w) \<in> b_proposed a" and "b \<le> c"
  shows "w = v"
proof (cases "b = c")
  case True
  with assms(3) chosen_proposed [OF inv assms(2)] show ?thesis using ballots_invD(3) [OF inv] by metis
next
  case False
  with assms(4) have "b < c" by simp
  with ballots_invD(4) [OF inv assms(3)] chosen_choosable [OF assms(2)] show ?thesis unfolding safe_at_def by metis
qed

lemma at_most_one_chosen:
  assumes "breach is_quorum a" and "chosen is_quorum a b v" and "chosen is_quorum a c w"
  shows "v = w"
proof -
  note inv = breach_inv [OF assms(1)]
  note b = chosen_proposed [OF inv assms(2)] and c = chosen_proposed [OF inv assms(3)]
  show ?thesis
  proof (cases "b \<le> c")
    case True
    from later_value [OF inv assms(2) c True] show ?thesis by simp
  next
    case False
    then have "c \<le> b" by simp
    from later_value [OF inv assms(3) b this] show ?thesis .
  qed
qed

text \<open>
  How a proposer finds a safe value: a quorum has promised its ballot, and every vote such a voter
  had cast below it is matched, at the same or a higher ballot, by a proposal of the value.
\<close>

lemma safe_from_promises:
  assumes inv: "ballots_inv is_quorum a" and Q: "is_quorum Q"
    and promised: "\<And>n. n \<in> Q \<Longrightarrow> \<exists>m. b_promised a n = Some m \<and> b \<le> m"
    and reported: "\<And>n b0 v0. n \<in> Q \<Longrightarrow> (n, b0, v0) \<in> b_votes a \<Longrightarrow> b0 < b \<Longrightarrow> \<exists>c. b0 \<le> c \<and> (c, v) \<in> b_proposed a"
  shows "safe_at is_quorum a b v"
  unfolding safe_at_def
proof (intro allI impI notI)
  fix b0 v0 assume b0: "b0 < b" "v0 \<noteq> v" and "choosable is_quorum a b0 v0"
  then obtain R where R: "is_quorum R" "\<And>n. n \<in> R \<Longrightarrow> (n, b0, v0) \<in> b_votes a \<or> up_to (b_promised a n) b0"
    unfolding choosable_def by blast
  from quorum_common_member [OF Q R(1)] obtain n where n: "n \<in> Q" "n \<in> R" by blast
  with promised b0(1) have "\<not> up_to (b_promised a n) b0" by (fastforce simp: up_to_def)
  with R(2) n have vote: "(n, b0, v0) \<in> b_votes a" by blast
  with reported [OF n(1) _ b0(1)] obtain c where c: "b0 \<le> c" "(c, v) \<in> b_proposed a" by blast
  show False
  proof (cases "b0 = c")
    case True
    with ballots_invD(3) [OF inv c(2)] ballots_invD(1) [OF inv vote] b0(2) show False by metis
  next
    case False
    with c(1) have "b0 < c" by simp
    with ballots_invD(4) [OF inv c(2)] b0(2) \<open>choosable is_quorum a b0 v0\<close> show False unfolding safe_at_def by metis
  qed
qed

end

end
