(* ===== verification/PaxosCluster.thy ===== *)
theory PaxosCluster
  imports PaxosRecovery PaxosSpec
begin

text \<open>
  Clusters of Paxos nodes in the default build (without leaders), over a network that loses,
  duplicates and reorders messages. The steps are those of the code; with \<open>careful\<close> set they are
  restricted by the checks that \<open>daccord/src/protocol/paxos.rs\<close> leaves out: that proposing does not
  lower the node's own promise, that phase 2 takes the node's own vote into account and keeps its
  value when a promise arrives late, and that a node decides by a vote of its own at the ballot or
  above. Careful runs implement \<open>PaxosSpec\<close> slot by slot, so that nodes agree; two runs without the
  checks show that they do not otherwise.
\<close>

text \<open>Proposal numbers are compared as wholes.\<close>

declare split_paired_All [simp del] split_paired_Ex [simp del] less_eq_prod_simp [simp del] less_prod_simp [simp del]

section \<open>The checks\<close>

text \<open>The node's own vote is among those the value of phase 2 was picked from.\<close>

definition own_vote_counted :: "'v paxos_instance \<Rightarrow> bool" where
  "own_vote_counted i =
     (case i_accepted i of
        None \<Rightarrow> True
      | Some (b, v) \<Rightarrow>
          (case i_highest_accepted i of None \<Rightarrow> False | Some (b', _) \<Rightarrow> b \<le> b') \<or> phase2_value i = Some v)"

definition sound_propose :: "('v, 's) paxos_protocol \<Rightarrow> bool" where
  "sound_propose s \<longleftrightarrow> p_next_slot s < u64_max
     \<and> above (i_highest_promised (instance_at (p_next_slot s) s)) (1, p_node_id s)"

text \<open>Rounds that can still be incremented.\<close>

definition room :: "'v paxos_instance \<Rightarrow> bool" where
  "room i \<longleftrightarrow> fst (i_proposal_number i) < u64_max
     \<and> (case i_highest_promised i of None \<Rightarrow> True | Some hp \<Rightarrow> fst hp < u64_max)
     \<and> (case i_highest_seen_nack i of None \<Rightarrow> True | Some r \<Rightarrow> r < u64_max)"

definition sound_tick :: "('v, 's) paxos_protocol \<Rightarrow> bool" where
  "sound_tick s = list_all (\<lambda>(_, i). room i) (p_instances s)"

definition sound_promise :: "nat \<Rightarrow> node_id \<Rightarrow> (proposal_number \<times> 'v) option \<Rightarrow> 'v paxos_instance \<Rightarrow> bool" where
  "sound_promise quorum m accepted i =
     (let j = record_promise m accepted i in
      if card (i_promises_received i) \<ge> quorum then phase2_value j = phase2_value i
      else if card (i_promises_received j) \<ge> quorum then own_vote_counted j
      else True)"

definition sound_accepted :: "nat \<Rightarrow> node_id \<Rightarrow> 'v paxos_instance \<Rightarrow> bool" where
  "sound_accepted quorum m i =
     (if card (insert m (i_accepts_received i)) \<ge> quorum
      then (case i_accepted i of None \<Rightarrow> True | Some (b, _) \<Rightarrow> i_proposal_number i \<le> b)
      else True)"

definition sound_message :: "node_id \<Rightarrow> 'v paxos_message \<Rightarrow> ('v, 's) paxos_protocol \<Rightarrow> bool" where
  "sound_message m msg s =
     (case msg of
        Promise slot pn accepted \<Rightarrow>
          (case hm_get (p_instances s) slot of
             None \<Rightarrow> True
           | Some i \<Rightarrow> if i_proposal_number i = pn then sound_promise (p_quorum_size s) m accepted i else True)
      | Accepted slot pn _ \<Rightarrow>
          (case hm_get (p_instances s) slot of
             None \<Rightarrow> True
           | Some i \<Rightarrow> if i_proposal_number i = pn then sound_accepted (p_quorum_size s) m i else True)
      | _ \<Rightarrow> True)"

section \<open>The cluster\<close>

record ('v, 's) pcluster =
  pc_node :: "node_id \<Rightarrow> ('v, 's) paxos_protocol"
  pc_net :: "(node_id \<times> node_id \<times> 'v paxos_message) set"

inductive pstep ::
  "bool \<Rightarrow> ('s, 'v) paxos_storage \<Rightarrow> node_id set \<Rightarrow> ('v, 's) pcluster \<Rightarrow> ('v, 's) pcluster \<Rightarrow> bool"
  for careful :: bool and ops :: "('s, 'v) paxos_storage" and N :: "node_id set"
where
  propose: "n \<in> N \<Longrightarrow> (careful \<Longrightarrow> sound_propose (pc_node c n)) \<Longrightarrow> paxos_propose e v (pc_node c n) = Some (s', outs) \<Longrightarrow>
    pstep careful ops N c \<lparr>pc_node = (pc_node c)(n := s'), pc_net = pc_net c \<union> sends N n outs\<rparr>"
| tick: "n \<in> N \<Longrightarrow> (careful \<Longrightarrow> sound_tick (pc_node c n)) \<Longrightarrow> paxos_on_tick e (pc_node c n) = Some (s', outs) \<Longrightarrow>
    pstep careful ops N c \<lparr>pc_node = (pc_node c)(n := s'), pc_net = pc_net c \<union> sends N n outs\<rparr>"
| deliver: "(m, n, msg) \<in> pc_net c \<Longrightarrow> (careful \<Longrightarrow> sound_message m msg (pc_node c n)) \<Longrightarrow>
    paxos_handle_message e m msg (pc_node c n) = Some (s', outs) \<Longrightarrow>
    pstep careful ops N c \<lparr>pc_node = (pc_node c)(n := s'), pc_net = pc_net c \<union> sends N n outs\<rparr>"
| drain: "n \<in> N \<Longrightarrow> paxos_drain_decisions ops (pc_node c n) = (r, s') \<Longrightarrow>
    pstep careful ops N c (c\<lparr>pc_node := (pc_node c)(n := s')\<rparr>)"
| take_lost: "n \<in> N \<Longrightarrow> paxos_take_lost_proposals (pc_node c n) = (lost, s') \<Longrightarrow>
    pstep careful ops N c (c\<lparr>pc_node := (pc_node c)(n := s')\<rparr>)"

definition pcluster_init :: "node_id set \<Rightarrow> ('v, 's) pcluster \<Rightarrow> bool" where
  "pcluster_init N c \<longleftrightarrow>
     (\<forall>n\<in>N. \<exists>e cfg st. pc_node c n = paxos_new_with_config False e n (card N) cfg st) \<and> pc_net c = {}"

section \<open>The simulation\<close>

type_synonym 'v slot_ballots = "(node_id, proposal_number, 'v) ballots"

abbreviation picked :: "node_id set \<Rightarrow> (u64 \<Rightarrow> 'v slot_ballots) \<Rightarrow> u64 \<Rightarrow> 'v \<Rightarrow> bool" where
  "picked N B slot v \<equiv> \<exists>b. chosen (majority N) (B slot) b v"

text \<open>The acceptor's part of an instance: its promise and its last vote.\<close>

definition acceptor_sim :: "'v slot_ballots \<Rightarrow> node_id \<Rightarrow> 'v paxos_instance \<Rightarrow> bool" where
  "acceptor_sim a n i \<longleftrightarrow> i_highest_promised i = b_promised a n
     \<and> (case i_accepted i of
          None \<Rightarrow> (\<forall>b v. (n, b, v) \<notin> b_votes a)
        | Some x \<Rightarrow> (n, fst x, snd x) \<in> b_votes a \<and> (\<forall>b v. (n, b, v) \<in> b_votes a \<longrightarrow> b \<le> fst x))"

text \<open>A promise of \<open>m\<close> that the proposer \<open>n\<close> has counted.\<close>

definition counted ::
  "(node_id \<times> node_id \<times> 'v paxos_message) set \<Rightarrow> u64 \<Rightarrow> node_id \<Rightarrow> 'v paxos_instance \<Rightarrow> node_id \<Rightarrow> bool" where
  "counted net slot n i m \<longleftrightarrow> m = n \<or>
     (\<exists>acc. (m, n, Promise slot (i_proposal_number i) acc) \<in> net
        \<and> (\<forall>x. acc = Some x \<longrightarrow> (\<exists>y. i_highest_accepted i = Some y \<and> fst x \<le> fst y)))"

definition proposer_base ::
  "node_id set \<Rightarrow> (node_id \<times> node_id \<times> 'v paxos_message) set \<Rightarrow> u64 \<Rightarrow> 'v slot_ballots \<Rightarrow> node_id \<Rightarrow> 'v paxos_instance \<Rightarrow> bool" where
  "proposer_base N net slot a n i \<longleftrightarrow>
     snd (i_proposal_number i) = n \<and> 1 \<le> fst (i_proposal_number i)
     \<and> (\<exists>hp. i_highest_promised i = Some hp \<and> i_proposal_number i \<le> hp)
     \<and> (\<forall>b v. (b, v) \<in> b_proposed a \<longrightarrow> snd b = n \<longrightarrow> b \<le> i_proposal_number i
           \<and> (b = i_proposal_number i \<longrightarrow> phase2_value i = Some v))
     \<and> (\<forall>m\<in>i_promises_received i. m \<in> N \<and> counted net slot n i m)
     \<and> (\<forall>x. i_highest_accepted i = Some x \<longrightarrow> x \<in> b_proposed a)
     \<and> (\<forall>m\<in>i_accepts_received i. m \<in> N \<and> (\<exists>v. (m, i_proposal_number i, v) \<in> b_votes a))"

text \<open>The value of a ballot is proposed when its promises are a quorum.\<close>

definition proposer_sim ::
  "node_id set \<Rightarrow> (node_id \<times> node_id \<times> 'v paxos_message) set \<Rightarrow> u64 \<Rightarrow> 'v slot_ballots \<Rightarrow> node_id \<Rightarrow> 'v paxos_instance \<Rightarrow> bool" where
  "proposer_sim N net slot a n i \<longleftrightarrow>
     (if i_is_proposer i then
        proposer_base N net slot a n i
        \<and> (quorum_of (card N) \<le> card (i_promises_received i) \<longleftrightarrow> (\<exists>v. (i_proposal_number i, v) \<in> b_proposed a))
      else i_proposal_number i = (0, NodeId '''' 0) \<and> i_promises_received i = {} \<and> i_accepts_received i = {}
        \<and> i_highest_accepted i = None \<and> (\<forall>b v. (b, v) \<in> b_proposed a \<longrightarrow> snd b \<noteq> n))"

definition pnode_sim ::
  "node_id set \<Rightarrow> (node_id \<times> node_id \<times> 'v paxos_message) set \<Rightarrow> (u64 \<Rightarrow> 'v slot_ballots) \<Rightarrow> node_id
   \<Rightarrow> ('v, 's) paxos_protocol \<Rightarrow> bool" where
  "pnode_sim N net B n s \<longleftrightarrow>
     paxos_wf s \<and> fixed_of s = (n, quorum_of (card N), False)
     \<and> (\<forall>slot. hm_get (p_decided_slots s) slot = None \<longrightarrow>
          acceptor_sim (B slot) n (instance_at slot s) \<and> proposer_sim N net slot (B slot) n (instance_at slot s)
          \<and> (i_is_proposer (instance_at slot s) \<longrightarrow> slot < p_next_slot s))
     \<and> (\<forall>slot v. hm_get (p_decided_slots s) slot = Some v \<longrightarrow> picked N B slot v)
     \<and> (\<forall>(t, slot, v)\<in>set (p_recent_decisions s). slot < u64_max \<and> picked N B slot v)"

fun message_sim :: "node_id set \<Rightarrow> (u64 \<Rightarrow> 'v slot_ballots) \<Rightarrow> node_id \<Rightarrow> 'v paxos_message \<Rightarrow> bool" where
  "message_sim N B x (Prepare slot b) \<longleftrightarrow> slot < u64_max \<and> 1 \<le> fst b"
| "message_sim N B x (Promise slot b acc) \<longleftrightarrow> slot < u64_max \<and> 1 \<le> fst b
     \<and> (\<exists>m. b_promised (B slot) x = Some m \<and> b \<le> m)
     \<and> (\<forall>y. acc = Some y \<longrightarrow> y \<in> b_proposed (B slot))
     \<and> (\<forall>b0 v0. (x, b0, v0) \<in> b_votes (B slot) \<longrightarrow> b0 < b \<longrightarrow> (\<exists>y. acc = Some y \<and> b0 \<le> fst y))"
| "message_sim N B x (Accept slot b v) \<longleftrightarrow> slot < u64_max \<and> (b, v) \<in> b_proposed (B slot)"
| "message_sim N B x (Accepted slot b v) \<longleftrightarrow> slot < u64_max \<and> (x, b, v) \<in> b_votes (B slot)"
| "message_sim N B x (Decide slot v) \<longleftrightarrow> slot < u64_max \<and> picked N B slot v"
| "message_sim N B x msg \<longleftrightarrow> True"

definition ballots_ok :: "node_id set \<Rightarrow> (u64 \<Rightarrow> 'v slot_ballots) \<Rightarrow> bool" where
  "ballots_ok N B \<longleftrightarrow> (\<forall>slot. breach (majority N) (B slot) \<and> (\<forall>b v. (b, v) \<in> b_proposed (B slot) \<longrightarrow> 1 \<le> fst b))"

definition psim :: "node_id set \<Rightarrow> (u64 \<Rightarrow> 'v slot_ballots) \<Rightarrow> ('v, 's) pcluster \<Rightarrow> bool" where
  "psim N B c \<longleftrightarrow>
     ballots_ok N B
     \<and> (\<forall>n\<in>N. pnode_sim N (pc_net c) B n (pc_node c n))
     \<and> (\<forall>(x, y, m)\<in>pc_net c. x \<in> N \<and> y \<in> N \<and> message_sim N B x m)"

section \<open>What a node's step does to the ballots\<close>

text \<open>The ballots after node \<open>n\<close> has acted: nothing of the other nodes' part has changed.\<close>

definition grows :: "node_id \<Rightarrow> 'v slot_ballots \<Rightarrow> 'v slot_ballots \<Rightarrow> bool" where
  "grows n a a' \<longleftrightarrow> b_votes a \<subseteq> b_votes a' \<and> b_proposed a \<subseteq> b_proposed a'
     \<and> (\<forall>m. m \<noteq> n \<longrightarrow> b_promised a' m = b_promised a m)
     \<and> (\<forall>m b v. m \<noteq> n \<longrightarrow> (m, b, v) \<in> b_votes a' \<longrightarrow> (m, b, v) \<in> b_votes a)
     \<and> (\<forall>b v. snd b \<noteq> n \<longrightarrow> (b, v) \<in> b_proposed a' \<longrightarrow> (b, v) \<in> b_proposed a)
     \<and> (\<forall>p. b_promised a n = Some p \<longrightarrow> (\<exists>p'. b_promised a' n = Some p' \<and> p \<le> p'))
     \<and> (\<forall>b v. (n, b, v) \<in> b_votes a' \<longrightarrow> (n, b, v) \<in> b_votes a \<or> up_to (b_promised a n) b)"

lemma grows_refl [simp]: "grows n a a"
  by (simp add: grows_def)

lemma up_to_mono:
  assumes "\<forall>p. x = Some p \<longrightarrow> (\<exists>p'. y = Some p' \<and> p \<le> p')" and "up_to y b"
  shows "up_to x b"
  using assms by (cases x) (auto simp: up_to_def dest: order_trans)

lemma bgrowsD:
  assumes "grows n a a'"
  shows "b_votes a \<subseteq> b_votes a'" and "b_proposed a \<subseteq> b_proposed a'" and "m \<noteq> n \<Longrightarrow> b_promised a' m = b_promised a m"
    and "m \<noteq> n \<Longrightarrow> (m, b, v) \<in> b_votes a' \<Longrightarrow> (m, b, v) \<in> b_votes a"
    and "snd b \<noteq> n \<Longrightarrow> (b, v) \<in> b_proposed a' \<Longrightarrow> (b, v) \<in> b_proposed a"
    and "b_promised a n = Some p \<Longrightarrow> \<exists>p'. b_promised a' n = Some p' \<and> p \<le> p'"
    and "(n, b, v) \<in> b_votes a' \<Longrightarrow> (n, b, v) \<in> b_votes a \<or> up_to (b_promised a n) b"
  using assms unfolding grows_def by simp_all

lemma grows_trans:
  assumes 1: "grows n a a'" and 2: "grows n a' a''"
  shows "grows n a a''"
  unfolding grows_def
proof (intro conjI allI impI)
  show "b_votes a \<subseteq> b_votes a''" using bgrowsD(1) [OF 1] bgrowsD(1) [OF 2] by simp
  show "b_proposed a \<subseteq> b_proposed a''" using bgrowsD(2) [OF 1] bgrowsD(2) [OF 2] by simp
  show "b_promised a'' m = b_promised a m" if "m \<noteq> n" for m using bgrowsD(3) [OF 1 that] bgrowsD(3) [OF 2 that] by simp
  show "(m, b, v) \<in> b_votes a" if "m \<noteq> n" "(m, b, v) \<in> b_votes a''" for m b v
    using bgrowsD(4) [OF 1 that(1)] bgrowsD(4) [OF 2 that] by simp
  show "(b, v) \<in> b_proposed a" if "snd b \<noteq> n" "(b, v) \<in> b_proposed a''" for b v
    using bgrowsD(5) [OF 1 that(1)] bgrowsD(5) [OF 2 that] by simp
  show "\<exists>p'. b_promised a'' n = Some p' \<and> p \<le> p'" if p: "b_promised a n = Some p" for p
    using bgrowsD(6) [OF 1 p] bgrowsD(6) [OF 2] by (meson order_trans)
  show "(n, b, v) \<in> b_votes a \<or> up_to (b_promised a n) b" if "(n, b, v) \<in> b_votes a''" for b v
    using bgrowsD(7) [OF 2 that] bgrowsD(7) [OF 1] up_to_mono [of "b_promised a n" "b_promised a' n" b] bgrowsD(6) [OF 1] by metis
qed

lemma grows_promise: "up_to (b_promised a n) b \<Longrightarrow> grows n a (a\<lparr>b_promised := (b_promised a)(n := Some b)\<rparr>)"
  by (simp add: grows_def up_to_def split: option.splits)

lemma grows_vote:
  "up_to (b_promised a n) b \<Longrightarrow>
   grows n a (a\<lparr>b_promised := (b_promised a)(n := Some b), b_votes := insert (n, b, v) (b_votes a)\<rparr>)"
  by (auto simp add: grows_def up_to_def split: option.splits)

lemma grows_propose: "snd b = n \<Longrightarrow> grows n a (a\<lparr>b_proposed := insert (b, v) (b_proposed a)\<rparr>)"
  by (auto simp add: grows_def)

lemma grows_picked:
  assumes "\<forall>slot. grows n (B slot) (B' slot)" and "picked N B slot v"
  shows "picked N B' slot v"
  using assms(2) chosen_mono [OF _ bgrowsD(1) [OF spec [OF assms(1)]]] by blast

lemma message_sim_grows:
  assumes g: "\<forall>slot. grows n (B slot) (B' slot)" and m: "message_sim N B x m"
  shows "message_sim N B' x m"
proof (cases m)
  case (Promise slot b acc)
  obtain p where p: "b_promised (B slot) x = Some p" "b \<le> p" using m unfolding Promise by (auto)
  have "\<exists>p. b_promised (B' slot) x = Some p \<and> b \<le> p"
  proof (cases "x = n")
    case True
    with p bgrowsD(6) [OF spec [OF g], of slot p] show ?thesis by (meson order_trans)
  next
    case False
    with p bgrowsD(3) [OF spec [OF g], of x slot] show ?thesis by metis
  qed
  moreover have "(x, b0, v0) \<in> b_votes (B slot)" if v: "(x, b0, v0) \<in> b_votes (B' slot)" "b0 < b" for b0 v0
  proof (cases "x = n")
    case True
    have "\<not> up_to (b_promised (B slot) x) b0" using p that(2) by (simp add: up_to_def not_le less_le_trans)
    with True bgrowsD(7) [OF spec [OF g], of b0 v0 slot] v(1) show ?thesis by simp
  qed (use bgrowsD(4) [OF spec [OF g]] v(1) in blast)
  ultimately show ?thesis
    using m bgrowsD(2) [OF spec [OF g], of slot] unfolding Promise by simp (metis subsetD)
next
  case (Decide slot v)
  with m grows_picked [OF g] show ?thesis by simp
qed (use m bgrowsD(1) [OF spec [OF g]] bgrowsD(2) [OF spec [OF g]] in auto)

lemma counted_mono: "counted net slot n i m \<Longrightarrow> net \<subseteq> net' \<Longrightarrow> counted net' slot n i m"
  unfolding counted_def by blast

lemma proposer_baseD:
  assumes "proposer_base N net slot a n i"
  shows "snd (i_proposal_number i) = n" and "1 \<le> fst (i_proposal_number i)"
    and "\<exists>hp. i_highest_promised i = Some hp \<and> i_proposal_number i \<le> hp"
    and "(b, v) \<in> b_proposed a \<Longrightarrow> snd b = n \<Longrightarrow> b \<le> i_proposal_number i"
    and "(i_proposal_number i, v) \<in> b_proposed a \<Longrightarrow> phase2_value i = Some v"
    and "m \<in> i_promises_received i \<Longrightarrow> m \<in> N" and "m \<in> i_promises_received i \<Longrightarrow> counted net slot n i m"
    and "i_highest_accepted i = Some x \<Longrightarrow> x \<in> b_proposed a"
    and "m \<in> i_accepts_received i \<Longrightarrow> m \<in> N" and "m \<in> i_accepts_received i \<Longrightarrow> \<exists>v. (m, i_proposal_number i, v) \<in> b_votes a"
  using assms unfolding proposer_base_def by simp_all

lemma proposer_baseI:
  assumes "snd (i_proposal_number i) = n" and "1 \<le> fst (i_proposal_number i)"
    and "\<exists>hp. i_highest_promised i = Some hp \<and> i_proposal_number i \<le> hp"
    and "\<And>b v. (b, v) \<in> b_proposed a \<Longrightarrow> snd b = n \<Longrightarrow> b \<le> i_proposal_number i"
    and "\<And>v. (i_proposal_number i, v) \<in> b_proposed a \<Longrightarrow> phase2_value i = Some v"
    and "\<And>m. m \<in> i_promises_received i \<Longrightarrow> m \<in> N \<and> counted net slot n i m"
    and "\<And>x. i_highest_accepted i = Some x \<Longrightarrow> x \<in> b_proposed a"
    and "\<And>m. m \<in> i_accepts_received i \<Longrightarrow> m \<in> N \<and> (\<exists>v. (m, i_proposal_number i, v) \<in> b_votes a)"
  shows "proposer_base N net slot a n i"
  using assms unfolding proposer_base_def by blast

lemma proposer_base_mono:
  assumes "proposer_base N net slot a n i" and "net \<subseteq> net'" and "b_votes a \<subseteq> b_votes a'" and "b_proposed a \<subseteq> b_proposed a'"
    and "\<And>b v. (b, v) \<in> b_proposed a' \<Longrightarrow> snd b = n \<Longrightarrow> (b, v) \<in> b_proposed a"
  shows "proposer_base N net' slot a' n i"
proof (rule proposer_baseI)
  note b = proposer_baseD [OF assms(1)]
  show "phase2_value i = Some v" if "(i_proposal_number i, v) \<in> b_proposed a'" for v
    using b(5) assms(5) [OF that b(1)] by simp
  show "m \<in> N \<and> counted net' slot n i m" if "m \<in> i_promises_received i" for m
    using b(6,7) [OF that] counted_mono assms(2) by blast
  show "m \<in> N \<and> (\<exists>v. (m, i_proposal_number i, v) \<in> b_votes a')" if "m \<in> i_accepts_received i" for m
    using b(9,10) [OF that] assms(3) by blast
qed (use proposer_baseD [OF assms(1)] assms(4,5) in blast)+

lemma proposer_sim_mono:
  assumes "proposer_sim N net slot a n i" and "net \<subseteq> net'" and "b_votes a \<subseteq> b_votes a'" and "b_proposed a \<subseteq> b_proposed a'"
    and "\<And>b v. (b, v) \<in> b_proposed a' \<Longrightarrow> snd b = n \<Longrightarrow> (b, v) \<in> b_proposed a"
  shows "proposer_sim N net' slot a' n i"
proof (cases "i_is_proposer i")
  case True
  with assms(1) have base: "proposer_base N net slot a n i" by (simp add: proposer_sim_def)
  have "(\<exists>v. (i_proposal_number i, v) \<in> b_proposed a') \<longleftrightarrow> (\<exists>v. (i_proposal_number i, v) \<in> b_proposed a)"
    using assms(4,5) proposer_baseD(1) [OF base] by blast
  with proposer_base_mono [OF base assms(2-5)] True assms(1) show ?thesis by (simp add: proposer_sim_def)
next
  case False
  with assms(1) have "\<forall>b v. (b, v) \<in> b_proposed a \<longrightarrow> snd b \<noteq> n" by (simp add: proposer_sim_def)
  then have "\<forall>b v. (b, v) \<in> b_proposed a' \<longrightarrow> snd b \<noteq> n" using assms(5) by metis
  with False assms(1) show ?thesis by (simp add: proposer_sim_def)
qed

lemma pnode_simD:
  assumes "pnode_sim N net B n s"
  shows "paxos_wf s" and "p_node_id s = n" and "p_quorum_size s = quorum_of (card N)" and "\<not> p_multi_paxos s"
    and "hm_get (p_decided_slots s) slot = None \<Longrightarrow> acceptor_sim (B slot) n (instance_at slot s)"
    and "hm_get (p_decided_slots s) slot = None \<Longrightarrow> proposer_sim N net slot (B slot) n (instance_at slot s)"
    and "hm_get (p_decided_slots s) slot = None \<Longrightarrow> i_is_proposer (instance_at slot s) \<Longrightarrow> slot < p_next_slot s"
    and "hm_get (p_decided_slots s) slot = Some v \<Longrightarrow> picked N B slot v"
    and "(t, slot, v) \<in> set (p_recent_decisions s) \<Longrightarrow> slot < u64_max \<and> picked N B slot v"
  using assms unfolding pnode_sim_def fixed_of_def by auto

text \<open>Another node's relation, and a bigger network.\<close>

lemma pnode_sim_other:
  assumes sim: "pnode_sim N net B m s" and "m \<noteq> n" and g: "\<forall>slot. grows n (B slot) (B' slot)" and "net \<subseteq> net'"
  shows "pnode_sim N net' B' m s"
proof -
  have "(m, x) \<in> b_votes (B' slot) \<longleftrightarrow> (m, x) \<in> b_votes (B slot)" for x slot
    using bgrowsD(1) [OF spec [OF g], of slot] bgrowsD(4) [OF spec [OF g] \<open>m \<noteq> n\<close>] by (cases x) blast
  then have "acceptor_sim (B' slot) m i" if "acceptor_sim (B slot) m i" for slot i
    using that bgrowsD(3) [OF spec [OF g] \<open>m \<noteq> n\<close>] by (simp add: acceptor_sim_def split: option.splits)
  moreover have "proposer_sim N net' slot (B' slot) m i" if "proposer_sim N net slot (B slot) m i" for slot i
    by (rule proposer_sim_mono [OF that assms(4) bgrowsD(1,2) [OF spec [OF g]]]) (use bgrowsD(5) [OF spec [OF g]] \<open>m \<noteq> n\<close> in blast)
  ultimately show ?thesis using sim grows_picked [OF g] unfolding pnode_sim_def by simp blast
qed

lemma pnode_sim_net: "pnode_sim N net B n s \<Longrightarrow> net \<subseteq> net' \<Longrightarrow> pnode_sim N net' B n s"
  unfolding pnode_sim_def using proposer_sim_mono by blast

text \<open>The node's own relation, after a change of one slot.\<close>

lemma pnode_sim_slot:
  assumes sim: "pnode_sim N net B n s" and g: "grows n (B slot) a'" and wf: "paxos_wf s'" and fixed: "fixed_of s' = fixed_of s"
    and other: "\<And>sl. sl \<noteq> slot \<Longrightarrow> hm_get (p_instances s') sl = hm_get (p_instances s) sl
      \<and> hm_get (p_decided_slots s') sl = hm_get (p_decided_slots s) sl" and "p_next_slot s \<le> p_next_slot s'"
    and recent: "set (p_recent_decisions s') \<subseteq> set (p_recent_decisions s) \<union> {(t, slot, v) | t v. slot < u64_max \<and> picked N (B(slot := a')) slot v}"
    and dec: "\<And>v. hm_get (p_decided_slots s') slot = Some v \<Longrightarrow> picked N (B(slot := a')) slot v"
    and undec: "hm_get (p_decided_slots s') slot = None \<Longrightarrow> acceptor_sim a' n (instance_at slot s')
      \<and> proposer_sim N net slot a' n (instance_at slot s') \<and> (i_is_proposer (instance_at slot s') \<longrightarrow> slot < p_next_slot s')"
  shows "pnode_sim N net (B(slot := a')) n s'"
proof -
  let ?B = "B(slot := a')"
  have grow: "\<forall>sl. grows n (B sl) (?B sl)" using g by simp
  have inst: "instance_at sl s' = instance_at sl s" if "sl \<noteq> slot" for sl using other [OF that] by (simp add: instance_at_def)
  have "acceptor_sim (?B sl) n (instance_at sl s') \<and> proposer_sim N net sl (?B sl) n (instance_at sl s')
      \<and> (i_is_proposer (instance_at sl s') \<longrightarrow> sl < p_next_slot s')" if "hm_get (p_decided_slots s') sl = None" for sl
  proof (cases "sl = slot")
    case False
    then have none: "hm_get (p_decided_slots s) sl = None" using other that by simp
    from False inst assms(6) pnode_simD(5-7) [OF sim none] show ?thesis by (auto dest: order.strict_trans2)
  qed (use undec that in simp)
  moreover have "picked N ?B sl v" if "hm_get (p_decided_slots s') sl = Some v" for sl v
  proof (cases "sl = slot")
    case False
    then have "picked N B sl v" using pnode_simD(8) [OF sim, of sl v] that other by simp
    from grows_picked [OF grow this] show ?thesis .
  qed (use dec that in simp)
  moreover have "slot' < u64_max \<and> picked N ?B slot' v" if "(t, slot', v) \<in> set (p_recent_decisions s')" for t slot' v
  proof (cases "(t, slot', v) \<in> set (p_recent_decisions s)")
    case True
    from pnode_simD(9) [OF sim this] grows_picked [OF grow] show ?thesis by blast
  qed (use recent that in blast)
  ultimately show ?thesis using wf fixed sim unfolding pnode_sim_def by auto
qed

section \<open>Single operations\<close>

definition padvances ::
  "node_id set \<Rightarrow> (node_id \<times> node_id \<times> 'v paxos_message) set \<Rightarrow> (u64 \<Rightarrow> 'v slot_ballots) \<Rightarrow> node_id
   \<Rightarrow> ('v, 's) paxos_protocol \<Rightarrow> 'v paxos_out \<Rightarrow> bool" where
  "padvances N net B n s' outs \<longleftrightarrow>
     (\<exists>B'. (\<forall>slot. grows n (B slot) (B' slot)) \<and> ballots_ok N B' \<and> pnode_sim N net B' n s'
        \<and> (\<forall>out\<in>set outs. message_sim N B' n (o_message out)))"

lemma padvances_same:
  assumes "ballots_ok N B" and "pnode_sim N net B n s'" and "\<And>out. out \<in> set outs \<Longrightarrow> message_sim N B n (o_message out)"
  shows "padvances N net B n s' outs"
  using assms unfolding padvances_def by (intro exI [of _ B]) simp

lemma padvances_silent: "ballots_ok N B \<Longrightarrow> pnode_sim N net B n s \<Longrightarrow> padvances N net B n s []"
  by (rule padvances_same) simp_all

lemma padvances_reply:
  assumes "pnode_sim N net B n s" and "ballots_ok N B" and "slot < u64_max" and "hm_get (p_decided_slots s) slot = Some v"
  shows "padvances N net B n s [Outgoing to (Decide slot v)]"
  by (rule padvances_same [OF assms(2,1)]) (use pnode_simD(8) [OF assms(1,4)] assms(3) in simp)

text \<open>The node keeps working on the slot.\<close>

lemma padvances_instance:
  assumes sim: "pnode_sim N net B n s" and ok: "ballots_ok N B" and undec: "hm_get (p_decided_slots s) slot = None" and "slot < u64_max"
    and a: "breach (majority N) a" "grows n (B slot) a" "\<And>b v. (b, v) \<in> b_proposed a \<Longrightarrow> 1 \<le> fst b"
    and j: "instance_ok j" "acceptor_sim a n j" "proposer_sim N net slot a n j" "i_is_proposer j \<Longrightarrow> slot < p_next_slot s"
    and outs: "\<And>out. out \<in> set outs \<Longrightarrow> message_sim N (B(slot := a)) n (o_message out)"
  shows "padvances N net B n (set_instance slot j s) outs"
proof -
  let ?s = "set_instance slot j s"
  have "paxos_wf ?s" using good_set_instance [OF pnode_simD(1) [OF sim] j(1) undec assms(4)] by (simp add: good_def)
  then have "pnode_sim N net (B(slot := a)) n ?s"
    using undec j(2-4) by (intro pnode_sim_slot [OF sim a(2)]) (simp_all add: set_instance_def instance_at_def fixed_of_def)
  moreover have "ballots_ok N (B(slot := a))" using ok a(1) a(3) by (auto simp: ballots_ok_def)
  ultimately show ?thesis using a(2) outs unfolding padvances_def by (intro exI [of _ "B(slot := a)"]) simp
qed

text \<open>The node decides the slot.\<close>

lemma decide_recent [simp]: "p_recent_decisions (decide e slot v s) = p_recent_decisions s @ [(clock e, slot, v)]"
  by (simp add: decide_def ack_decided_value_def Let_def)

lemma padvances_decide:
  assumes sim: "pnode_sim N net B n s" and ok: "ballots_ok N B" and "slot < u64_max"
    and a: "breach (majority N) a" "grows n (B slot) a" "\<And>b v. (b, v) \<in> b_proposed a \<Longrightarrow> 1 \<le> fst b"
    and v: "chosen (majority N) a b v"
    and t: "\<And>sl. sl \<noteq> slot \<Longrightarrow> hm_get (p_instances t) sl = hm_get (p_instances s) sl" "p_decided_slots t = p_decided_slots s"
      "p_next_slot t = p_next_slot s" "p_recent_decisions t = p_recent_decisions s" "fixed_of t = fixed_of s"
      "paxos_wf (remove_instance slot (decide e slot v t))"
  shows "padvances N net B n (remove_instance slot (decide e slot v t)) [Outgoing Broadcast (Decide slot v)]"
    and "padvances N net B n (remove_instance slot (decide e slot v t)) []"
proof -
  let ?s = "remove_instance slot (decide e slot v t)"
  have picked: "picked N (B(slot := a)) slot v" using v by auto
  then have "pnode_sim N net (B(slot := a)) n ?s"
    using t assms(3) by (intro pnode_sim_slot [OF sim a(2) t(6)]) (auto simp: remove_instance_def fixed_of_def)
  moreover have "ballots_ok N (B(slot := a))" using ok a(1) a(3) by (auto simp: ballots_ok_def)
  ultimately show "padvances N net B n ?s [Outgoing Broadcast (Decide slot v)]" "padvances N net B n ?s []"
    using a(2) assms(3) picked unfolding padvances_def by (auto intro!: exI [of _ "B(slot := a)"])
qed

lemma breachB: "ballots_ok N B \<Longrightarrow> breach (majority N) (B slot)" "ballots_ok N B \<Longrightarrow> (b, v) \<in> b_proposed (B slot) \<Longrightarrow> 1 \<le> fst b"
  by (auto simp: ballots_ok_def)

lemma at_least_up_to: "at_least = up_to"
  by (simp add: fun_eq_iff at_least_def up_to_def split: option.split)

lemma above_up_to: "above x b \<Longrightarrow> up_to x b"
  by (auto simp: above_def up_to_def less_imp_le split: option.splits)

subsection \<open>The acceptor\<close>

text \<open>A higher promise leaves the proposer's part alone.\<close>

lemma counted_cong:
  assumes "i_proposal_number j = i_proposal_number i" and "i_highest_accepted j = i_highest_accepted i"
  shows "counted net slot n j m \<longleftrightarrow> counted net slot n i m"
  using assms by (simp add: counted_def)

lemma proposer_sim_acceptor:
  assumes "proposer_sim N net slot a n i" and up: "\<And>hp. i_highest_promised i = Some hp \<Longrightarrow> \<exists>hp'. i_highest_promised j = Some hp' \<and> hp \<le> hp'"
    and j: "i_proposal_number j = i_proposal_number i" "i_highest_accepted j = i_highest_accepted i"
      "i_promises_received j = i_promises_received i" "i_accepts_received j = i_accepts_received i"
      "i_is_proposer j = i_is_proposer i" "i_proposed_value j = i_proposed_value i"
    and a: "b_votes a \<subseteq> b_votes a'" "b_proposed a' = b_proposed a"
  shows "proposer_sim N net slot a' n j"
proof (cases "i_is_proposer i")
  case True
  have base: "proposer_base N net slot a n i" using assms(1) True by (simp add: proposer_sim_def)
  have "phase2_value j = phase2_value i" using j(2,6) by (simp add: phase2_value_def split: option.split)
  moreover have "\<exists>hp. i_highest_promised j = Some hp \<and> i_proposal_number i \<le> hp"
    using proposer_baseD(3) [OF base] up by (meson order_trans)
  ultimately have "proposer_base N net slot a n j" using base j(1-4) counted_cong [OF j(1,2)] by (simp add: proposer_base_def)
  then have "proposer_base N net slot a' n j" by (rule proposer_base_mono) (use a in auto)
  with True assms(1) j a(2) show ?thesis by (simp add: proposer_sim_def)
next
  case False
  with assms(1) j a(2) show ?thesis by (simp add: proposer_sim_def)
qed

lemma acceptor_sim_promise:
  "acceptor_sim a n i \<Longrightarrow> acceptor_sim (a\<lparr>b_promised := (b_promised a)(n := Some b)\<rparr>) n (i\<lparr>i_highest_promised := Some b\<rparr>)"
  by (simp add: acceptor_sim_def split: option.splits)

text \<open>What a promise tells: the last vote.\<close>

lemma promise_message:
  assumes sim: "acceptor_sim (B slot) n i" and ok: "ballots_ok N B" and "slot < u64_max" and "1 \<le> fst b"
    and B': "b_votes (B' slot) = b_votes (B slot)" "b_proposed (B' slot) = b_proposed (B slot)" "b_promised (B' slot) n = Some b"
  shows "message_sim N B' n (Promise slot b (i_accepted i))"
proof -
  note inv = breach_inv [OF breachB(1) [OF ok, of slot]]
  have "y \<in> b_proposed (B slot)" if "i_accepted i = Some y" for y
    using sim that ballots_invD(1) [OF inv, of n "fst y" "snd y"] by (simp add: acceptor_sim_def)
  moreover have "\<exists>y. i_accepted i = Some y \<and> b0 \<le> fst y" if "(n, b0, v0) \<in> b_votes (B slot)" for b0 v0
    using sim that by (cases "i_accepted i") (auto simp: acceptor_sim_def)
  ultimately show ?thesis using assms(3,4) B' by simp
qed

lemma handle_prepare_advances:
  assumes sim: "pnode_sim N net B n s" and ok: "ballots_ok N B" and "slot < u64_max" and "1 \<le> fst b"
  shows "padvances N net B n (fst (handle_prepare m slot b s)) (snd (handle_prepare m slot b s))"
proof (cases "hm_get (p_decided_slots s) slot")
  case (Some v)
  from padvances_reply [OF sim ok assms(3) Some] show ?thesis by (simp add: handle_prepare_eq Some)
next
  case None
  let ?i = "instance_at slot s"
  let ?a = "(B slot)\<lparr>b_promised := (b_promised (B slot))(n := Some b)\<rparr>"
  note acc = pnode_simD(5) [OF sim None] and pro = pnode_simD(6) [OF sim None]
  show ?thesis
  proof (cases "above (i_highest_promised ?i) b")
    case True
    then have up: "up_to (b_promised (B slot) n) b" using acc above_up_to by (simp add: acceptor_sim_def)
    have eq: "handle_prepare m slot b s = (set_instance slot (?i\<lparr>i_highest_promised := Some b\<rparr>) s,
        [Outgoing (Peer m) (Promise slot b (i_accepted ?i))])"
      using True None by (auto simp: handle_prepare_eq above_def Let_def split: option.splits)
    have "padvances N net B n (set_instance slot (?i\<lparr>i_highest_promised := Some b\<rparr>) s) [Outgoing (Peer m) (Promise slot b (i_accepted ?i))]"
    proof (rule padvances_instance [OF sim ok None assms(3) _ grows_promise [OF up]])
      show "breach (majority N) ?a" by (rule breach_step [OF breachB(1) [OF ok] bstep.promise [OF up]])
      show "instance_ok (?i\<lparr>i_highest_promised := Some b\<rparr>)"
        using instance_at_ok [OF pnode_simD(1) [OF sim], of slot] by (simp add: instance_ok_def)
      show "proposer_sim N net slot ?a n (?i\<lparr>i_highest_promised := Some b\<rparr>)"
        by (rule proposer_sim_acceptor [OF pro]) (use True in \<open>auto simp: above_def\<close>)
      show "message_sim N (B(slot := ?a)) n (o_message out)" if "out \<in> set [Outgoing (Peer m) (Promise slot b (i_accepted ?i))]" for out
      proof -
        have "message_sim N (B(slot := ?a)) n (Promise slot b (i_accepted ?i))" by (rule promise_message [OF acc ok assms(3,4)]) simp_all
        with that show ?thesis by simp
      qed
    qed (use acceptor_sim_promise [OF acc] breachB(2) [OF ok] pnode_simD(7) [OF sim None] in simp_all)
    then show ?thesis by (simp add: eq)
  next
    case False
    then have "fst (handle_prepare m slot b s) = s" "\<exists>hp. snd (handle_prepare m slot b s) = [Outgoing (Peer m) (NackPrepare slot b hp)]"
      using None by (auto simp: handle_prepare_eq above_def Let_def split: option.splits)
    then show ?thesis by (auto intro!: padvances_same [OF ok sim])
  qed
qed

lemma acceptor_sim_vote:
  assumes "acceptor_sim a n i" and "up_to (b_promised a n) b" and inv: "ballots_inv quorum a"
    and j: "i_highest_promised j = Some b" "i_accepted j = Some (b, v)"
  shows "acceptor_sim (a\<lparr>b_promised := (b_promised a)(n := Some b), b_votes := insert (n, b, v) (b_votes a)\<rparr>) n j"
proof -
  have "b' \<le> b" if "(n, b', v') \<in> b_votes a" for b' v'
    using ballots_invD(2) [OF inv that] assms(2) by (auto simp: up_to_def)
  with j show ?thesis by (auto simp: acceptor_sim_def)
qed

lemma handle_accept_plain:
  assumes "\<not> p_multi_paxos s" and "hm_get (p_decided_slots s) slot = None"
  obtains "at_least (i_highest_promised (instance_at slot s)) b"
    "handle_accept m slot b v s = (set_instance slot ((instance_at slot s)\<lparr>i_highest_promised := Some b, i_accepted := Some (b, v)\<rparr>) s,
       [Outgoing (Peer m) (Accepted slot b v)])"
  | hp where "handle_accept m slot b v s = (s, [Outgoing (Peer m) (NackAccept slot b hp)])"
proof -
  obtain i s1 where g: "get_or_create_instance slot s = (i, s1)" by fastforce
  note i = get_or_create_fst [OF g] and set = set_instance_created [OF g]
  have floor: "effective_floor slot s = i_highest_promised i"
    using assms(1) by (simp add: effective_floor_def i instance_at_def paxos_instance_new_def split: option.split)
  have "s1 = s" if "i_highest_promised i \<noteq> None"
    using that g by (auto simp: get_or_create_instance_def paxos_instance_new_def split: option.splits)
  then have "s1 = s" if "\<not> at_least (i_highest_promised i) b" using that by (cases "i_highest_promised i") (auto simp: at_least_def)
  with assms(2) floor g set i that show thesis
    by (cases "at_least (i_highest_promised i) b") (simp_all add: handle_accept_def Let_def)
qed

lemma handle_accept_advances:
  assumes sim: "pnode_sim N net B n s" and ok: "ballots_ok N B" and "slot < u64_max" and pro: "(b, v) \<in> b_proposed (B slot)"
  shows "padvances N net B n (fst (handle_accept m slot b v s)) (snd (handle_accept m slot b v s))"
proof (cases "hm_get (p_decided_slots s) slot")
  case (Some w)
  from padvances_reply [OF sim ok assms(3) Some] show ?thesis by (simp add: handle_accept_def Some)
next
  case None
  note acc = pnode_simD(5) [OF sim None]
  let ?i = "instance_at slot s"
  let ?j = "?i\<lparr>i_highest_promised := Some b, i_accepted := Some (b, v)\<rparr>"
  let ?a = "(B slot)\<lparr>b_promised := (b_promised (B slot))(n := Some b), b_votes := insert (n, b, v) (b_votes (B slot))\<rparr>"
  show ?thesis
  proof (rule handle_accept_plain [OF pnode_simD(4) [OF sim] None, of b m v])
    assume le: "at_least (i_highest_promised ?i) b"
      and eq: "handle_accept m slot b v s = (set_instance slot ?j s, [Outgoing (Peer m) (Accepted slot b v)])"
    have up: "up_to (b_promised (B slot) n) b" using le acc by (simp add: at_least_up_to acceptor_sim_def)
    have "padvances N net B n (set_instance slot ?j s) [Outgoing (Peer m) (Accepted slot b v)]"
    proof (rule padvances_instance [OF sim ok None assms(3) _ grows_vote [OF up]])
      show "breach (majority N) ?a" by (rule breach_step [OF breachB(1) [OF ok] bstep.vote [OF up pro]])
      show "instance_ok ?j" using instance_at_ok [OF pnode_simD(1) [OF sim], of slot] by (simp add: instance_ok_def)
      show "acceptor_sim ?a n ?j" by (rule acceptor_sim_vote [OF acc up breach_inv [OF breachB(1) [OF ok]]]) simp_all
      show "proposer_sim N net slot ?a n ?j"
        by (rule proposer_sim_acceptor [OF pnode_simD(6) [OF sim None]]) (use le in \<open>auto simp: at_least_def\<close>)
    qed (use breachB(2) [OF ok] pnode_simD(7) [OF sim None] assms(3) in auto)
    with eq show ?thesis by simp
  next
    fix hp assume "handle_accept m slot b v s = (s, [Outgoing (Peer m) (NackAccept slot b hp)])"
    then show ?thesis by (auto intro!: padvances_same [OF ok sim])
  qed
qed

subsection \<open>The proposer\<close>

text \<open>The value picked from a quorum of promises and the node's own vote is safe.\<close>

lemma phase2_safe:
  assumes ok: "ballots_ok N B" and net: "\<And>x y m. (x, y, m) \<in> net \<Longrightarrow> message_sim N B x m" and fin: "finite N"
    and acc: "acceptor_sim (B slot) n j" and base: "proposer_base N net slot (B slot) n j"
    and q: "quorum_of (card N) \<le> card (i_promises_received j)" and own: "own_vote_counted j" and v: "phase2_value j = Some v"
  shows "safe_at (majority N) (B slot) (i_proposal_number j) v"
proof (rule majorities.safe_from_promises [OF breach_inv [OF breachB(1) [OF ok]]])
  let ?pn = "i_proposal_number j" and ?Q = "i_promises_received j"
  note inv = breach_inv [OF breachB(1) [OF ok, of slot]]
  show "majority N ?Q" using q fin proposer_baseD(6) [OF base] by (auto simp: majority_def)
  have highest: "(fst y, v) \<in> b_proposed (B slot)" if "i_highest_accepted j = Some y" for y
    using proposer_baseD(8) [OF base that] v that by (cases y) (simp add: phase2_value_def)
  fix m assume m: "m \<in> ?Q"
  have other: "\<exists>acc. (m, n, Promise slot ?pn acc) \<in> net \<and> (\<forall>x. acc = Some x \<longrightarrow> (\<exists>y. i_highest_accepted j = Some y \<and> fst x \<le> fst y))"
    if "m \<noteq> n" using proposer_baseD(7) [OF base m] that by (simp add: counted_def)
  show "\<exists>p. b_promised (B slot) m = Some p \<and> ?pn \<le> p"
  proof (cases "m = n")
    case True
    with proposer_baseD(3) [OF base] acc show ?thesis by (simp add: acceptor_sim_def)
  next
    case False
    with other net show ?thesis using message_sim.simps(2) by metis
  qed
  fix b0 v0 assume vote: "(m, b0, v0) \<in> b_votes (B slot)" and less: "b0 < ?pn"
  show "\<exists>c. b0 \<le> c \<and> (c, v) \<in> b_proposed (B slot)"
  proof (cases "m = n")
    case True
    with vote acc obtain x where x: "i_accepted j = Some x" "b0 \<le> fst x" "(n, fst x, snd x) \<in> b_votes (B slot)"
      by (cases "i_accepted j") (auto simp: acceptor_sim_def)
    have "(fst x, snd x) \<in> b_proposed (B slot)" by (rule ballots_invD(1) [OF inv x(3)])
    with own x(1,2) v highest show ?thesis
      by (cases x) (auto simp: own_vote_counted_def split: option.splits intro: order_trans)
  next
    case False
    with other obtain acc' where p: "(m, n, Promise slot ?pn acc') \<in> net"
        "\<And>x. acc' = Some x \<Longrightarrow> \<exists>y. i_highest_accepted j = Some y \<and> fst x \<le> fst y" by blast
    from net [OF p(1)] vote less obtain x where x: "acc' = Some x" "b0 \<le> fst x" by auto
    from p(2) [OF x(1)] x(2) highest show ?thesis by (meson order_trans)
  qed
qed

text \<open>The ballots after phase 2: the value is proposed, and the node votes for it when its promise allows.\<close>

definition phase2_ballots :: "node_id \<Rightarrow> 'v \<Rightarrow> 'v paxos_instance \<Rightarrow> 'v slot_ballots \<Rightarrow> 'v slot_ballots" where
  "phase2_ballots n v j a =
     (let a1 = a\<lparr>b_proposed := insert (i_proposal_number j, v) (b_proposed a)\<rparr> in
      if at_least (i_highest_promised j) (i_proposal_number j)
      then a1\<lparr>b_promised := (b_promised a1)(n := Some (i_proposal_number j)), b_votes := insert (n, i_proposal_number j, v) (b_votes a1)\<rparr>
      else a1)"

lemma phase2_ballots_sel [simp]:
  "b_proposed (phase2_ballots n v j a) = insert (i_proposal_number j, v) (b_proposed a)"
  "b_votes a \<subseteq> b_votes (phase2_ballots n v j a)"
  by (auto simp: phase2_ballots_def Let_def)

lemma phase2_ballots_step:
  assumes "breach (majority N) a" and acc: "acceptor_sim a n j" and "snd (i_proposal_number j) = n"
    and safe: "safe_at (majority N) a (i_proposal_number j) v" and uniq: "\<And>w. (i_proposal_number j, w) \<in> b_proposed a \<Longrightarrow> w = v"
  shows "breach (majority N) (phase2_ballots n v j a)" and "grows n a (phase2_ballots n v j a)"
    and "acceptor_sim (phase2_ballots n v j a) n (self_accept n v j)"
proof -
  let ?pn = "i_proposal_number j" and ?a = "a\<lparr>b_proposed := insert (i_proposal_number j, v) (b_proposed a)\<rparr>"
  have b: "breach (majority N) ?a" by (rule breach_step [OF assms(1) bstep.propose [OF safe uniq]])
  have g: "grows n a ?a" by (rule grows_propose [OF assms(3)])
  have acc': "acceptor_sim ?a n j" using acc by (simp add: acceptor_sim_def split: option.splits)
  let ?c = "?a\<lparr>b_promised := (b_promised ?a)(n := Some ?pn), b_votes := insert (n, ?pn, v) (b_votes ?a)\<rparr>"
  have "breach (majority N) ?c \<and> grows n a ?c \<and> acceptor_sim ?c n (self_accept n v j)" if le: "at_least (i_highest_promised j) ?pn"
  proof -
    have up: "up_to (b_promised ?a n) ?pn" using le acc by (simp add: acceptor_sim_def at_least_up_to)
    have "breach (majority N) ?c" by (rule breach_step [OF b bstep.vote [OF up]]) simp
    moreover have "acceptor_sim ?c n (self_accept n v j)"
      by (rule acceptor_sim_vote [OF acc' up breach_inv [OF b]]) (use le in \<open>simp_all add: self_accept_def\<close>)
    ultimately show ?thesis using grows_trans [OF g grows_vote [OF up]] by blast
  qed
  then show "breach (majority N) (phase2_ballots n v j a)" "grows n a (phase2_ballots n v j a)"
    "acceptor_sim (phase2_ballots n v j a) n (self_accept n v j)"
    using b g acc' by (simp_all add: phase2_ballots_def Let_def self_accept_def)
qed

lemma self_accept_sel [simp]:
  "i_proposal_number (self_accept n v j) = i_proposal_number j" "i_is_proposer (self_accept n v j) = i_is_proposer j"
  "i_promises_received (self_accept n v j) = i_promises_received j" "i_highest_accepted (self_accept n v j) = i_highest_accepted j"
  "phase2_value (self_accept n v j) = phase2_value j"
  by (simp_all add: self_accept_def phase2_value_def split: option.split)

lemma phase2_base:
  assumes base: "proposer_base N net slot a n j" and "n \<in> N" and v: "phase2_value j = Some v"
  shows "proposer_base N net slot (phase2_ballots n v j a) n (self_accept n v j)"
proof (rule proposer_baseI)
  let ?a = "phase2_ballots n v j a" and ?j = "self_accept n v j"
  note b = proposer_baseD [OF base]
  show "\<exists>hp. i_highest_promised ?j = Some hp \<and> i_proposal_number ?j \<le> hp" using b(3) by (auto simp: self_accept_def)
  show "c \<le> i_proposal_number ?j" if "(c, w) \<in> b_proposed ?a" "snd c = n" for c w
    using that b(4) [of c w] by (cases "(c, w) \<in> b_proposed a") simp_all
  show "phase2_value ?j = Some w" if "(i_proposal_number ?j, w) \<in> b_proposed ?a" for w using that b(5) v by auto
  show "m \<in> N \<and> counted net slot n ?j m" if "m \<in> i_promises_received ?j" for m
    using that b(6,7) counted_cong [of ?j j] by simp
  show "x \<in> b_proposed ?a" if "i_highest_accepted ?j = Some x" for x using that b(8) by simp
  show "m \<in> N \<and> (\<exists>v. (m, i_proposal_number ?j, v) \<in> b_votes ?a)" if "m \<in> i_accepts_received ?j" for m
  proof (cases "m \<in> i_accepts_received j")
    case True
    with b(9,10) phase2_ballots_sel(2) show ?thesis by fastforce
  next
    case False
    with that have "m = n" "at_least (i_highest_promised j) (i_proposal_number j)" by (auto simp: self_accept_def split: if_splits)
    with assms(2) show ?thesis by (auto simp: phase2_ballots_def Let_def)
  qed
qed (use proposer_baseD(1,2) [OF base] in simp_all)

text \<open>A quorum of acceptances is a choice.\<close>

lemma accepts_chosen:
  assumes fin: "finite N" and inv: "ballots_inv (majority N) a" and base: "proposer_base N net slot a n j"
    and q: "quorum_of (card N) \<le> card (i_accepts_received j)" and v: "(i_proposal_number j, v) \<in> b_proposed a"
  shows "chosen (majority N) a (i_proposal_number j) v"
proof -
  let ?Q = "i_accepts_received j"
  have "majority N ?Q" using fin q proposer_baseD(9) [OF base] by (auto simp: majority_def)
  moreover have "(m, i_proposal_number j, v) \<in> b_votes a" if m: "m \<in> ?Q" for m
  proof -
    from proposer_baseD(10) [OF base m] obtain w where w: "(m, i_proposal_number j, w) \<in> b_votes a" by blast
    from ballots_invD(3) [OF inv ballots_invD(1) [OF inv w] v] w show ?thesis by simp
  qed
  ultimately show ?thesis unfolding chosen_def by blast
qed

lemma phase2_advances:
  assumes sim: "pnode_sim N net B n s" and ok: "ballots_ok N B" and "slot < u64_max" and fin: "finite N" and "n \<in> N"
    and undec: "hm_get (p_decided_slots s) slot = None" and less: "slot < p_next_slot s"
    and j: "instance_ok j" "acceptor_sim (B slot) n j" "i_is_proposer j" "proposer_base N net slot (B slot) n j"
      "quorum_of (card N) \<le> card (i_promises_received j)"
    and safe: "\<And>v. phase2_value j = Some v \<Longrightarrow> safe_at (majority N) (B slot) (i_proposal_number j) v"
    and r: "start_phase2 e slot (set_instance slot j s) = Some (s', outs)"
  shows "padvances N net B n s' outs"
proof -
  let ?t = "set_instance slot j s"
  have inst: "hm_get (p_instances ?t) slot = Some j" "p_node_id ?t = n" "p_quorum_size ?t = quorum_of (card N)"
    using pnode_simD(2,3) [OF sim] by (simp_all add: set_instance_def)
  obtain v where v: "phase2_value j = Some v" using r inst(1) by (cases "phase2_value j") (simp_all add: start_phase2_eq)
  let ?a = "phase2_ballots n v j (B slot)" and ?j = "self_accept n v j"
  have uniq: "w = v" if "(i_proposal_number j, w) \<in> b_proposed (B slot)" for w using proposer_baseD(5) [OF j(4) that] v by simp
  note a = phase2_ballots_step [OF breachB(1) [OF ok] j(2) proposer_baseD(1) [OF j(4)] safe [OF v] uniq]
  note base = phase2_base [OF j(4) \<open>n \<in> N\<close> v]
  have pro: "1 \<le> fst b" if "(b, w) \<in> b_proposed ?a" for b w
    using that breachB(2) [OF ok, of b w slot] proposer_baseD(2) [OF j(4)] by auto
  have idem: "set_instance slot ?j ?t = set_instance slot ?j s" by (simp add: set_instance_def hm_insert_insert)
  show ?thesis
  proof (cases "quorum_of (card N) \<le> card (i_accepts_received ?j)")
    case True
    then have res: "s' = remove_instance slot (decide e slot v (set_instance slot ?j s))" "outs = [Outgoing Broadcast (Decide slot v)]"
      using r inst v idem by (simp_all add: start_phase2_eq Let_def)
    have ch: "chosen (majority N) ?a (i_proposal_number ?j) v"
    proof (rule accepts_chosen [OF fin breach_inv [OF a(1)] base True])
      show "(i_proposal_number ?j, v) \<in> b_proposed ?a" by simp
    qed
    have "paxos_wf s'"
      using settle_set_instance [OF good_settle [OF pnode_simD(1) [OF sim] assms(3) undec]] by (simp add: res(1) good_def)
    then show ?thesis unfolding res
      by (intro padvances_decide(1) [OF sim ok assms(3) a(1,2) pro ch]) (simp_all add: set_instance_def fixed_of_def)
  next
    case False
    then have res: "s' = set_instance slot ?j s" "outs = [Outgoing Broadcast (Accept slot (i_proposal_number j) v)]"
      using r inst v idem by (simp_all add: start_phase2_eq Let_def)
    have "proposer_sim N net slot ?a n ?j" using base j(3,5) by (auto simp: proposer_sim_def)
    then show ?thesis unfolding res
      using a(3) less assms(3) self_accept_ok [OF j(1)] by (intro padvances_instance [OF sim ok undec assms(3) a(1,2) pro]) auto
  qed
qed

lemma instance_at_eq: "hm_get (p_instances s) slot = Some i \<Longrightarrow> instance_at slot s = i"
  by (simp add: instance_at_def)

text \<open>An instance that is a proposer's when a message names its number.\<close>

lemma proposer_of_number:
  assumes sim: "pnode_sim N net B n s" and undec: "hm_get (p_decided_slots s) slot = None" and i: "hm_get (p_instances s) slot = Some i"
    and round: "1 \<le> fst (i_proposal_number i)"
  shows "i_is_proposer i" and "proposer_base N net slot (B slot) n i" and "slot < p_next_slot s"
    and "quorum_of (card N) \<le> card (i_promises_received i) \<longleftrightarrow> (\<exists>v. (i_proposal_number i, v) \<in> b_proposed (B slot))"
    and "acceptor_sim (B slot) n i" and "instance_ok i"
proof -
  note sims = pnode_simD(5-7) [OF sim undec, unfolded instance_at_eq [OF i]]
  show p: "i_is_proposer i" using sims(2) round by (auto simp: proposer_sim_def split: if_splits)
  show "proposer_base N net slot (B slot) n i" "slot < p_next_slot s" "acceptor_sim (B slot) n i"
    "quorum_of (card N) \<le> card (i_promises_received i) \<longleftrightarrow> (\<exists>v. (i_proposal_number i, v) \<in> b_proposed (B slot))"
    using sims p by (simp_all add: proposer_sim_def)
  show "instance_ok i" by (rule paxos_wfD(1) [OF pnode_simD(1) [OF sim] i])
qed

lemma record_promise_highest:
  assumes "i_highest_accepted i = Some y"
  shows "\<exists>z. i_highest_accepted (record_promise m acc i) = Some z \<and> fst y \<le> fst z"
  using assms by (auto simp: record_promise_def above_def Let_def split: option.split)

lemma record_promise_reported:
  "\<exists>z. i_highest_accepted (record_promise m (Some x) i) = Some z \<and> fst x \<le> fst z"
  by (cases x) (auto simp: record_promise_def above_def Let_def not_less split: option.split)

lemma record_promise_source:
  "i_highest_accepted (record_promise m acc i) = Some z \<Longrightarrow> i_highest_accepted i = Some z \<or> acc = Some z"
  by (cases acc) (auto simp: record_promise_def Let_def split: if_splits)

lemma record_promise_base:
  assumes base: "proposer_base N net slot a n i" and msg: "(m, n, Promise slot (i_proposal_number i) acc) \<in> net" and "m \<in> N"
    and acc: "\<And>x. acc = Some x \<Longrightarrow> x \<in> b_proposed a"
    and keep: "\<And>v. (i_proposal_number i, v) \<in> b_proposed a \<Longrightarrow> phase2_value (record_promise m acc i) = phase2_value i"
  shows "proposer_base N net slot a n (record_promise m acc i)"
proof (rule proposer_baseI)
  let ?j = "record_promise m acc i"
  note b = proposer_baseD [OF base]
  show "phase2_value ?j = Some v" if "(i_proposal_number ?j, v) \<in> b_proposed a" for v using that keep b(5) by simp
  show "k \<in> N \<and> counted net slot n ?j k" if "k \<in> i_promises_received ?j" for k
  proof (cases "k \<in> i_promises_received i")
    case True
    have "\<exists>z. i_highest_accepted ?j = Some z \<and> fst x \<le> fst z" if "\<exists>y. i_highest_accepted i = Some y \<and> fst x \<le> fst y" for x :: "proposal_number \<times> 'a"
      using that record_promise_highest [of i _ m acc] by (meson order_trans)
    with b(6,7) [OF True] show ?thesis unfolding counted_def by (simp only: record_promise_sel) blast
  next
    case False
    with that assms(3) msg record_promise_reported [of m _ i] show ?thesis unfolding counted_def by (simp only: record_promise_sel) auto
  qed
  show "x \<in> b_proposed a" if "i_highest_accepted ?j = Some x" for x
    using record_promise_source [OF that] b(8) acc by blast
  show "c \<le> i_proposal_number ?j" if "(c, w) \<in> b_proposed a" "snd c = n" for c w using that b(4) by simp
  show "k \<in> N \<and> (\<exists>v. (k, i_proposal_number ?j, v) \<in> b_votes a)" if "k \<in> i_accepts_received ?j" for k
    using that b(9,10) by simp
qed (use proposer_baseD(1-3) [OF base] in simp_all)

lemma handle_promise_advances:
  assumes sim: "pnode_sim N net B n s" and ok: "ballots_ok N B" and net: "\<And>x y m. (x, y, m) \<in> net \<Longrightarrow> message_sim N B x m"
    and fin: "finite N" and "n \<in> N" and "m \<in> N" and msg: "(m, n, Promise slot b acc) \<in> net"
    and sound: "sound_message m (Promise slot b acc) s" and r: "handle_promise e m slot b acc s = Some (s', outs)"
  shows "padvances N net B n s' outs"
proof -
  from net [OF msg] have p: "slot < u64_max" "1 \<le> fst b" "\<And>y. acc = Some y \<Longrightarrow> y \<in> b_proposed (B slot)" by auto
  show ?thesis
    using r
  proof (cases rule: handle_promise_cases)
    case 1
    then show ?thesis by (simp add: padvances_silent [OF ok sim])
  next
    case (2 i)
    note i = proposer_of_number [OF sim 2(1,2), unfolded 2(3), OF p(2)]
    have "card (i_promises_received i) \<le> card (insert m (i_promises_received i))" by (rule card_insert_le)
    with 2(7) i(4) pnode_simD(3) [OF sim] have none: "(i_proposal_number i, v) \<notin> b_proposed (B slot)" for v by (auto simp: 2(3))
    have "proposer_base N net slot (B slot) n (record_promise m acc i)"
      by (rule record_promise_base [OF i(2) _ \<open>m \<in> N\<close> p(3)]) (use msg 2(3) none in auto)
    then have "proposer_sim N net slot (B slot) n (record_promise m acc i)"
      using i(1) none 2(7) pnode_simD(3) [OF sim] by (simp add: proposer_sim_def)
    moreover have "acceptor_sim (B slot) n (record_promise m acc i)" using i(5) by (simp add: acceptor_sim_def)
    ultimately show ?thesis unfolding 2(5,6)
      by (intro padvances_instance [OF sim ok 2(1) p(1) breachB(1) [OF ok] grows_refl])
         (use breachB(2) [OF ok] i record_promise_ok in simp_all)
  next
    case (3 i)
    note i = proposer_of_number [OF sim 3(1,2), unfolded 3(3), OF p(2)]
    let ?j = "record_promise m acc i"
    have q: "quorum_of (card N) \<le> card (i_promises_received ?j)" using 3(6) pnode_simD(3) [OF sim] by simp
    have sp: "sound_promise (quorum_of (card N)) m acc i" using sound 3(2,3) pnode_simD(3) [OF sim] by (simp add: sound_message_def)
    have keep: "phase2_value ?j = phase2_value i" if "(i_proposal_number i, v) \<in> b_proposed (B slot)" for v
    proof -
      from that i(4) 3(3) have "quorum_of (card N) \<le> card (i_promises_received i)" by blast
      with sp show ?thesis by (simp add: sound_promise_def Let_def)
    qed
    have base: "proposer_base N net slot (B slot) n ?j"
      by (rule record_promise_base [OF i(2) _ \<open>m \<in> N\<close> p(3) keep]) (use msg 3(3) in auto)
    have acc: "acceptor_sim (B slot) n ?j" using i(5) by (simp add: acceptor_sim_def)
    have "safe_at (majority N) (B slot) (i_proposal_number ?j) v" if v: "phase2_value ?j = Some v" for v
    proof (cases "quorum_of (card N) \<le> card (i_promises_received i)")
      case True
      with i(4) obtain w where w: "(i_proposal_number ?j, w) \<in> b_proposed (B slot)" by (auto simp: 3(3))
      then have "w = v" using proposer_baseD(5) [OF base w] v by simp
      with w ballots_invD(4) [OF breach_inv [OF breachB(1) [OF ok]]] show ?thesis by blast
    next
      case False
      with sp q have "own_vote_counted ?j" by (simp add: sound_promise_def Let_def)
      from phase2_safe [OF ok net fin acc base q this v] show ?thesis .
    qed
    then show ?thesis
      by (intro phase2_advances [OF sim ok p(1) fin \<open>n \<in> N\<close> 3(1) i(3) record_promise_ok [OF i(6)] acc _ base q _ 3(5)]) (use i(1) in simp_all)
  qed
qed

lemma proposer_base_accepted:
  assumes base: "proposer_base N net slot a n i" and vote: "\<exists>v. (m, i_proposal_number i, v) \<in> b_votes a" and "m \<in> N"
  shows "proposer_base N net slot a n (i\<lparr>i_accepts_received := insert m (i_accepts_received i)\<rparr>)"
proof (rule proposer_baseI)
  let ?j = "i\<lparr>i_accepts_received := insert m (i_accepts_received i)\<rparr>"
  note b = proposer_baseD [OF base]
  show "phase2_value ?j = Some v" if "(i_proposal_number ?j, v) \<in> b_proposed a" for v
    using that b(5) [of v] by (cases "i_highest_accepted i") (simp_all add: phase2_value_def)
  show "k \<in> N \<and> counted net slot n ?j k" if "k \<in> i_promises_received ?j" for k
    using that b(6,7) counted_cong [of ?j i] by simp
  show "c \<le> i_proposal_number ?j" if "(c, w) \<in> b_proposed a" "snd c = n" for c w using that b(4) by simp
  show "k \<in> N \<and> (\<exists>v. (k, i_proposal_number ?j, v) \<in> b_votes a)" if "k \<in> i_accepts_received ?j" for k
    using that b(9,10) vote \<open>m \<in> N\<close> by auto
qed (use proposer_baseD [OF base] in simp_all)

lemma handle_accepted_advances:
  assumes sim: "pnode_sim N net B n s" and ok: "ballots_ok N B" and fin: "finite N" and "m \<in> N"
    and vote: "(m, b, w) \<in> b_votes (B slot)" and "slot < u64_max"
    and sound: "sound_message m (Accepted slot b w) s" and r: "handle_accepted e m slot b s = Some (s', outs)"
  shows "padvances N net B n s' outs"
proof -
  note inv = breach_inv [OF breachB(1) [OF ok, of slot]]
  note pro = ballots_invD(1) [OF inv vote]
  have round: "1 \<le> fst b" using breachB(2) [OF ok pro] .
  have base': "proposer_base N net slot (B slot) n (i\<lparr>i_accepts_received := insert m (i_accepts_received i)\<rparr>)"
    if base: "proposer_base N net slot (B slot) n i" and "i_proposal_number i = b" for i
    by (rule proposer_base_accepted [OF base _ \<open>m \<in> N\<close>]) (use vote that(2) in auto)
  show ?thesis
    using r
  proof (cases rule: handle_accepted_cases)
    case 1
    then show ?thesis by (simp add: padvances_silent [OF ok sim])
  next
    case (2 i)
    note i = proposer_of_number [OF sim 2(1,2), unfolded 2(3), OF round]
    let ?j = "i\<lparr>i_accepts_received := insert m (i_accepts_received i)\<rparr>"
    have "proposer_sim N net slot (B slot) n ?j" using base' [OF i(2) 2(3)] i(1,4) 2(3) by (simp add: proposer_sim_def)
    moreover have "acceptor_sim (B slot) n ?j" using i(5) by (simp add: acceptor_sim_def)
    ultimately show ?thesis unfolding 2(4,5)
      by (intro padvances_instance [OF sim ok 2(1) assms(6) breachB(1) [OF ok] grows_refl])
         (use breachB(2) [OF ok] i in \<open>simp_all add: instance_ok_def\<close>)
  next
    case (3 i c v)
    note i = proposer_of_number [OF sim 3(1,2), unfolded 3(3), OF round]
    let ?j = "i\<lparr>i_accepts_received := insert m (i_accepts_received i)\<rparr>"
    have "chosen (majority N) (B slot) (i_proposal_number ?j) w"
      by (rule accepts_chosen [OF fin inv base' [OF i(2) 3(3)]]) (use 3(3,5) pnode_simD(3) [OF sim] pro in simp_all)
    then have ch: "chosen (majority N) (B slot) b w" by (simp add: 3(3))
    have "sound_accepted (quorum_of (card N)) m i" using sound 3(2,3) pnode_simD(3) [OF sim] by (simp add: sound_message_def)
    then have "b \<le> c" using 3(3-5) pnode_simD(3) [OF sim] by (simp add: sound_accepted_def)
    moreover have "(c, v) \<in> b_proposed (B slot)" using i(5) 3(4) ballots_invD(1) [OF inv, of n c v] by (simp add: acceptor_sim_def)
    ultimately have "v = w" using majorities.later_value [OF inv ch] by blast
    moreover have "paxos_wf s'"
      using settle_set_instance [OF good_settle [OF pnode_simD(1) [OF sim] assms(6) 3(1)]] by (simp add: 3(6) good_def)
    ultimately show ?thesis unfolding 3(6,7)
      by (intro padvances_decide(1) [OF sim ok assms(6) breachB(1) [OF ok] grows_refl breachB(2) [OF ok]])
         (use ch in \<open>simp_all add: set_instance_def fixed_of_def\<close>)
  qed
qed

subsection \<open>Learning, refusals and new rounds\<close>

lemma handle_decide_advances:
  assumes sim: "pnode_sim N net B n s" and ok: "ballots_ok N B" and "slot < u64_max" and v: "picked N B slot v"
  shows "padvances N net B n (handle_decide e m slot v s) []"
proof -
  obtain ls where eq: "handle_decide e m slot v s =
    (if hm_contains (p_decided_slots s) slot then s\<lparr>p_leader_state := ls\<rparr>
     else remove_instance slot (decide e slot v
       (s\<lparr>p_leader_state := ls, p_lost_proposals := p_lost_proposals s @ lost_value slot v s\<rparr>)))"
    by (rule handle_decide_eq)
  have good: "paxos_wf (handle_decide e m slot v s)" using handle_decide_good [OF pnode_simD(1) [OF sim] assms(3)] by (simp add: good_def)
  show ?thesis
  proof (cases "hm_contains (p_decided_slots s) slot")
    case True
    have "pnode_sim N net B n (s\<lparr>p_leader_state := ls\<rparr>)"
      using sim good eq True by (simp add: pnode_sim_def instance_at_def fixed_of_def)
    with True show ?thesis unfolding eq by (simp add: padvances_silent [OF ok])
  next
    case False
    from v obtain b where b: "chosen (majority N) (B slot) b v" by blast
    from False show ?thesis unfolding eq if_not_P [OF False]
      by (intro padvances_decide(2) [OF sim ok assms(3) breachB(1) [OF ok] grows_refl breachB(2) [OF ok] b])
         (use good in \<open>simp_all add: fixed_of_def eq\<close>)
  qed
qed

lemma handle_nack_advances:
  assumes sim: "pnode_sim N net B n s" and ok: "ballots_ok N B"
  shows "padvances N net B n (handle_nack e slot hp s) []"
proof (cases "hm_get (p_instances s) slot")
  case None
  then have "handle_nack e slot hp s = s" using pnode_simD(4) [OF sim] by (simp add: handle_nack_eq nacked_def)
  then show ?thesis by (simp add: padvances_silent [OF ok sim])
next
  case (Some i)
  note wf = paxos_wfD [OF pnode_simD(1) [OF sim] Some]
  note sims = pnode_simD(5-7) [OF sim wf(2), unfolded instance_at_eq [OF Some]]
  obtain j where j: "handle_nack e slot hp s = set_instance slot j s" "i_proposal_number j = i_proposal_number i"
      "i_highest_accepted j = i_highest_accepted i" "i_promises_received j = i_promises_received i"
      "i_accepts_received j = i_accepts_received i" "i_is_proposer j = i_is_proposer i" "i_proposed_value j = i_proposed_value i"
      "i_highest_promised j = i_highest_promised i" "i_accepted j = i_accepted i" "i_decided j = i_decided i"
  proof (rule that)
    show "handle_nack e slot hp s = set_instance slot (i\<lparr>i_nacked := True, i_last_nack_time := Some (clock e),
        i_highest_seen_nack := (if (case i_highest_seen_nack i of None \<Rightarrow> True | Some r \<Rightarrow> fst hp > r) then Some (fst hp) else i_highest_seen_nack i),
        i_next_retry_at := Some (clock e + retry_delay e (i_retry_count i))\<rparr>) s"
      using pnode_simD(4) [OF sim] Some by (simp add: handle_nack_eq nacked_def set_instance_def)
  qed simp_all
  have "proposer_sim N net slot (B slot) n j" by (rule proposer_sim_acceptor [OF sims(2)]) (use j in auto)
  moreover have "acceptor_sim (B slot) n j" using sims(1) j(8,9) by (simp add: acceptor_sim_def)
  moreover have "instance_ok j" using wf(1) j by (simp add: instance_ok_def)
  ultimately show ?thesis unfolding j(1)
    by (intro padvances_instance [OF sim ok wf(2,3) breachB(1) [OF ok] grows_refl]) (use breachB(2) [OF ok] sims(3) j(6) in simp_all)
qed

text \<open>A round opened by the node's own promise, above all its earlier ones.\<close>

lemma fresh_round_advances:
  assumes sim: "pnode_sim N net B n s" and ok: "ballots_ok N B" and "slot < u64_max" and "n \<in> N" and two: "2 \<le> card N"
    and undec: "hm_get (p_decided_slots s) slot = None" and ab: "above (i_highest_promised (instance_at slot s)) (k, n)"
    and k: "1 \<le> k" "i_is_proposer (instance_at slot s) \<Longrightarrow> i_proposal_number (instance_at slot s) < (k, n)"
    and j: "i_proposal_number j = (k, n)" "i_highest_promised j = Some (k, n)" "i_promises_received j = {n}" "i_accepts_received j = {}"
      "i_highest_accepted j = None" "i_accepted j = i_accepted (instance_at slot s)" "i_is_proposer j" "instance_ok j"
    and t: "p_instances t = hm_insert slot j (p_instances s)" "p_decided_slots t = p_decided_slots s" "p_recent_decisions t = p_recent_decisions s"
      "fixed_of t = fixed_of s" "p_next_slot s \<le> p_next_slot t" "slot < p_next_slot t" "paxos_wf t"
  shows "padvances N net B n t [Outgoing Broadcast (Prepare slot (k, n))]"
proof -
  let ?a = "(B slot)\<lparr>b_promised := (b_promised (B slot))(n := Some (k, n))\<rparr>"
  note acc = pnode_simD(5) [OF sim undec] and pro = pnode_simD(6) [OF sim undec]
  have up: "up_to (b_promised (B slot) n) (k, n)" using ab acc above_up_to by (simp add: acceptor_sim_def)
  have b: "breach (majority N) ?a" by (rule breach_step [OF breachB(1) [OF ok] bstep.promise [OF up]])
  have less: "c < (k, n)" if "(c, w) \<in> b_proposed (B slot)" "snd c = n" for c w
  proof (cases "i_is_proposer (instance_at slot s)")
    case True
    with pro have "proposer_base N net slot (B slot) n (instance_at slot s)" by (simp add: proposer_sim_def)
    from proposer_baseD(4) [OF this that] k(2) [OF True] show ?thesis by (rule le_less_trans)
  qed (use pro that in \<open>auto simp: proposer_sim_def\<close>)
  have new: "((k, n), w) \<notin> b_proposed (B slot)" for w using less [of "(k, n)" w] by auto
  have "proposer_base N net slot ?a n j"
    by (rule proposer_baseI) (use j k(1) new less assms(4) in \<open>auto simp: counted_def less_imp_le\<close>)
  then have "proposer_sim N net slot ?a n j" using j(1,3,7) new two by (simp add: proposer_sim_def quorum_of_def)
  moreover have "acceptor_sim ?a n j" using acc j(2,6) by (simp add: acceptor_sim_def split: option.splits)
  ultimately have "pnode_sim N net (B(slot := ?a)) n t"
    using undec t j(7) by (intro pnode_sim_slot [OF sim grows_promise [OF up] t(7,4)]) (simp_all add: instance_at_def)
  moreover have "ballots_ok N (B(slot := ?a))" using ok b by (simp add: ballots_ok_def)
  ultimately show ?thesis using grows_promise [OF up] assms(3) k(1) unfolding padvances_def
    by (intro exI [of _ "B(slot := ?a)"]) simp
qed

lemma quorum_two: "2 \<le> k \<Longrightarrow> 2 \<le> quorum_of k"
  by (simp add: quorum_of_def)

lemma propose_advances:
  assumes sim: "pnode_sim N net B n s" and ok: "ballots_ok N B" and "n \<in> N" and two: "2 \<le> card N"
    and sound: "sound_propose s" and r: "paxos_propose e v s = Some (s', outs)"
  shows "padvances N net B n s' outs"
proof -
  let ?slot = "p_next_slot s"
  let ?i = "instance_at ?slot s"
  have small: "?slot < u64_max" and ab: "above (i_highest_promised ?i) (1, n)" using sound pnode_simD(2) [OF sim] by (simp_all add: sound_propose_def)
  note undec = enter_round_good(2) [OF pnode_simD(1) [OF sim] small]
  have not: "\<not> i_is_proposer ?i" using pnode_simD(7) [OF sim undec] by auto
  have empty: "i_promises_received ?i = {}" "i_accepts_received ?i = {}" "i_highest_accepted ?i = None"
    using pnode_simD(6) [OF sim undec] not by (simp_all add: proposer_sim_def)
  have "\<not> p_quorum_size s \<le> 1" using pnode_simD(3) [OF sim] quorum_two [OF two] by simp
  then have res: "s' = enter_round e v s" "outs = [Outgoing Broadcast (Prepare ?slot (1, n))]"
    using r pnode_simD(2,4) [OF sim] by (simp_all add: paxos_propose_def inner_propose_def propose_full_eq empty)
  show ?thesis unfolding res
  proof (rule fresh_round_advances [OF sim ok small assms(3) two undec ab])
    show "instance_ok (first_round e n v ?i)"
      using instance_at_ok [OF pnode_simD(1) [OF sim], of ?slot] by (simp add: instance_ok_def first_round_def)
    show "paxos_wf (enter_round e v s)" using enter_round_good(1) [OF pnode_simD(1) [OF sim] small] by (simp add: good_def)
  qed (use small not empty pnode_simD(2) [OF sim] in \<open>simp_all add: first_round_def enter_round_def set_instance_def fixed_of_def\<close>)
qed

lemma retry_advances:
  assumes sim: "pnode_sim N net B n s" and ok: "ballots_ok N B" and "n \<in> N" and two: "2 \<le> card N"
    and room: "\<And>i. hm_get (p_instances s) slot = Some i \<Longrightarrow> room i" and r: "retry_proposal e slot s = Some (s', outs)"
  shows "padvances N net B n s' outs"
proof (cases "\<exists>i. hm_get (p_instances s) slot = Some i \<and> \<not> i_decided i \<and> i_is_proposer i")
  case False
  with r have "s' = s" "outs = []" by (auto simp: retry_proposal_eq split: option.splits if_splits)
  then show ?thesis by (simp add: padvances_silent [OF ok sim])
next
  case True
  then obtain i where i: "hm_get (p_instances s) slot = Some i" "\<not> i_decided i" "i_is_proposer i" by blast
  note wf = paxos_wfD [OF pnode_simD(1) [OF sim] i(1)] and at = instance_at_eq [OF i(1)]
  note sims = pnode_simD(5-7) [OF sim wf(2), unfolded at]
  have res: "s' = set_instance slot (next_round e n i) s" "outs = [Outgoing Broadcast (Prepare slot (new_round i, n))]"
    using r i pnode_simD(2,3) [OF sim] quorum_two [OF two] by (simp_all add: retry_proposal_eq Let_def)
  have "fst (i_proposal_number i) < u64_max" "\<And>hp. i_highest_promised i = Some hp \<Longrightarrow> fst hp < u64_max"
    "\<And>r. i_highest_seen_nack i = Some r \<Longrightarrow> r < u64_max" using room [OF i(1)] by (auto simp: room_def)
  note up = new_round_above [OF this(2,3,1)]
  have less: "x < (new_round i, n)" if "fst x < new_round i" for x using that by (cases x) (simp add: less_prod_simp)
  have wf': "paxos_wf s'" using retry_good [OF pnode_simD(1) [OF sim] wf(3) r] by (simp add: good_def)
  show ?thesis unfolding res
  proof (rule fresh_round_advances [OF sim ok wf(3) assms(3) two wf(2)])
    show "above (i_highest_promised (instance_at slot s)) (new_round i, n)"
      using up(3) less by (simp add: at above_def split: option.split)
    show "i_proposal_number (instance_at slot s) < (new_round i, n)" using up(1) less by (simp add: at)
    show "1 \<le> new_round i" using up(1) by simp
    show "instance_ok (next_round e n i)" using wf(1) by (simp add: instance_ok_def next_round_def Let_def)
  qed (use i(3) sims(3) wf' res(1) at in \<open>simp_all add: next_round_def Let_def set_instance_def fixed_of_def\<close>)
qed

lemma padvances_trans:
  assumes "padvances N net B n s1 o1"
    and step: "\<And>B1. (\<forall>slot. grows n (B slot) (B1 slot)) \<Longrightarrow> ballots_ok N B1 \<Longrightarrow> pnode_sim N net B1 n s1 \<Longrightarrow> padvances N net B1 n s2 o2"
  shows "padvances N net B n s2 (o1 @ o2)"
proof -
  from assms(1) obtain B1 where B1: "\<forall>slot. grows n (B slot) (B1 slot)" "ballots_ok N B1" "pnode_sim N net B1 n s1"
    "\<forall>out\<in>set o1. message_sim N B1 n (o_message out)" unfolding padvances_def by blast
  from step [OF B1(1-3)] obtain B2 where B2: "\<forall>slot. grows n (B1 slot) (B2 slot)" "ballots_ok N B2" "pnode_sim N net B2 n s2"
    "\<forall>out\<in>set o2. message_sim N B2 n (o_message out)" unfolding padvances_def by blast
  have "\<forall>slot. grows n (B slot) (B2 slot)" using B1(1) B2(1) grows_trans by blast
  moreover have "\<forall>out\<in>set (o1 @ o2). message_sim N B2 n (o_message out)"
    using B1(4) B2(4) message_sim_grows [OF B2(1)] by auto
  ultimately show ?thesis using B2(2,3) unfolding padvances_def by blast
qed

lemma retry_other: "retry_proposal e slot s = Some (s', outs) \<Longrightarrow> sl \<noteq> slot \<Longrightarrow> hm_get (p_instances s') sl = hm_get (p_instances s) sl"
  by (auto simp: retry_proposal_eq Let_def set_instance_def remove_instance_def split: option.splits if_splits elim!: start_phase2_cases)

lemma retries_advance:
  assumes "pnode_sim N net B n s" and "ballots_ok N B" and "n \<in> N" and "2 \<le> card N" and "distinct slots"
    and "\<And>slot i. slot \<in> set slots \<Longrightarrow> hm_get (p_instances s) slot = Some i \<Longrightarrow> room i"
    and "retry_proposals e slots s = Some (s', outs)"
  shows "padvances N net B n s' outs"
  using assms
proof (induction slots arbitrary: s B outs)
  case Nil
  then show ?case by (simp add: padvances_silent)
next
  case (Cons slot slots)
  from Cons.prems(7) obtain s1 o1 o2 where 1: "retry_proposal e slot s = Some (s1, o1)" "retry_proposals e slots s1 = Some (s', o2)" "outs = o1 @ o2"
    by (auto simp: bind_eq_Some_conv)
  have room: "room i" if "sl \<in> set slots" "hm_get (p_instances s1) sl = Some i" for sl i
  proof -
    have "sl \<noteq> slot" using that(1) Cons.prems(5) by auto
    from retry_other [OF 1(1) this] that Cons.prems(6) [of sl i] show ?thesis by simp
  qed
  have "padvances N net B n s1 o1"
    by (rule retry_advances [OF Cons.prems(1-4) _ 1(1)]) (use Cons.prems(6) [of slot] in simp)
  then show ?case unfolding 1(3)
  proof (rule padvances_trans)
    fix B1 :: "nat \<Rightarrow> 'a slot_ballots"
    assume "ballots_ok N B1" "pnode_sim N net B1 n s1"
    then show "padvances N net B1 n s' o2"
      using Cons.prems(5) by (intro Cons.IH [OF _ _ Cons.prems(3,4) _ room 1(2)]) simp_all
  qed
qed

lemma tick_advances:
  assumes sim: "pnode_sim N net B n s" and ok: "ballots_ok N B" and "n \<in> N" and "2 \<le> card N"
    and sound: "sound_tick s" and r: "paxos_on_tick e s = Some (s', outs)"
  shows "padvances N net B n s' outs"
proof -
  from r obtain s1 o1 where 1: "retry_proposals e (get_retryable_proposals e s) s = Some (s1, o1)"
    by (auto simp: paxos_on_tick_def bind_eq_Some_conv)
  let ?d = "get_decision_rebroadcasts e s1"
  have "\<not> p_multi_paxos s1" using retry_proposals_fixed [OF 1] pnode_simD(4) [OF sim] by (simp add: fixed_of_def)
  with r 1 have res: "s' = fst ?d" "outs = o1 @ snd ?d"
    by (auto simp: paxos_on_tick_def get_decision_rebroadcasts_def Let_def)
  have wf: "hm_wf (p_instances s)" using pnode_simD(1) [OF sim] by (simp add: paxos_wf_def)
  then have "distinct (get_retryable_proposals e s)"
    by (simp add: get_retryable_proposals_def hm_wf_def distinct_map_filter)
  moreover have "room i" if "hm_get (p_instances s) slot = Some i" for slot i
    using sound that hm_in_set [OF wf] by (fastforce simp: sound_tick_def list_all_iff)
  ultimately have "padvances N net B n s1 o1" by (intro retries_advance [OF sim ok assms(3,4) _ _ 1])
  then show ?thesis unfolding res
  proof (rule padvances_trans)
    fix B1 assume b: "ballots_ok N B1" "pnode_sim N net B1 n s1"
    note recent = pnode_simD(9) [OF b(2)]
    have "paxos_wf (fst ?d)" using good_frame [OF pnode_simD(1) [OF b(2)], of "fst ?d"]
      by (simp add: good_def get_decision_rebroadcasts_def Let_def)
    then have "pnode_sim N net B1 n (fst ?d)"
      using b(2) by (auto simp: pnode_sim_def get_decision_rebroadcasts_def Let_def instance_at_def fixed_of_def)
    then show "padvances N net B1 n (fst ?d) (snd ?d)"
      by (rule padvances_same [OF b(1)]) (use recent in \<open>auto simp: get_decision_rebroadcasts_def Let_def\<close>)
  qed
qed

subsection \<open>Messages\<close>

lemma message_advances:
  assumes sim: "pnode_sim N net B n s" and ok: "ballots_ok N B" and net: "\<And>x y m. (x, y, m) \<in> net \<Longrightarrow> message_sim N B x m"
    and fin: "finite N" and "n \<in> N" and "m \<in> N" and msg: "(m, n, msg) \<in> net"
    and sound: "sound_message m msg s" and r: "paxos_handle_message e m msg s = Some (s', outs)"
  shows "padvances N net B n s' outs"
proof -
  note ms = net [OF msg] and mp = pnode_simD(4) [OF sim]
  show ?thesis
  proof (cases msg)
    case (Prepare slot b)
    with handle_prepare_advances [OF sim ok, of slot b m] ms r show ?thesis by (simp add: paxos_handle_message_def)
  next
    case (Promise slot b acc)
    with r have "handle_promise e m slot b acc s = Some (s', outs)" by (simp add: paxos_handle_message_def)
    from handle_promise_advances [OF sim ok net fin assms(5,6) msg [unfolded Promise] sound [unfolded Promise] this] show ?thesis .
  next
    case (Accept slot b v)
    with handle_accept_advances [OF sim ok, of slot b v m] ms r show ?thesis by (simp add: paxos_handle_message_def)
  next
    case (Accepted slot b v)
    with r have "handle_accepted e m slot b s = Some (s', outs)" by (simp add: paxos_handle_message_def)
    with handle_accepted_advances [OF sim ok fin assms(6) _ _ sound [unfolded Accepted]] ms Accepted show ?thesis by simp
  next
    case (Decide slot v)
    with handle_decide_advances [OF sim ok, of slot v e m] ms r show ?thesis by (simp add: paxos_handle_message_def)
  qed (use r mp handle_nack_advances [OF sim ok] padvances_silent [OF ok sim] in \<open>auto simp: paxos_handle_message_def\<close>)
qed

section \<open>Careful runs\<close>

lemma psim_advance:
  assumes sim: "psim N B c" and "n \<in> N" and adv: "padvances N (pc_net c) B n s' outs"
  shows "\<exists>B'. psim N B' \<lparr>pc_node = (pc_node c)(n := s'), pc_net = pc_net c \<union> sends N n outs\<rparr>"
proof -
  from adv obtain B' where B': "\<forall>slot. grows n (B slot) (B' slot)" "ballots_ok N B'" "pnode_sim N (pc_net c) B' n s'"
    "\<forall>out\<in>set outs. message_sim N B' n (o_message out)" unfolding padvances_def by blast
  let ?net = "pc_net c \<union> sends N n outs"
  have "pnode_sim N ?net B' m (((pc_node c)(n := s')) m)" if "m \<in> N" for m
  proof (cases "m = n")
    case True
    with pnode_sim_net [OF B'(3)] show ?thesis by simp
  next
    case False
    have "pnode_sim N (pc_net c) B m (pc_node c m)" using sim that by (simp add: psim_def)
    with pnode_sim_other [OF this False B'(1), of ?net] False show ?thesis by simp
  qed
  moreover have "x \<in> N \<and> y \<in> N \<and> message_sim N B' x m" if "(x, y, m) \<in> ?net" for x y m
  proof (cases "(x, y, m) \<in> pc_net c")
    case True
    with sim have "x \<in> N \<and> y \<in> N \<and> message_sim N B x m" by (auto simp: psim_def)
    with message_sim_grows [OF B'(1)] show ?thesis by blast
  next
    case False
    with that B'(4) assms(2) show ?thesis by (auto simp: sends_def)
  qed
  ultimately show ?thesis using B'(2) unfolding psim_def by (intro exI [of _ B']) auto
qed

lemma psim_frame:
  assumes "psim N B c" and "n \<in> N" and "p_instances s' = p_instances (pc_node c n)" "p_decided_slots s' = p_decided_slots (pc_node c n)"
    "p_recent_decisions s' = p_recent_decisions (pc_node c n)" "p_next_slot s' = p_next_slot (pc_node c n)"
    "p_election s' = p_election (pc_node c n)" "fixed_of s' = fixed_of (pc_node c n)"
  shows "psim N B (c\<lparr>pc_node := (pc_node c)(n := s')\<rparr>)"
  using assms by (simp add: psim_def pnode_sim_def paxos_wf_def instance_at_def)

lemma pstep_refines:
  assumes step: "pstep True ops N c c'" and sim: "psim N B c" and fin: "finite N" and two: "2 \<le> card N"
  shows "\<exists>B'. psim N B' c'"
proof -
  have ok: "ballots_ok N B" using sim by (simp add: psim_def)
  have node: "pnode_sim N (pc_net c) B n (pc_node c n)" if "n \<in> N" for n using sim that by (simp add: psim_def)
  have net: "message_sim N B x m" if "(x, y, m) \<in> pc_net c" for x y m using sim that by (auto simp: psim_def)
  from step show ?thesis
  proof cases
    case (propose n e v s' outs)
    then show ?thesis using psim_advance [OF sim _ propose_advances [OF node ok _ two]] by simp
  next
    case (tick n e s' outs)
    then show ?thesis using psim_advance [OF sim _ tick_advances [OF node ok _ two]] by simp
  next
    case (deliver m n msg e s' outs)
    have "m \<in> N" "n \<in> N" using deliver(2) sim by (auto simp: psim_def)
    with deliver show ?thesis using psim_advance [OF sim _ message_advances [OF node ok net fin]] by simp
  next
    case (drain n r s')
    then show ?thesis
      by (intro exI [of _ B]) (auto simp: paxos_drain_decisions_def paxos_take_decisions_def fixed_of_def Let_def split: prod.splits intro!: psim_frame [OF sim])
  next
    case (take_lost n lost s')
    then show ?thesis
      by (intro exI [of _ B]) (auto simp: paxos_take_lost_proposals_def fixed_of_def intro!: psim_frame [OF sim])
  qed
qed

lemma paxos_runs_refine:
  assumes init: "pcluster_init N c0" and run: "(pstep True ops N)\<^sup>*\<^sup>* c0 c" and fin: "finite N" and two: "2 \<le> card N"
  shows "\<exists>B. psim N B c"
  using run
proof (induction rule: rtranclp_induct)
  case base
  have "pnode_sim N (pc_net c0) (\<lambda>_. ballots_init) n (pc_node c0 n)" if "n \<in> N" for n
  proof -
    from init that obtain e cfg st where s: "pc_node c0 n = paxos_new_with_config False e n (card N) cfg st"
      unfolding pcluster_init_def by blast
    have "paxos_wf (pc_node c0 n)" unfolding s by (rule paxos_new_wf)
    then show ?thesis
      by (simp add: pnode_sim_def s paxos_new_with_config_def fixed_of_def quorum_of_def instance_at_def acceptor_sim_def
          proposer_sim_def paxos_instance_new_def ballots_init_def)
  qed
  moreover have "ballots_ok N (\<lambda>_. ballots_init)" by (simp add: ballots_ok_def breach_def) (simp add: ballots_init_def)
  ultimately have "psim N (\<lambda>_. ballots_init) c0" using init by (simp add: psim_def pcluster_init_def)
  then show ?case by blast
next
  case (step c c')
  then show ?case using pstep_refines fin two by blast
qed

lemma careful_agree:
  assumes "pcluster_init N c0" and "(pstep True ops N)\<^sup>*\<^sup>* c0 c" and "finite N" and "2 \<le> card N" and "n \<in> N" and "m \<in> N"
    and "hm_get (p_decided_slots (pc_node c n)) slot = Some v" and "hm_get (p_decided_slots (pc_node c m)) slot = Some w"
  shows "v = w"
proof -
  from paxos_runs_refine [OF assms(1-4)] obtain B where B: "psim N B c" by blast
  then have "pnode_sim N (pc_net c) B n (pc_node c n)" "pnode_sim N (pc_net c) B m (pc_node c m)" using assms(5,6) by (simp_all add: psim_def)
  from pnode_simD(8) [OF this(1) assms(7)] pnode_simD(8) [OF this(2) assms(8)] obtain b b' where
    "chosen (majority N) (B slot) b v" "chosen (majority N) (B slot) b' w" by blast
  moreover have "breach (majority N) (B slot)" using B by (auto simp: psim_def intro: breachB(1))
  ultimately show ?thesis by (metis majorities.at_most_one_chosen)
qed

declare split_paired_All [simp] split_paired_Ex [simp] less_eq_prod_simp [simp] less_prod_simp [simp]

end
