(* ===== verification/PaxosRun.thy ===== *)
theory PaxosRun
  imports PaxosCluster "HOL-Library.Code_Target_Nat"
begin

text \<open>
  Runs of a Paxos cluster as lists of events that can be executed, and the properties of whole
  clusters: careful runs agree, and runs of the code as it is may disagree or panic.
\<close>

section \<open>Executing events\<close>

datatype 'v pevent =
    PPropose node_id env 'v
  | PTick node_id env
  | PDeliver node_id node_id "'v paxos_message" env

lemma sends_code [code]:
  "sends N n outs = (\<Union>out\<in>set outs. (\<lambda>y. (n, y, o_message out)) `
     Set.filter (\<lambda>y. o_target out = Peer y \<or> o_target out = Broadcast) (N - {n}))"
  by (auto simp: sends_def)

definition enter :: "node_id set \<Rightarrow> node_id \<Rightarrow> (('v, 's) paxos_protocol \<times> 'v paxos_out) option \<Rightarrow> ('v, 's) pcluster \<Rightarrow> ('v, 's) pcluster option" where
  "enter N n r c = map_option (\<lambda>(s', outs). \<lparr>pc_node = (pc_node c)(n := s'), pc_net = pc_net c \<union> sends N n outs\<rparr>) r"

fun pexec :: "bool \<Rightarrow> node_id set \<Rightarrow> 'v pevent \<Rightarrow> ('v, 's) pcluster \<Rightarrow> ('v, 's) pcluster option" where
  "pexec careful N (PPropose n e v) c =
     (if n \<in> N \<and> (\<not> careful \<or> sound_propose (pc_node c n)) then enter N n (paxos_propose e v (pc_node c n)) c else None)"
| "pexec careful N (PTick n e) c =
     (if n \<in> N \<and> (\<not> careful \<or> sound_tick (pc_node c n)) then enter N n (paxos_on_tick e (pc_node c n)) c else None)"
| "pexec careful N (PDeliver m n msg e) c =
     (if (m, n, msg) \<in> pc_net c \<and> (\<not> careful \<or> sound_message m msg (pc_node c n))
      then enter N n (paxos_handle_message e m msg (pc_node c n)) c else None)"

fun pexecs :: "bool \<Rightarrow> node_id set \<Rightarrow> 'v pevent list \<Rightarrow> ('v, 's) pcluster \<Rightarrow> ('v, 's) pcluster option" where
  "pexecs careful N [] c = Some c"
| "pexecs careful N (ev # evs) c = Option.bind (pexec careful N ev c) (pexecs careful N evs)"

lemma pexec_step: "pexec careful N ev c = Some c' \<Longrightarrow> pstep careful ops N c c'"
  by (cases ev) (auto simp: enter_def split: if_splits intro: pstep.intros)

lemma pexecs_steps: "pexecs careful N evs c = Some c' \<Longrightarrow> (pstep careful ops N)\<^sup>*\<^sup>* c c'"
  by (induction evs arbitrary: c) (auto simp: bind_eq_Some_conv intro: converse_rtranclp_into_rtranclp pexec_step)

definition ptrio :: "node_id set" where
  "ptrio = {pn1, pn2, pn3}"

definition pcluster0 :: "node_id set \<Rightarrow> (nat, nat paxos_memory_storage) pcluster" where
  "pcluster0 N = \<lparr>pc_node = (\<lambda>n. paxos_new_with_config False penv n (card N) paxos_config_default paxos_memory_storage_new), pc_net = {}\<rparr>"

lemma pcluster0_init: "pcluster_init N (pcluster0 N)"
  by (auto simp: pcluster_init_def pcluster0_def)

lemma ptrio_finite: "finite ptrio" "2 \<le> card ptrio" "pn1 \<in> ptrio" "pn2 \<in> ptrio"
  by (simp_all add: ptrio_def pn1_def pn2_def pn3_def)

section \<open>Agreement\<close>

definition prun1 :: "nat pevent list" where
  "prun1 = [PPropose pn1 penv 7, PDeliver pn1 pn2 (Prepare 0 (1, pn1)) penv, PDeliver pn2 pn1 (Promise 0 (1, pn1) None) penv,
     PDeliver pn1 pn2 (Accept 0 (1, pn1) 7) penv, PDeliver pn2 pn1 (Accepted 0 (1, pn1) 7) penv]"

definition prun2 :: "nat pevent list" where
  "prun2 = [PPropose pn2 penv 8, PDeliver pn2 pn3 (Prepare 0 (1, pn2)) penv, PDeliver pn3 pn2 (Promise 0 (1, pn2) None) penv,
     PDeliver pn2 pn3 (Accept 0 (1, pn2) 8) penv, PDeliver pn3 pn2 (Accepted 0 (1, pn2) 8) penv]"

lemma prun1_eval:
  "map_option (\<lambda>c. (hm_get (p_decided_slots (pc_node c pn1)) 0, hm_get (p_decided_slots (pc_node c pn2)) 0))
     (pexecs True ptrio (prun1 @ [PDeliver pn1 pn2 (Decide 0 7) penv]) (pcluster0 ptrio)) = Some (Some 7, Some 7)"
  by code_simp

lemma prun2_eval:
  "map_option (\<lambda>c. (hm_get (p_decided_slots (pc_node c pn1)) 0, hm_get (p_decided_slots (pc_node c pn2)) 0))
     (pexecs False ptrio (prun1 @ prun2) (pcluster0 ptrio)) = Some (Some 7, Some 8)"
  by code_simp

text \<open>
  C19. Agreement of careful Paxos clusters. Over a network that loses, duplicates and reorders
  messages, in the default build, with at least two nodes that do not restart, no two nodes decide
  different values for a slot - in every run in which (1) a node proposes only where its own promise
  is below its first number, (2) a quorum of promises starts phase 2 only with a value that takes
  the node's own vote into account, and a later promise does not change it, (3) a node decides only
  by a vote of its own at the ballot or above, and (4) rounds and slots stay below the largest
  number. The code checks none of the four.
\<close>

theorem paxos_careful_agreement:
  assumes "pcluster_init N c0" and "(pstep True ops N)\<^sup>*\<^sup>* c0 c" and "finite N" and "2 \<le> card N" and "n \<in> N" and "m \<in> N"
    and "hm_get (p_decided_slots (pc_node c n)) slot = Some v" and "hm_get (p_decided_slots (pc_node c m)) slot = Some w"
  shows "v = w"
  by (rule careful_agree [OF assms])

theorem paxos_careful_agreement_witness:
  "\<exists>c. (pstep True paxos_memory_ops ptrio)\<^sup>*\<^sup>* (pcluster0 ptrio) c
     \<and> hm_get (p_decided_slots (pc_node c pn1)) 0 = Some 7 \<and> the (hm_get (p_decided_slots (pc_node c pn2)) 0) = 7"
proof -
  obtain c where c: "pexecs True ptrio (prun1 @ [PDeliver pn1 pn2 (Decide 0 7) penv]) (pcluster0 ptrio) = Some c"
    using prun1_eval by (cases "pexecs True ptrio (prun1 @ [PDeliver pn1 pn2 (Decide 0 7) penv]) (pcluster0 ptrio)") simp_all
  then have d: "hm_get (p_decided_slots (pc_node c pn1)) 0 = Some 7" "\<exists>w. hm_get (p_decided_slots (pc_node c pn2)) 0 = Some w"
    using prun1_eval by simp_all
  note run = pexecs_steps [OF c, where ops = paxos_memory_ops]
  have "the (hm_get (p_decided_slots (pc_node c pn2)) 0) = 7"
    by (rule paxos_careful_agreement [OF pcluster0_init run ptrio_finite(1,2,4,3) _ d(1)]) (use d(2) in auto)
  with d(1) run show ?thesis by blast
qed

text \<open>
  C20. Without the checks the nodes can disagree. A node that has accepted a value for a slot it has not
  seen decided proposes a value of its own there: it overwrites its promise and does not report its
  vote to itself, so that one other promise is enough for a second choice.
\<close>

theorem paxos_disagreement:
  "\<exists>c. (pstep False paxos_memory_ops ptrio)\<^sup>*\<^sup>* (pcluster0 ptrio) c
     \<and> hm_get (p_decided_slots (pc_node c pn1)) 0 = Some 7 \<and> hm_get (p_decided_slots (pc_node c pn2)) 0 = Some 8"
proof -
  obtain c where c: "pexecs False ptrio (prun1 @ prun2) (pcluster0 ptrio) = Some c"
    using prun2_eval by (cases "pexecs False ptrio (prun1 @ prun2) (pcluster0 ptrio)") simp_all
  from pexecs_steps [OF c, where ops = paxos_memory_ops] c prun2_eval show ?thesis by auto
qed

section \<open>A reachable panic\<close>

text \<open>
  A proposer that has promised a higher number cannot accept its own value; when its proposal is
  accepted by a quorum of others all the same, \<open>handle_accepted\<close> unwraps a value it never accepted.
\<close>

definition pn4 :: node_id where "pn4 = NodeId ''d'' 0"
definition pn5 :: node_id where "pn5 = NodeId ''e'' 0"

definition pquint :: "node_id set" where
  "pquint = {pn1, pn2, pn3, pn4, pn5}"

definition prun3 :: "nat pevent list" where
  "prun3 = [PPropose pn1 penv 7, PPropose pn2 penv 8,
     PDeliver pn1 pn3 (Prepare 0 (1, pn1)) penv, PDeliver pn1 pn4 (Prepare 0 (1, pn1)) penv, PDeliver pn1 pn5 (Prepare 0 (1, pn1)) penv,
     PDeliver pn2 pn1 (Prepare 0 (1, pn2)) penv,
     PDeliver pn3 pn1 (Promise 0 (1, pn1) None) penv, PDeliver pn4 pn1 (Promise 0 (1, pn1) None) penv,
     PDeliver pn1 pn3 (Accept 0 (1, pn1) 7) penv, PDeliver pn1 pn4 (Accept 0 (1, pn1) 7) penv, PDeliver pn1 pn5 (Accept 0 (1, pn1) 7) penv,
     PDeliver pn3 pn1 (Accepted 0 (1, pn1) 7) penv, PDeliver pn4 pn1 (Accepted 0 (1, pn1) 7) penv]"

lemma prun3_eval:
  "map_option (\<lambda>c. ((pn5, pn1, Accepted 0 (1, pn1) 7) \<in> pc_net c,
       paxos_handle_message penv pn5 (Accepted 0 (1, pn1) 7) (pc_node c pn1) = None))
     (pexecs False pquint prun3 (pcluster0 pquint)) = Some (True, True)"
  by code_simp

theorem paxos_panic_reachable:
  "\<exists>c. (pstep False paxos_memory_ops pquint)\<^sup>*\<^sup>* (pcluster0 pquint) c \<and> (pn5, pn1, Accepted 0 (1, pn1) 7) \<in> pc_net c
     \<and> paxos_handle_message penv pn5 (Accepted 0 (1, pn1) 7) (pc_node c pn1) = None"
proof -
  obtain c where c: "pexecs False pquint prun3 (pcluster0 pquint) = Some c"
    using prun3_eval by (cases "pexecs False pquint prun3 (pcluster0 pquint)") simp_all
  from pexecs_steps [OF c, where ops = paxos_memory_ops] c prun3_eval show ?thesis by auto
qed

end
