(* ===== verification/DemoService.thy ===== *)
theory DemoService
  imports Node
begin

text \<open>
  The gRPC service of \<open>daccord-demo/src/service.rs\<close>: the decision log, the watch stream, paging, and
  the translation of node states and errors to the wire. The broadcast channel is the list of the
  decisions sent on it and what a subscriber receives from it; a stream is the list of its items.
\<close>

section \<open>Messages and status codes\<close>

record 'p wire_decision =
  wd_slot :: u64
  wd_payload :: 'p

record status_response =
  sr_node_id :: string
  sr_algorithm :: string
  sr_role :: string
  sr_term :: u64
  sr_leader_id :: string
  sr_log_len :: u64
  sr_commit_index :: "u64 option"
  sr_last_applied :: "u64 option"

text \<open>The codes of \<open>tonic::Code\<close> that the service and the client name; the rest of them.\<close>

datatype code = Unavailable | ResourceExhausted | DeadlineExceeded | Aborted | OtherCode nat

datatype status = Status (st_code: code) (st_message: string)

definition DEFAULT_GET_LIMIT :: nat where
  "DEFAULT_GET_LIMIT = 1000"

datatype algorithm = AlgPaxos | AlgRaft

definition algorithm_as_str :: "algorithm \<Rightarrow> string" where
  "algorithm_as_str a = (case a of AlgPaxos \<Rightarrow> ''paxos'' | AlgRaft \<Rightarrow> ''raft'')"

section \<open>Binary search\<close>

text \<open>
  \<open>slice::binary_search_by_key\<close> of the standard library: bisection of the window \<open>[lo, hi)\<close>. On a
  slice sorted by the key it finds the key, or the place to insert it.
\<close>

function bisect :: "('a \<Rightarrow> u64) \<Rightarrow> u64 \<Rightarrow> 'a list \<Rightarrow> nat \<Rightarrow> nat \<Rightarrow> (nat, nat) result" where
  "bisect key k xs lo hi =
     (if lo < hi then
        let mid = lo + (hi - lo) div 2; x = key (xs ! mid) in
        if x = k then Ok mid
        else if x < k then bisect key k xs (mid + 1) hi
        else bisect key k xs lo mid
      else Err lo)"
  by auto

termination by (relation "measure (\<lambda>(key, k, xs, lo, hi). hi - lo)") auto

declare bisect.simps [simp del]

definition binary_search_by_key :: "('a \<Rightarrow> u64) \<Rightarrow> u64 \<Rightarrow> 'a list \<Rightarrow> (nat, nat) result" where
  "binary_search_by_key key k xs = bisect key k xs 0 (length xs)"

lemma bisect_spec:
  assumes "sorted_wrt (<) (map key xs)" and "hi \<le> length xs" and "lo \<le> hi"
    and "\<And>i. i < lo \<Longrightarrow> key (xs ! i) < k" and "\<And>i. hi \<le> i \<Longrightarrow> i < length xs \<Longrightarrow> k < key (xs ! i)"
  shows "case bisect key k xs lo hi of
      Ok i \<Rightarrow> i < length xs \<and> key (xs ! i) = k
    | Err p \<Rightarrow> p \<le> length xs \<and> (\<forall>i<p. key (xs ! i) < k) \<and> (\<forall>i. p \<le> i \<longrightarrow> i < length xs \<longrightarrow> k < key (xs ! i))"
  using assms
proof (induction key k xs lo hi rule: bisect.induct)
  case (1 key k xs lo hi)
  let ?mid = "lo + (hi - lo) div 2"
  have mono: "key (xs ! i) < key (xs ! j)" if "i < j" "j < length xs" for i j
    using 1(3) that by (simp add: sorted_wrt_iff_nth_less)
  show ?case
  proof (cases "lo < hi")
    case True
    then have mid: "?mid < hi" "lo \<le> ?mid" by simp_all
    show ?thesis
    proof (cases "key (xs ! ?mid)" k rule: linorder_cases)
      case less
      then have "key (xs ! i) < k" if "i < ?mid + 1" for i
        using that mono [of i ?mid] mid 1(4) by (cases "i = ?mid") auto
      with less True mid 1(1) [OF True refl refl] 1(3-7) show ?thesis by (subst bisect.simps) (simp add: Let_def)
    next
      case equal
      with True mid 1(4) show ?thesis by (subst bisect.simps) (simp add: Let_def)
    next
      case greater
      then have "k < key (xs ! i)" if "?mid \<le> i" "i < length xs" for i
        using that mono [of ?mid i] by (cases "i = ?mid") auto
      moreover have "\<not> key (xs ! ?mid) < k" "key (xs ! ?mid) \<noteq> k" using greater by auto
      ultimately show ?thesis using True mid 1(2) [OF True refl refl] 1(3-7) by (subst bisect.simps) (simp add: Let_def)
    qed
  next
    case False
    with 1(4-7) show ?thesis by (subst bisect.simps) auto
  qed
qed

lemma binary_search_spec:
  assumes "sorted_wrt (<) (map key xs)"
  shows "case binary_search_by_key key k xs of
      Ok i \<Rightarrow> i < length xs \<and> key (xs ! i) = k
    | Err p \<Rightarrow> p \<le> length xs \<and> (\<forall>i<p. key (xs ! i) < k) \<and> (\<forall>i. p \<le> i \<longrightarrow> i < length xs \<longrightarrow> k < key (xs ! i))"
  unfolding binary_search_by_key_def by (rule bisect_spec [OF assms]) simp_all

section \<open>The decision log\<close>

type_synonym 'p decision_log = "'p wire_decision list"

definition insert_at :: "nat \<Rightarrow> 'a \<Rightarrow> 'a list \<Rightarrow> 'a list" where
  "insert_at p x xs = take p xs @ x # drop p xs"

text \<open>\<open>append\<close> returns what it sends on the broadcast channel.\<close>

definition log_append :: "'p wire_decision \<Rightarrow> 'p decision_log \<Rightarrow> 'p wire_decision list \<times> 'p decision_log" where
  "log_append d entries =
     (case binary_search_by_key wd_slot (wd_slot d) entries of
        Ok _ \<Rightarrow> ([], entries)
      | Err p \<Rightarrow> ([d], insert_at p d entries))"

fun range_loop :: "nat \<Rightarrow> 'p wire_decision list \<Rightarrow> u64 \<Rightarrow> 'p wire_decision list \<Rightarrow> 'p wire_decision list \<times> u64" where
  "range_loop limit [] next_slot out = (out, next_slot)"
| "range_loop limit (d # ds) next_slot out =
     (if length out \<ge> limit \<or> wd_slot d \<noteq> next_slot then (out, next_slot)
      else range_loop limit ds (u64_saturating_add next_slot 1) (out @ [d]))"

definition log_range :: "u64 \<Rightarrow> nat \<Rightarrow> 'p decision_log \<Rightarrow> 'p wire_decision list \<times> u64" where
  "log_range start_slot limit entries =
     (case binary_search_by_key wd_slot start_slot entries of
        Ok pos \<Rightarrow> range_loop limit (drop pos entries) start_slot []
      | Err _ \<Rightarrow> ([], start_slot))"

text \<open>\<open>collect_decisions\<close>: every decision received from the node is appended.\<close>

fun service_collect_decisions :: "'p decided list \<Rightarrow> 'p decision_log \<Rightarrow> 'p wire_decision list \<times> 'p decision_log" where
  "service_collect_decisions [] entries = ([], entries)"
| "service_collect_decisions (d # ds) entries =
     (let (sent, entries1) = log_append \<lparr>wd_slot = dc_slot d, wd_payload = dc_value d\<rparr> entries;
          (sent', entries2) = service_collect_decisions ds entries1
      in (sent @ sent', entries2))"

section \<open>Watch\<close>

record 'p watcher =
  w_next_slot :: u64
  w_buffered :: "(u64, 'p wire_decision) hashmap"

function drain_buffered :: "'p watcher \<Rightarrow> 'p wire_decision list \<times> 'p watcher" where
  "drain_buffered w =
     (case hm_get (w_buffered w) (w_next_slot w) of
        None \<Rightarrow> ([], w)
      | Some d \<Rightarrow>
          let (ds, w') = drain_buffered
                \<lparr>w_next_slot = u64_saturating_add (w_next_slot w) 1, w_buffered = hm_remove (w_next_slot w) (w_buffered w)\<rparr>
          in (d # ds, w'))"
  by auto

termination
proof (relation "measure (\<lambda>w. length (w_buffered w))", simp)
  fix w :: "'p watcher" and d
  assume "hm_get (w_buffered w) (w_next_slot w) = Some d"
  then have "(w_next_slot w, d) \<in> set (w_buffered w)" by (simp add: hm_get_def map_of_SomeD)
  then show "(\<lparr>w_next_slot = u64_saturating_add (w_next_slot w) 1, w_buffered = hm_remove (w_next_slot w) (w_buffered w)\<rparr>, w)
      \<in> measure (\<lambda>w. length (w_buffered w))"
    by (auto simp: hm_remove_def AList.delete_eq intro!: length_filter_less)
qed

declare drain_buffered.simps [simp del]

text \<open>The body of both loops over decisions.\<close>

definition watch_decision :: "'p wire_decision \<Rightarrow> 'p watcher \<Rightarrow> 'p wire_decision list \<times> 'p watcher" where
  "watch_decision d w =
     (if wd_slot d < w_next_slot w then ([], w)
      else if wd_slot d = w_next_slot w then
        let (ds, w') = drain_buffered (w\<lparr>w_next_slot := u64_saturating_add (w_next_slot w) 1\<rparr>) in (d # ds, w')
      else ([], if hm_contains (w_buffered w) (wd_slot d) then w
                else w\<lparr>w_buffered := hm_insert (wd_slot d) d (w_buffered w)\<rparr>))"

text \<open>What \<open>rx.recv()\<close> yields.\<close>

datatype 'p received = Live "'p wire_decision" | Lagged | ChannelClosed

fun watch_all :: "'p wire_decision list \<Rightarrow> 'p watcher \<Rightarrow> 'p wire_decision list \<times> 'p watcher" where
  "watch_all [] w = ([], w)"
| "watch_all (d # ds) w =
     (let (ys, w1) = watch_decision d w; (ys', w2) = watch_all ds w1 in (ys @ ys', w2))"

definition lagged_status :: status where
  "lagged_status = Status ResourceExhausted ''watch lagged behind, reconnect with start_index = next expected slot''"

fun watch_live :: "'p received list \<Rightarrow> 'p watcher \<Rightarrow> ('p wire_decision, status) result list" where
  "watch_live [] w = []"
| "watch_live (Live d # es) w = (let (ys, w1) = watch_decision d w in map Ok ys @ watch_live es w1)"
| "watch_live (Lagged # es) w = [Err lagged_status]"
| "watch_live (ChannelClosed # es) w = []"

definition watch_decisions :: "u64 \<Rightarrow> 'p decision_log \<Rightarrow> 'p received list \<Rightarrow> ('p wire_decision, status) result list" where
  "watch_decisions start_index snapshot es =
     (let (ys, w) = watch_all snapshot \<lparr>w_next_slot = start_index, w_buffered = []\<rparr>
      in map Ok ys @ watch_live es w)"

section \<open>Requests\<close>

text \<open>\<open>answer\<close> is what \<open>NodeHandle::propose\<close> returned.\<close>

definition service_propose :: "('p decided, propose_error) result \<Rightarrow> ('p wire_decision, status) result" where
  "service_propose answer =
     (case answer of
        Ok decided \<Rightarrow> Ok \<lparr>wd_slot = dc_slot decided, wd_payload = dc_value decided\<rparr>
      | Err ChannelFull \<Rightarrow> Err (Status ResourceExhausted ''proposal channel full'')
      | Err NotRunning \<Rightarrow> Err (Status Unavailable ''node is not running'')
      | Err Cancelled \<Rightarrow> Err (Status Unavailable ''node was shut down before proposal was decided'')
      | Err Superseded \<Rightarrow> Err (Status Aborted ''proposal was superseded by another leader''))"

definition service_get_decisions ::
  "u64 \<Rightarrow> nat option \<Rightarrow> 'p decision_log \<Rightarrow> 'p wire_decision list \<times> u64" where
  "service_get_decisions start_index limit entries =
     (let limit' = (case limit of Some n \<Rightarrow> (if n \<noteq> 0 then n else DEFAULT_GET_LIMIT) | None \<Rightarrow> DEFAULT_GET_LIMIT)
      in log_range start_index limit' entries)"

text \<open>The comparison with the configured algorithm only logs a warning.\<close>

definition project_status :: "node_state \<Rightarrow> status_response" where
  "project_status state =
     \<lparr>sr_node_id = node_id_fmt (ns_node_id state),
      sr_algorithm = (case ns_algorithm state of PaxosAlgorithm \<Rightarrow> ''paxos'' | RaftAlgorithm \<Rightarrow> ''raft''),
      sr_role = (case ns_role state of
          Some Follower \<Rightarrow> ''follower'' | Some Candidate \<Rightarrow> ''candidate'' | Some Leader \<Rightarrow> ''leader'' | None \<Rightarrow> ''n/a''),
      sr_term = ns_term state,
      sr_leader_id = (case ns_leader state of Some n \<Rightarrow> node_id_fmt n | None \<Rightarrow> ''''),
      sr_log_len = ns_log_len state, sr_commit_index = ns_commit_index state, sr_last_applied = ns_last_applied state\<rparr>"

section \<open>The log keeps one decision per slot, in order\<close>

definition log_ok :: "'p decision_log \<Rightarrow> bool" where
  "log_ok entries \<longleftrightarrow> sorted_wrt (<) (map wd_slot entries)"

lemma sorted_insert_at:
  fixes ks :: "nat list"
  assumes "sorted_wrt (<) ks" and "p \<le> length ks" and "\<forall>i<p. ks ! i < k" and "\<forall>i. p \<le> i \<longrightarrow> i < length ks \<longrightarrow> k < ks ! i"
  shows "sorted_wrt (<) (insert_at p k ks)"
proof -
  have "sorted_wrt (<) (take p ks @ drop p ks)" using assms(1) by simp
  then have "sorted_wrt (<) (take p ks)" "sorted_wrt (<) (drop p ks)" "\<forall>x\<in>set (take p ks). \<forall>y\<in>set (drop p ks). x < y"
    unfolding sorted_wrt_append by blast+
  moreover have "\<forall>x\<in>set (take p ks). x < k" using assms(2,3) by (auto simp: in_set_conv_nth)
  moreover have "\<forall>y\<in>set (drop p ks). k < y" using assms(4) by (auto simp: in_set_conv_nth)
  ultimately show ?thesis by (auto simp: insert_at_def sorted_wrt_append)
qed

lemma log_append_spec:
  assumes ok: "log_ok entries" and r: "log_append d entries = (sent, entries')"
  shows "log_ok entries'"
    and "set entries' = (if wd_slot d \<in> wd_slot ` set entries then set entries else insert d (set entries))"
    and "sent = (if wd_slot d \<in> wd_slot ` set entries then [] else [d])"
proof -
  note spec = binary_search_spec [OF ok [unfolded log_ok_def], of "wd_slot d"]
  have "log_ok entries' \<and> set entries' = (if wd_slot d \<in> wd_slot ` set entries then set entries else insert d (set entries))
     \<and> sent = (if wd_slot d \<in> wd_slot ` set entries then [] else [d])"
  proof (cases "binary_search_by_key wd_slot (wd_slot d) entries")
    case (Ok i)
    with spec have "i < length entries" "wd_slot (entries ! i) = wd_slot d" by simp_all
    then have "wd_slot d \<in> wd_slot ` set entries" by (metis imageI nth_mem)
    with Ok r ok show ?thesis by (simp add: log_append_def)
  next
    case (Err p)
    with spec have p: "p \<le> length entries" "\<forall>i<p. wd_slot (entries ! i) < wd_slot d"
      "\<forall>i. p \<le> i \<longrightarrow> i < length entries \<longrightarrow> wd_slot d < wd_slot (entries ! i)" by simp_all
    have "wd_slot (entries ! i) \<noteq> wd_slot d" if "i < length entries" for i
      using p(2) p(3) [rule_format, of i] that by (cases "i < p") (auto simp: not_less)
    then have "wd_slot d \<notin> wd_slot ` set entries" by (force simp: in_set_conv_nth)
    moreover have "map wd_slot (insert_at p d entries) = insert_at p (wd_slot d) (map wd_slot entries)"
      by (simp add: insert_at_def take_map drop_map)
    then have "log_ok (insert_at p d entries)"
      using sorted_insert_at [of "map wd_slot entries" p "wd_slot d"] ok p by (simp add: log_ok_def)
    moreover have "set (insert_at p d entries) = insert d (set entries)"
      using append_take_drop_id [of p entries] set_append [of "take p entries" "drop p entries"] by (auto simp: insert_at_def)
    moreover have "sent = [d]" "entries' = insert_at p d entries" using Err r by (simp_all add: log_append_def)
    ultimately show ?thesis by simp
  qed
  then show "log_ok entries'" "set entries' = (if wd_slot d \<in> wd_slot ` set entries then set entries else insert d (set entries))"
    "sent = (if wd_slot d \<in> wd_slot ` set entries then [] else [d])" by blast+
qed

text \<open>What the log holds after any decisions, in any order and with repetitions.\<close>

definition agreeing :: "(u64 \<Rightarrow> 'p) \<Rightarrow> 'p decided list \<Rightarrow> bool" where
  "agreeing f ds \<longleftrightarrow> (\<forall>d\<in>set ds. dc_value d = f (dc_slot d))"

abbreviation at_slot :: "(u64 \<Rightarrow> 'p) \<Rightarrow> u64 \<Rightarrow> 'p wire_decision" where
  "at_slot f slot \<equiv> \<lparr>wd_slot = slot, wd_payload = f slot\<rparr>"

lemma collect_spec:
  assumes "log_ok entries" and "set entries = at_slot f ` K" and "agreeing f ds" and "service_collect_decisions ds entries = (sent, entries')"
  shows "log_ok entries'" and "set entries' = at_slot f ` (K \<union> dc_slot ` set ds)" and "set sent = at_slot f ` (dc_slot ` set ds - K)"
proof -
  have "log_ok entries' \<and> set entries' = at_slot f ` (K \<union> dc_slot ` set ds) \<and> set sent = at_slot f ` (dc_slot ` set ds - K)"
    using assms
  proof (induction ds arbitrary: entries K sent)
    case Nil
    then show ?case by simp
  next
    case (Cons d ds)
    let ?d = "\<lparr>wd_slot = dc_slot d, wd_payload = dc_value d\<rparr>"
    obtain s1 e1 s2 where 1: "log_append ?d entries = (s1, e1)" "service_collect_decisions ds e1 = (s2, entries')" "sent = s1 @ s2"
      using Cons.prems(4) by (auto simp: Let_def split: prod.splits)
    note a = log_append_spec [OF Cons.prems(1) 1(1)]
    have d: "?d = at_slot f (dc_slot d)" using Cons.prems(3) by (simp add: agreeing_def)
    have slots: "wd_slot ` set entries = K" using Cons.prems(2) by (force simp: image_image)
    have e1: "set e1 = at_slot f ` insert (dc_slot d) K" and s1: "set s1 = at_slot f ` ({dc_slot d} - K)"
      using a(2,3) d slots Cons.prems(2) by (auto simp: insert_absorb)
    have "agreeing f ds" using Cons.prems(3) by (simp add: agreeing_def)
    from Cons.IH [OF a(1) e1 this 1(2)] s1 show ?case by (auto simp: 1(3))
  qed
  then show "log_ok entries'" "set entries' = at_slot f ` (K \<union> dc_slot ` set ds)" "set sent = at_slot f ` (dc_slot ` set ds - K)"
    by blast+
qed

section \<open>Watching without gaps\<close>

text \<open>
  The state of a watcher that has seen the decisions of the slots \<open>K\<close> and yielded those from \<open>start\<close>
  to the first missing one.
\<close>

definition watching :: "(u64 \<Rightarrow> 'p) \<Rightarrow> u64 \<Rightarrow> u64 set \<Rightarrow> 'p wire_decision list \<Rightarrow> 'p watcher \<Rightarrow> bool" where
  "watching f start K ys w \<longleftrightarrow>
     start \<le> w_next_slot w \<and> ys = map (at_slot f) [start..<w_next_slot w] \<and> {start..<w_next_slot w} \<subseteq> K
     \<and> w_next_slot w \<notin> K
     \<and> (\<forall>slot. hm_get (w_buffered w) slot = (if slot \<in> K \<and> w_next_slot w < slot then Some (at_slot f slot) else None))"

lemma drain_spec:
  assumes "\<And>slot. hm_get (w_buffered w) slot = (if slot \<in> K \<and> w_next_slot w \<le> slot then Some (at_slot f slot) else None)"
    and "\<And>slot. slot \<in> K \<Longrightarrow> slot < u64_max" and "drain_buffered w = (ds, w')"
  shows "w_next_slot w \<le> w_next_slot w' \<and> ds = map (at_slot f) [w_next_slot w..<w_next_slot w']
    \<and> {w_next_slot w..<w_next_slot w'} \<subseteq> K \<and> w_next_slot w' \<notin> K
    \<and> (\<forall>slot. hm_get (w_buffered w') slot = (if slot \<in> K \<and> w_next_slot w' < slot then Some (at_slot f slot) else None))"
  using assms
proof (induction w arbitrary: ds rule: drain_buffered.induct)
  case (1 w)
  show ?case
  proof (cases "w_next_slot w \<in> K")
    case False
    with 1(2) [of "w_next_slot w"] 1(4) have "ds = []" "w' = w" by (simp_all add: drain_buffered.simps [of w])
    with False 1(2) show ?thesis by (auto simp: le_less)
  next
    case True
    let ?n = "w_next_slot w"
    let ?w = "\<lparr>w_next_slot = u64_saturating_add ?n 1, w_buffered = hm_remove ?n (w_buffered w)\<rparr>"
    have n: "u64_saturating_add ?n (Suc 0) = Suc ?n" using 1(3) [OF True] by (simp add: u64_saturating_add_def)
    have some: "hm_get (w_buffered w) ?n = Some (at_slot f ?n)" using 1(2) [of ?n] True by simp
    obtain ds' where ds': "drain_buffered ?w = (ds', w')" "ds = at_slot f ?n # ds'"
      using 1(4) some by (auto simp: drain_buffered.simps [of w] split: prod.splits)
    have "hm_get (w_buffered ?w) slot = (if slot \<in> K \<and> w_next_slot ?w \<le> slot then Some (at_slot f slot) else None)" for slot
      using 1(2) [of slot] n by auto
    from 1(1) [OF some this 1(3) ds'(1)] have d: "Suc ?n \<le> w_next_slot w'" "ds' = map (at_slot f) [Suc ?n..<w_next_slot w']"
        "{Suc ?n..<w_next_slot w'} \<subseteq> K" "w_next_slot w' \<notin> K"
        "\<forall>slot. hm_get (w_buffered w') slot = (if slot \<in> K \<and> w_next_slot w' < slot then Some (at_slot f slot) else None)"
      by (simp_all add: n)
    moreover have "{?n..<w_next_slot w'} = insert ?n {Suc ?n..<w_next_slot w'}" using d(1) by auto
    ultimately show ?thesis using True ds'(2) by (simp add: upt_conv_Cons)
  qed
qed

lemma watch_decision_spec:
  assumes w: "watching f start K ys w" and small: "\<And>slot. slot \<in> insert k K \<Longrightarrow> slot < u64_max"
    and r: "watch_decision (at_slot f k) w = (ds, w')"
  shows "watching f start (insert k K) (ys @ ds) w'"
proof (cases k "w_next_slot w" rule: linorder_cases)
  case less
  with r have "ds = []" "w' = w" by (simp_all add: watch_decision_def)
  moreover have "watching f start (insert k K) ys w" using w less by (auto simp: watching_def)
  ultimately show ?thesis by simp
next
  case equal
  let ?w = "w\<lparr>w_next_slot := u64_saturating_add (w_next_slot w) 1\<rparr>"
  have n: "u64_saturating_add (w_next_slot w) (Suc 0) = Suc k" using small [of k] equal by (simp add: u64_saturating_add_def)
  obtain ds' where ds': "drain_buffered ?w = (ds', w')" "ds = at_slot f k # ds'"
    using r equal by (auto simp: watch_decision_def split: prod.splits)
  have "hm_get (w_buffered ?w) slot = (if slot \<in> insert k K \<and> w_next_slot ?w \<le> slot then Some (at_slot f slot) else None)" for slot
    using w equal n by (auto simp: watching_def)
  from drain_spec [OF this small ds'(1)] have d: "Suc k \<le> w_next_slot w'" "ds' = map (at_slot f) [Suc k..<w_next_slot w']"
      "{Suc k..<w_next_slot w'} \<subseteq> insert k K" "w_next_slot w' \<notin> insert k K"
      "\<forall>slot. hm_get (w_buffered w') slot = (if slot \<in> insert k K \<and> w_next_slot w' < slot then Some (at_slot f slot) else None)"
    by (simp_all add: n)
  have "start \<le> k" "ys = map (at_slot f) [start..<k]" "{start..<k} \<subseteq> K" using w equal by (auto simp: watching_def)
  moreover from this(1) d(1) have "[start..<w_next_slot w'] = [start..<k] @ k # [Suc k..<w_next_slot w']"
    using upt_add_eq_append [of start k "w_next_slot w' - k"] by (simp add: upt_conv_Cons)
  moreover have "{start..<w_next_slot w'} \<subseteq> {start..<k} \<union> insert k {Suc k..<w_next_slot w'}" by auto
  with d(3) \<open>{start..<k} \<subseteq> K\<close> have "{start..<w_next_slot w'} \<subseteq> insert k K" by blast
  ultimately show ?thesis using d ds'(2) by (simp add: watching_def)
next
  case greater
  with r have w': "ds = []" "w' = (if hm_contains (w_buffered w) k then w else w\<lparr>w_buffered := hm_insert k (at_slot f k) (w_buffered w)\<rparr>)"
    by (auto simp: watch_decision_def)
  have "hm_get (w_buffered w') slot = (if slot \<in> insert k K \<and> w_next_slot w < slot then Some (at_slot f slot) else None)" for slot
    using w w'(2) greater by (auto simp: watching_def hm_contains_def split: if_splits)
  with w w' greater show ?thesis by (auto simp: watching_def)
qed

lemma watch_all_spec:
  assumes "watching f start K ys w" and "set ds = at_slot f ` L" and "\<And>slot. slot \<in> K \<union> L \<Longrightarrow> slot < u64_max"
    and "watch_all ds w = (ys', w')"
  shows "watching f start (K \<union> L) (ys @ ys') w'"
  using assms
proof (induction ds arbitrary: K L ys w ys')
  case Nil
  then show ?case by simp
next
  case (Cons d ds)
  obtain y1 w1 y2 where 1: "watch_decision d w = (y1, w1)" "watch_all ds w1 = (y2, w')" "ys' = y1 @ y2"
    using Cons.prems(4) by (auto simp: Let_def split: prod.splits)
  have "d \<in> at_slot f ` L" unfolding Cons.prems(2) [symmetric] by simp
  then obtain k where k: "k \<in> L" "d = at_slot f k" by blast
  let ?L = "wd_slot ` set ds"
  have "at_slot f (wd_slot x) = x" if "x \<in> set (d # ds)" for x using that unfolding Cons.prems(2) by auto
  then have L: "set ds = at_slot f ` ?L" by (simp add: image_image cong: image_cong)
  have "wd_slot ` set (d # ds) = L" unfolding Cons.prems(2) by (simp add: image_image)
  then have KL: "insert k K \<union> ?L = K \<union> L" using k(2) by auto
  have "watching f start (insert k K) (ys @ y1) w1"
    by (rule watch_decision_spec [OF Cons.prems(1) _ 1(1) [unfolded k(2)]]) (use Cons.prems(3) k(1) in auto)
  from Cons.IH [OF this L _ 1(2), unfolded KL, OF Cons.prems(3)] show ?case by (simp add: 1(3))
qed

lemma watch_live_all: "watch_live (map Live ds) w = map Ok (fst (watch_all ds w))"
  by (induction ds arbitrary: w) (auto simp: Let_def split: prod.splits)

text \<open>The first slot from \<open>start\<close> on without a decision.\<close>

definition first_gap :: "u64 \<Rightarrow> u64 set \<Rightarrow> u64" where
  "first_gap start K = (LEAST n. start \<le> n \<and> n \<notin> K)"

lemma watching_first_gap:
  assumes "watching f start K ys w"
  shows "ys = map (at_slot f) [start..<first_gap start K]"
proof -
  have "first_gap start K = w_next_slot w"
    unfolding first_gap_def by (rule Least_equality) (use assms in \<open>auto simp: watching_def not_less intro: ccontr\<close>)
  with assms show ?thesis by (simp add: watching_def)
qed

lemma watch_decisions_spec:
  assumes snap: "set snapshot = at_slot f ` K" and live: "set sent = at_slot f ` L" and small: "\<And>slot. slot \<in> K \<union> L \<Longrightarrow> slot < u64_max"
  shows "watch_decisions start snapshot (map Live sent) = map Ok (map (at_slot f) [start..<first_gap start (K \<union> L)])"
proof -
  let ?w = "\<lparr>w_next_slot = start, w_buffered = []\<rparr>"
  obtain ys w where 1: "watch_all snapshot ?w = (ys, w)" by fastforce
  obtain ys' w' where 2: "watch_all sent w = (ys', w')" by fastforce
  have "watching f start {} [] ?w" by (simp add: watching_def)
  from watch_all_spec [OF this snap _ 1] small have "watching f start K ys w" by simp
  from watch_all_spec [OF this live _ 2] small have "watching f start (K \<union> L) (ys @ ys') w'" by simp
  from watching_first_gap [OF this] show ?thesis
    by (simp add: watch_decisions_def 1 watch_live_all 2 flip: map_append)
qed

lemma watch_complete:
  assumes "agreeing f ds" and "\<forall>d\<in>set ds. dc_slot d < u64_max" and "j \<le> k"
    and "service_collect_decisions (take j ds) [] = (sent1, log_j)" and "service_collect_decisions (take k ds) [] = (sent2, log_k)"
    and "service_collect_decisions (drop j ds) log_j = (sent, log_end)"
  shows "watch_decisions start log_k (map Live sent)
    = map Ok (map (at_slot f) [start..<first_gap start (dc_slot ` set ds)])"
proof -
  have ag: "agreeing f (take j ds)" "agreeing f (take k ds)" "agreeing f (drop j ds)"
    using assms(1) by (auto simp: agreeing_def dest: in_set_takeD in_set_dropD)
  let ?J = "dc_slot ` set (take j ds)" and ?K = "dc_slot ` set (take k ds)" and ?D = "dc_slot ` set (drop j ds)"
  have nil: "log_ok []" "set [] = at_slot f ` {}" by (simp_all add: log_ok_def)
  note J = collect_spec [OF nil ag(1) assms(4), simplified] and K = collect_spec(2) [OF nil ag(2) assms(5), simplified]
  note S = collect_spec(3) [OF J(1) J(2) ag(3) assms(6)]
  have "set (take j ds) \<subseteq> set (take k ds)" using assms(3) by (rule set_take_subset_set_take)
  moreover have "set ds = set (take j ds) \<union> set (drop j ds)" by (metis append_take_drop_id set_append)
  moreover have "set (take k ds) \<subseteq> set ds" by (rule set_take_subset)
  ultimately have all: "?K \<union> (?D - ?J) = dc_slot ` set ds" by blast
  have "slot < u64_max" if "slot \<in> ?K \<union> (?D - ?J)" for slot using that assms(2) unfolding all by auto
  from watch_decisions_spec [OF K S this] show ?thesis unfolding all .
qed



section \<open>Pages\<close>

lemma first_gap_eqI: "start \<le> n \<Longrightarrow> n \<notin> K \<Longrightarrow> {start..<n} \<subseteq> K \<Longrightarrow> first_gap start K = n"
  unfolding first_gap_def by (rule Least_equality) (auto simp: not_less intro: ccontr)

lemma first_gap_spec:
  assumes "finite K"
  shows "start \<le> first_gap start K" and "first_gap start K \<notin> K" and "{start..<first_gap start K} \<subseteq> K"
proof -
  have "infinite {start..}" by (rule infinite_Ici)
  then have "\<exists>n. start \<le> n \<and> n \<notin> K" using assms by (metis atLeast_iff finite_subset subsetI)
  then have "start \<le> first_gap start K \<and> first_gap start K \<notin> K" unfolding first_gap_def by (rule LeastI_ex)
  then show "start \<le> first_gap start K" "first_gap start K \<notin> K" by blast+
  show "{start..<first_gap start K} \<subseteq> K"
  proof
    fix x
    assume "x \<in> {start..<first_gap start K}"
    then show "x \<in> K" using not_less_Least [of x "\<lambda>n. start \<le> n \<and> n \<notin> K"] unfolding first_gap_def by simp
  qed
qed

lemma first_gap_from: "finite K \<Longrightarrow> first_gap start {k \<in> K. start \<le> k} = first_gap start K"
  using first_gap_spec [of K start] by (intro first_gap_eqI) auto

lemma first_gap_missing: "start \<notin> K \<Longrightarrow> first_gap start K = start"
  by (rule first_gap_eqI) auto

lemma first_gap_present:
  assumes "finite K" and "start \<in> K"
  shows "first_gap start K = first_gap (Suc start) {k \<in> K. start < k}"
proof -
  have fin: "finite {k \<in> K. start < k}" using assms(1) by simp
  let ?g = "first_gap (Suc start) {k \<in> K. start < k}"
  note g = first_gap_spec [OF fin, of "Suc start"]
  have "x \<in> K" if "x \<in> {start..<?g}" for x
    using that assms(2) subsetD [OF g(3), of x] by (cases "x = start") simp_all
  then show ?thesis using g(1,2) by (intro first_gap_eqI) auto
qed

lemma first_gap_mono: "finite K \<Longrightarrow> start \<le> m \<Longrightarrow> first_gap start K \<le> first_gap m K"
  using first_gap_spec(3) [of K start] first_gap_spec(1,2) [of K m] by (meson atLeastLessThan_iff le_trans not_le subsetD)

lemma range_loop_spec:
  assumes "log_ok ds" and "set ds = at_slot f ` K" and "K \<subseteq> {n..<u64_max}" and "length out \<le> limit"
  shows "range_loop limit ds n out
    = (let e = min (n + (limit - length out)) (first_gap n K) in (out @ map (at_slot f) [n..<e], e))"
  using assms
proof (induction ds arbitrary: K n out)
  case Nil
  then show ?case by (simp add: first_gap_missing)
next
  case (Cons d ds)
  from Cons.prems(2) have "d \<in> at_slot f ` K" by (metis list.set_intros(1))
  then obtain k where k: "k \<in> K" "d = at_slot f k" by blast
  have least: "wd_slot d < wd_slot x" if "x \<in> set ds" for x using Cons.prems(1) that by (simp add: log_ok_def)
  have K: "K = wd_slot ` set (d # ds)" unfolding Cons.prems(2) by (simp add: image_image)
  then have fin: "finite K" by simp
  have lst: "k \<le> x" if "x \<in> K" for x using that least k(2) unfolding K by fastforce
  show ?case
  proof (cases "length out < limit \<and> k = n")
    case True
    let ?K = "{x \<in> K. n < x}"
    have "set ds = {x \<in> set (d # ds). wd_slot d < wd_slot x}" using least by auto
    also have "\<dots> = at_slot f ` ?K" unfolding Cons.prems(2) using True k(2) by auto
    finally have set: "set ds = at_slot f ` ?K" .
    have "range_loop limit ds (Suc n) (out @ [d])
      = (let e = min (Suc n + (limit - length (out @ [d]))) (first_gap (Suc n) ?K) in ((out @ [d]) @ map (at_slot f) [Suc n..<e], e))"
      by (rule Cons.IH [OF _ set]) (use Cons.prems True in \<open>auto simp: log_ok_def\<close>)
    moreover have "first_gap n K = first_gap (Suc n) ?K" by (rule first_gap_present [OF fin]) (use True k in simp)
    moreover have "Suc n \<le> first_gap (Suc n) ?K" by (rule first_gap_spec) (use fin in simp)
    moreover have "u64_saturating_add n 1 = Suc n" using Cons.prems(3) k True by (auto simp: u64_saturating_add_def)
    moreover have "Suc n + (limit - length (out @ [d])) = n + (limit - length out)" using True unfolding length_append by auto
    ultimately show ?thesis using True k(2) by (simp add: Let_def upt_conv_Cons del: add_Suc length_append)
  next
    case False
    have "first_gap n K = n" if "k \<noteq> n"
    proof (rule first_gap_missing)
      show "n \<notin> K" using lst [of n] Cons.prems(3) k(1) that by force
    qed
    with False k(2) Cons.prems(3,4) show ?thesis using first_gap_spec(1) [OF fin, of n] by (auto simp: Let_def)
  qed
qed

lemma log_range_spec:
  assumes ok: "log_ok entries" and set: "set entries = at_slot f ` K" and small: "K \<subseteq> {..<u64_max}"
  shows "log_range start limit entries = (let e = min (start + limit) (first_gap start K) in (map (at_slot f) [start..<e], e))"
proof -
  have K: "K = wd_slot ` set entries" unfolding set by (simp add: image_image)
  then have fin: "finite K" by simp
  note spec = binary_search_spec [OF ok [unfolded log_ok_def], of start]
  show ?thesis
  proof (cases "binary_search_by_key wd_slot start entries")
    case (Ok i)
    with spec have i: "i < length entries" "wd_slot (entries ! i) = start" by simp_all
    have srt: "sorted_wrt (<) (map wd_slot (take i entries @ entries ! i # drop (Suc i) entries))"
      using ok i(1) by (simp add: log_ok_def flip: id_take_nth_drop)
    have drp: "drop i entries = entries ! i # drop (Suc i) entries" using i(1) by (simp add: Cons_nth_drop_Suc)
    have "set (drop i entries) = {x \<in> set (take i entries @ drop i entries). start \<le> wd_slot x}"
      unfolding drp using srt i(2) by (force simp: sorted_wrt_append)
    also have "\<dots> = at_slot f ` {k \<in> K. start \<le> k}" using set by auto
    finally have "set (drop i entries) = at_slot f ` {k \<in> K. start \<le> k}" .
    moreover have "log_ok (drop i entries)" using srt unfolding log_ok_def drp by (simp add: sorted_wrt_append)
    moreover have "{k \<in> K. start \<le> k} \<subseteq> {start..<u64_max}" using small by auto
    ultimately have "range_loop limit (drop i entries) start []
      = (let e = min (start + (limit - length ([] :: 'a wire_decision list))) (first_gap start {k \<in> K. start \<le> k}) in ([] @ map (at_slot f) [start..<e], e))"
      by (intro range_loop_spec) simp_all
    then show ?thesis by (simp add: log_range_def Ok first_gap_from [OF fin])
  next
    case (Err q)
    with spec have p: "\<forall>i<q. wd_slot (entries ! i) < start" "\<forall>i. q \<le> i \<longrightarrow> i < length entries \<longrightarrow> start < wd_slot (entries ! i)"
      by simp_all
    have "wd_slot (entries ! i) \<noteq> start" if "i < length entries" for i
      using p(1) p(2) [rule_format, of i] that by (cases "i < q") (auto simp: not_less)
    then have "start \<notin> K" unfolding K by (force simp: in_set_conv_nth)
    then show ?thesis by (simp add: log_range_def Err first_gap_missing)
  qed
qed

text \<open>
  C38. A page holds exactly the decisions from the requested index up to the first slot not decided
  yet, cut at the limit (the default one when none or zero is given), and the cursor it returns is the
  slot after the last one; so pages read one after the other from their cursors neither skip nor
  repeat a slot.
\<close>

theorem get_decisions_page:
  assumes "agreeing f ds" and "\<forall>d\<in>set ds. dc_slot d < u64_max"
  shows "service_get_decisions start limit (snd (service_collect_decisions ds []))
    = (let size = (case limit of None \<Rightarrow> 1000 | Some n \<Rightarrow> if n = 0 then 1000 else n);
           e = min (start + size) (first_gap start (dc_slot ` set ds))
       in (map (at_slot f) [start..<e], e))"
proof -
  obtain sent entries where r: "service_collect_decisions ds [] = (sent, entries)" by fastforce
  have nil: "log_ok []" "set [] = at_slot f ` {}" by (simp_all add: log_ok_def)
  note c = collect_spec [OF nil assms(1) r, simplified]
  have "dc_slot ` set ds \<subseteq> {..<u64_max}" using assms(2) by auto
  from log_range_spec [OF c(1,2) this] show ?thesis
    by (simp add: service_get_decisions_def r DEFAULT_GET_LIMIT_def Let_def split: option.splits)
qed

theorem get_decisions_page_witness:
  "service_get_decisions 1 (Some 2) (snd (service_collect_decisions [Decided 2 ''c'', Decided 1 ''b'', Decided 1 ''b'', Decided 4 ''d''] []))
    = ([\<lparr>wd_slot = 1, wd_payload = ''b''\<rparr>, \<lparr>wd_slot = 2, wd_payload = ''c''\<rparr>], 3)"
proof -
  let ?ds = "[Decided 2 ''c'', Decided 1 ''b'', Decided 1 ''b'', Decided 4 ''d'']"
  let ?f = "\<lambda>s::nat. if s = 1 then ''b'' else if s = 2 then ''c'' else ''d''"
  have gap: "first_gap 1 (dc_slot ` set ?ds) = 3" by (rule first_gap_eqI) auto
  have "agreeing ?f ?ds" "\<forall>d\<in>set ?ds. dc_slot d < u64_max" by (simp_all add: agreeing_def u64_max_def)
  from get_decisions_page [OF this, of 1 "Some 2", unfolded gap] show ?thesis
    by (simp add: Let_def upt_rec del: service_collect_decisions.simps)
qed

section \<open>What a subscriber of one node can see\<close>

text \<open>
  Whatever a subscriber receives, lagging and closing included, it is a run of consecutive decisions
  from its start index, possibly followed by the lag error.
\<close>

definition known :: "(u64 \<Rightarrow> 'p) \<Rightarrow> 'p wire_decision \<Rightarrow> bool" where
  "known f d \<longleftrightarrow> wd_payload d = f (wd_slot d) \<and> wd_slot d < u64_max"

lemma watch_live_cases:
  "\<exists>ds tail. watch_live es w = map Ok (fst (watch_all ds w)) @ tail \<and> Live ` set ds \<subseteq> set es
     \<and> (tail = [] \<or> tail = [Err lagged_status])"
proof (induction es w rule: watch_live.induct)
  case (1 w)
  then show ?case by (intro exI [of _ "[]"]) simp
next
  case (2 d es w)
  obtain ys w1 where 1: "watch_decision d w = (ys, w1)" by fastforce
  from 2 [OF 1 [symmetric] refl] obtain ds tail where "watch_live es w1 = map Ok (fst (watch_all ds w1)) @ tail"
    "Live ` set ds \<subseteq> set es" "tail = [] \<or> tail = [Err lagged_status]" by blast
  then show ?case by (intro exI [of _ "d # ds"] exI [of _ tail]) (auto simp: 1 Let_def split: prod.splits)
next
  case (3 es w)
  show ?case by (rule exI [of _ "[]"], rule exI [of _ "[Err lagged_status]"]) simp
next
  case (4 es w)
  then show ?case by (intro exI [of _ "[]"]) simp
qed

lemma known_at_slots:
  assumes "\<forall>d\<in>set ds. known f d"
  shows "set ds = at_slot f ` wd_slot ` set ds" and "slot \<in> wd_slot ` set ds \<Longrightarrow> slot < u64_max"
proof -
  have "at_slot f (wd_slot d) = d" if "d \<in> set ds" for d using assms that by (simp add: known_def)
  then show "set ds = at_slot f ` wd_slot ` set ds" by (simp add: image_image cong: image_cong)
  show "slot \<in> wd_slot ` set ds \<Longrightarrow> slot < u64_max" using assms by (auto simp: known_def)
qed

lemma watch_decisions_run:
  assumes "\<forall>d\<in>set snapshot. known f d" and "\<forall>d. Live d \<in> set es \<longrightarrow> known f d"
  shows "\<exists>m tail. start \<le> m \<and> {start..<m} \<subseteq> {..<u64_max}
    \<and> watch_decisions start snapshot es = map Ok (map (at_slot f) [start..<m]) @ tail \<and> (tail = [] \<or> tail = [Err lagged_status])"
proof -
  let ?w = "\<lparr>w_next_slot = start, w_buffered = []\<rparr>"
  obtain ys w where 1: "watch_all snapshot ?w = (ys, w)" by fastforce
  obtain ds tail where 2: "watch_live es w = map Ok (fst (watch_all ds w)) @ tail" "Live ` set ds \<subseteq> set es"
    "tail = [] \<or> tail = [Err lagged_status]" using watch_live_cases by blast
  obtain ys' w' where 3: "watch_all ds w = (ys', w')" by fastforce
  have ds: "\<forall>d\<in>set ds. known f d" using 2(2) assms(2) by blast
  note s = known_at_slots [OF assms(1)] and l = known_at_slots [OF ds]
  let ?K = "wd_slot ` set snapshot \<union> wd_slot ` set ds"
  have "watching f start {} [] ?w" by (simp add: watching_def)
  from watch_all_spec [OF this s(1) _ 1] s(2) have "watching f start (wd_slot ` set snapshot) ys w" by simp
  from watch_all_spec [OF this l(1) _ 3] s(2) l(2) have w: "watching f start ?K (ys @ ys') w'" by blast
  have "watch_decisions start snapshot es = map Ok (ys @ ys') @ tail" by (simp add: watch_decisions_def 1 2(1) 3)
  moreover have K: "start \<le> w_next_slot w'" "{start..<w_next_slot w'} \<subseteq> ?K" "ys @ ys' = map (at_slot f) [start..<w_next_slot w']"
    using w unfolding watching_def by blast+
  moreover have "?K \<subseteq> {..<u64_max}" using s(2) l(2) by auto
  then have "{start..<w_next_slot w'} \<subseteq> {..<u64_max}" using K(2) by (rule order_trans [rotated])
  ultimately show ?thesis using 2(3) by (intro exI [of _ "w_next_slot w'"] exI [of _ tail]) simp
qed

end
