(* ===== verification/Client.thy ===== *)
theory Client
  imports DemoService
begin

text \<open>
  The client of \<open>daccord-client/src\<close>: connecting, proposing with one retry, paging, reading a status,
  and the watch stream that reconnects. The channel underneath (tonic) is a parameter: what each call
  answers. A watch that goes on for ever is followed for as many connections as are given.
\<close>

section \<open>Types\<close>

text \<open>\<open>'e\<close> is tonic's transport error.\<close>

datatype 'e client_error = Transport 'e | Rpc status | InvalidEndpoint string | NoEndpoints | Invalid string

datatype client_algorithm = ClientPaxos | ClientRaft

datatype client_role = ClientFollower | ClientCandidate | ClientLeader | NotApplicable

record cluster_status =
  cs_node_id :: string
  cs_algorithm :: client_algorithm
  cs_role :: client_role
  cs_term :: u64
  cs_leader_id :: "string option"
  cs_log_len :: u64
  cs_commit_index :: "u64 option"
  cs_last_applied :: "u64 option"

text \<open>The \<open>Debug\<close> form of a string, as \<open>{:?}\<close> prints it, on ASCII characters.\<close>

definition hex_digit :: "nat \<Rightarrow> char" where
  "hex_digit n = ''0123456789abcdef'' ! n"

definition char_escape :: "char \<Rightarrow> string" where
  "char_escape c =
     (let n = of_char c :: nat; slash = CHR 0x5C in
      if n = 0 then [slash, CHR ''0'']
      else if n = 9 then [slash, CHR ''t'']
      else if n = 10 then [slash, CHR ''n'']
      else if n = 13 then [slash, CHR ''r'']
      else if n = 34 \<or> n = 92 then [slash, c]
      else if n < 16 then [slash, CHR ''u'', CHR 0x7B, hex_digit n, CHR 0x7D]
      else if n < 32 \<or> n = 127 then [slash, CHR ''u'', CHR 0x7B, hex_digit (n div 16), hex_digit (n mod 16), CHR 0x7D]
      else [c])"

definition str_debug :: "string \<Rightarrow> string" where
  "str_debug s = CHR 0x22 # concat (map char_escape s) @ [CHR 0x22]"

definition algorithm_from_str :: "string \<Rightarrow> (client_algorithm, 'e client_error) result" where
  "algorithm_from_str s =
     (if s = ''paxos'' then Ok ClientPaxos
      else if s = ''raft'' then Ok ClientRaft
      else Err (Invalid (''unknown algorithm: '' @ str_debug s)))"

definition role_from_str :: "string \<Rightarrow> (client_role, 'e client_error) result" where
  "role_from_str s =
     (if s = ''follower'' then Ok ClientFollower
      else if s = ''candidate'' then Ok ClientCandidate
      else if s = ''leader'' then Ok ClientLeader
      else if s = ''n/a'' then Ok NotApplicable
      else Err (Invalid (''unknown role: '' @ str_debug s)))"

section \<open>Requests\<close>

text \<open>\<open>from_shared\<close> is \<open>Endpoint::from_shared\<close>: an endpoint, or the text of its error.\<close>

fun parse_endpoints :: "(string \<Rightarrow> ('ep, string) result) \<Rightarrow> string list \<Rightarrow> ('ep list, 'e client_error) result" where
  "parse_endpoints from_shared [] = Ok []"
| "parse_endpoints from_shared (raw # raws) =
     (case from_shared raw of
        Err e \<Rightarrow> Err (InvalidEndpoint (raw @ '': '' @ e))
      | Ok ep \<Rightarrow> (case parse_endpoints from_shared raws of Ok eps \<Rightarrow> Ok (ep # eps) | Err e \<Rightarrow> Err e))"

definition client_connect :: "(string \<Rightarrow> ('ep, string) result) \<Rightarrow> string list \<Rightarrow> ('ep list, 'e client_error) result" where
  "client_connect from_shared endpoints =
     (if endpoints = [] then Err NoEndpoints else parse_endpoints from_shared endpoints)"

text \<open>
  \<open>call k ep payload\<close> is the answer to the \<open>k\<close>-th call, on the balanced channel or on the channel of
  one endpoint; \<open>connect ep\<close> is the error of connecting to it, if any. The channels called are returned
  with the result.
\<close>

definition lift_status :: "('a, status) result \<Rightarrow> ('a, 'e client_error) result" where
  "lift_status r = (case r of Ok x \<Rightarrow> Ok x | Err status \<Rightarrow> Err (Rpc status))"

definition client_propose ::
  "(nat \<Rightarrow> 'ep option \<Rightarrow> 'p \<Rightarrow> ('p wire_decision, status) result) \<Rightarrow> ('ep \<Rightarrow> 'e option) \<Rightarrow> 'ep list \<Rightarrow> 'p
   \<Rightarrow> ('p wire_decision, 'e client_error) result \<times> 'ep option list" where
  "client_propose call connect endpoints payload =
     (case call 0 None payload of
        Ok r \<Rightarrow> (Ok r, [None])
      | Err status \<Rightarrow>
          (case st_code status of
             Unavailable \<Rightarrow>
               if length endpoints < 2 then (Err (Rpc status), [None])
               else let ep = endpoints ! 1 in
                 (case connect ep of
                    Some e \<Rightarrow> (Err (Transport e), [None])
                  | None \<Rightarrow> (lift_status (call 1 (Some ep) payload), [None, Some ep]))
           | Aborted \<Rightarrow> (lift_status (call 1 None payload), [None, None])
           | _ \<Rightarrow> (Err (Rpc status), [None])))"

definition client_get_decisions ::
  "(u64 \<Rightarrow> nat option \<Rightarrow> ('p wire_decision list \<times> u64, status) result) \<Rightarrow> u64 \<Rightarrow> nat option
   \<Rightarrow> ('p wire_decision list \<times> u64, 'e client_error) result" where
  "client_get_decisions call start_index limit = lift_status (call start_index limit)"

definition client_status :: "(status_response, status) result \<Rightarrow> (cluster_status, 'e client_error) result" where
  "client_status answer =
     (case lift_status answer of
        Err e \<Rightarrow> Err e
      | Ok inner \<Rightarrow>
          let leader_id = (if sr_leader_id inner = '''' then None else Some (sr_leader_id inner)) in
          (case algorithm_from_str (sr_algorithm inner) of
             Err e \<Rightarrow> Err e
           | Ok algorithm \<Rightarrow>
               (case role_from_str (sr_role inner) of
                  Err e \<Rightarrow> Err e
                | Ok role \<Rightarrow>
                    Ok \<lparr>cs_node_id = sr_node_id inner, cs_algorithm = algorithm, cs_role = role, cs_term = sr_term inner,
                        cs_leader_id = leader_id, cs_log_len = sr_log_len inner,
                        cs_commit_index = sr_commit_index inner, cs_last_applied = sr_last_applied inner\<rparr>)))"

section \<open>Watching\<close>

definition INITIAL_RECONNECT_DELAY :: nat where
  "INITIAL_RECONNECT_DELAY = from_millis 100"

definition MAX_RECONNECT_DELAY :: nat where
  "MAX_RECONNECT_DELAY = from_millis 5000"

definition is_transient :: "code \<Rightarrow> bool" where
  "is_transient c \<longleftrightarrow> c \<in> {Unavailable, ResourceExhausted, DeadlineExceeded}"

record watch_state =
  ws_last_yielded :: "u64 option"
  ws_delay :: nat

text \<open>
  What opening a watch gives: an error, or a stream, by the items it yields until it ends. What the
  stream does is a list of events.
\<close>

datatype ('p, 'e) opened = OpenError "'e client_error" | OpenStream "('p wire_decision, status) result list"

datatype ('p, 'e) watch_event =
    Opening u64
  | Slept nat
  | Yielded "('p wire_decision, 'e client_error) result"

definition next_index :: "u64 \<Rightarrow> watch_state \<Rightarrow> u64" where
  "next_index start_index w =
     (case ws_last_yielded w of Some slot \<Rightarrow> u64_saturating_add slot 1 | None \<Rightarrow> start_index)"

definition back_off :: "watch_state \<Rightarrow> watch_state" where
  "back_off w = w\<lparr>ws_delay := min (ws_delay w * 2) MAX_RECONNECT_DELAY\<rparr>"

text \<open>The inner loop. No state is returned when the stream has ended with an error.\<close>

fun read_stream :: "('p wire_decision, status) result list \<Rightarrow> watch_state \<Rightarrow> ('p, 'e) watch_event list \<times> watch_state option" where
  "read_stream [] w = ([Slept (ws_delay w)], Some (back_off w))"
| "read_stream (Ok msg # items) w =
     (let (evs, w') = read_stream items (w\<lparr>ws_last_yielded := Some (wd_slot msg), ws_delay := INITIAL_RECONNECT_DELAY\<rparr>)
      in (Yielded (Ok msg) # evs, w'))"
| "read_stream (Err status # items) w =
     (if is_transient (st_code status) then ([Slept (ws_delay w)], Some (back_off w))
      else ([Yielded (Err (Rpc status))], None))"

fun watch_loop :: "(u64 \<Rightarrow> ('p, 'e) opened) list \<Rightarrow> u64 \<Rightarrow> watch_state \<Rightarrow> ('p, 'e) watch_event list" where
  "watch_loop [] start_index w = []"
| "watch_loop (open_watch # conns) start_index w =
     (let idx = next_index start_index w in
      Opening idx #
      (case open_watch idx of
         OpenError (Rpc status) \<Rightarrow>
           if is_transient (st_code status) then Slept (ws_delay w) # watch_loop conns start_index (back_off w)
           else [Yielded (Err (Rpc status))]
       | OpenError e \<Rightarrow> [Yielded (Err e)]
       | OpenStream items \<Rightarrow>
           let (evs, w') = read_stream items w in
           evs @ (case w' of Some w1 \<Rightarrow> watch_loop conns start_index w1 | None \<Rightarrow> [])))"

definition watch_stream :: "(u64 \<Rightarrow> ('p, 'e) opened) list \<Rightarrow> u64 \<Rightarrow> ('p, 'e) watch_event list" where
  "watch_stream conns start_index =
     watch_loop conns start_index \<lparr>ws_last_yielded = None, ws_delay = INITIAL_RECONNECT_DELAY\<rparr>"

fun yields :: "('p, 'e) watch_event list \<Rightarrow> ('p wire_decision, 'e client_error) result list" where
  "yields [] = []"
| "yields (Yielded r # evs) = r # yields evs"
| "yields (_ # evs) = yields evs"

lemma yields_append [simp]: "yields (xs @ ys) = yields xs @ yields ys"
  by (induction xs rule: yields.induct) simp_all

section \<open>Status\<close>


section \<open>Proposing\<close>

lemma client_propose_cases:
  "fst (client_propose call connect eps v) = Ok d \<Longrightarrow> \<exists>k ep. k < length (snd (client_propose call connect eps v)) \<and> call k ep v = Ok d"
  by (fastforce simp: client_propose_def lift_status_def Let_def split: result.splits code.splits if_splits option.splits)

lemma client_propose_calls: "length (snd (client_propose call connect eps v)) \<in> {1, 2}"
  by (auto simp: client_propose_def Let_def split: result.splits code.splits option.splits)

section \<open>Watching across connections\<close>

text \<open>
  A connection to a node that only tells the decisions \<open>f\<close>: opening it may fail for a while; once open,
  it is cut anywhere, possibly with a transient error.
\<close>

definition serves :: "(u64 \<Rightarrow> 'p) \<Rightarrow> (u64 \<Rightarrow> ('p, 'e) opened) \<Rightarrow> bool" where
  "serves f open_watch \<longleftrightarrow> (\<forall>idx. case open_watch idx of
     OpenError e \<Rightarrow> (\<exists>status. e = Rpc status \<and> is_transient (st_code status))
   | OpenStream items \<Rightarrow> (\<exists>snapshot es n tail.
       (\<forall>d\<in>set snapshot. known f d) \<and> (\<forall>d. Live d \<in> set es \<longrightarrow> known f d)
       \<and> items = take n (watch_decisions idx snapshot es) @ tail
       \<and> (tail = [] \<or> (\<exists>status. tail = [Err status] \<and> is_transient (st_code status)))))"

lemma serves_cut:
  assumes "\<forall>d\<in>set snapshot. known f d" and "\<forall>d. Live d \<in> set es \<longrightarrow> known f d"
  shows "serves f (\<lambda>idx. OpenStream (take n (watch_decisions idx snapshot es)))"
  unfolding serves_def opened.case
  by (intro allI exI [of _ snapshot] exI [of _ es] exI [of _ n] exI [of _ "[]"]) (use assms in simp)

definition delay_ok :: "nat \<Rightarrow> bool" where
  "delay_ok t \<longleftrightarrow> INITIAL_RECONNECT_DELAY \<le> t \<and> t \<le> MAX_RECONNECT_DELAY"

lemma delay_ok_initial [simp]: "delay_ok INITIAL_RECONNECT_DELAY"
  by (simp add: delay_ok_def INITIAL_RECONNECT_DELAY_def MAX_RECONNECT_DELAY_def from_millis_def)

lemma back_off_ok [simp]: "delay_ok (ws_delay w) \<Longrightarrow> delay_ok (ws_delay (back_off w))"
  by (auto simp: delay_ok_def back_off_def INITIAL_RECONNECT_DELAY_def MAX_RECONNECT_DELAY_def from_millis_def)

lemma next_index_back_off [simp]: "next_index start (back_off w) = next_index start w"
  by (simp add: next_index_def back_off_def)

text \<open>A run of decisions, ended by the end of the stream or by a transient error.\<close>

definition ends :: "('p wire_decision, status) result list \<Rightarrow> bool" where
  "ends rest \<longleftrightarrow> (case rest of [] \<Rightarrow> True | Err status # _ \<Rightarrow> is_transient (st_code status) | _ \<Rightarrow> False)"

lemma read_stream_run:
  assumes "next_index start w \<le> m" and "{next_index start w..<m} \<subseteq> {..<u64_max}" and "ends rest" and "delay_ok (ws_delay w)"
  shows "\<exists>(evs :: ('p, 'e) watch_event list) w'. read_stream (map Ok (map (at_slot f) [next_index start w..<m]) @ rest) w = (evs, Some w')
    \<and> yields evs = map Ok (map (at_slot f) [next_index start w..<m]) \<and> next_index start w' = m
    \<and> delay_ok (ws_delay w') \<and> (\<forall>t. Slept t \<in> set evs \<longrightarrow> delay_ok t)"
  using assms
proof (induction "m - next_index start w" arbitrary: w)
  case 0
  then show ?case by (cases rest) (auto simp: ends_def split: result.splits)
next
  case (Suc n)
  let ?n = "next_index start w"
  let ?w = "w\<lparr>ws_last_yielded := Some ?n, ws_delay := INITIAL_RECONNECT_DELAY\<rparr>"
  have lt: "?n < m" using Suc.hyps(2) by simp
  with Suc.prems(2) have "?n < u64_max" by auto
  then have nx: "next_index start ?w = Suc ?n" by (simp add: next_index_def u64_saturating_add_def)
  have sub: "{Suc ?n..<m} \<subseteq> {..<u64_max}" by (rule order_trans [OF _ Suc.prems(2)]) auto
  have "\<exists>(evs :: ('p, 'e) watch_event list) w'. read_stream (map Ok (map (at_slot f) [Suc ?n..<m]) @ rest) ?w = (evs, Some w')
    \<and> yields evs = map Ok (map (at_slot f) [Suc ?n..<m]) \<and> next_index start w' = m
    \<and> delay_ok (ws_delay w') \<and> (\<forall>t. Slept t \<in> set evs \<longrightarrow> delay_ok t)"
    unfolding nx [symmetric] by (rule Suc.hyps(1)) (use Suc.hyps(2) Suc.prems(3) lt nx sub in auto)
  then show ?case using lt by (fastforce simp: upt_conv_Cons)
qed

lemma serves_run:
  assumes "serves f open_watch" and "open_watch idx = OpenStream items"
  shows "\<exists>m rest. idx \<le> m \<and> {idx..<m} \<subseteq> {..<u64_max} \<and> items = map Ok (map (at_slot f) [idx..<m]) @ rest \<and> ends rest"
proof -
  obtain snapshot es n tail where 1: "\<forall>d\<in>set snapshot. known f d" "\<forall>d. Live d \<in> set es \<longrightarrow> known f d"
    "items = take n (watch_decisions idx snapshot es) @ tail"
    "tail = [] \<or> (\<exists>status. tail = [Err status] \<and> is_transient (st_code status))"
    using assms(1) [unfolded serves_def, rule_format, of idx] assms(2) by auto
  obtain m tail' where 2: "idx \<le> m" "{idx..<m} \<subseteq> {..<u64_max}"
    "watch_decisions idx snapshot es = map Ok (map (at_slot f) [idx..<m]) @ tail'" "tail' = [] \<or> tail' = [Err lagged_status]"
    using watch_decisions_run [OF 1(1,2)] by blast
  let ?m = "min m (idx + n)" and ?rest = "take (n - (m - idx)) tail' @ tail"
  have "take n [idx..<m] = [idx..<?m]" by (cases "idx + n \<le> m") (simp_all add: take_upt min_def)
  then have "items = map Ok (map (at_slot f) [idx..<?m]) @ ?rest" unfolding 1(3) 2(3) by (simp add: take_map)
  moreover have "ends ?rest"
    using 1(4) 2(4) by (cases "n - (m - idx)") (auto simp: ends_def lagged_status_def is_transient_def)
  moreover have "idx \<le> ?m" "{idx..<?m} \<subseteq> {..<u64_max}" using 2(1,2) by auto
  ultimately show ?thesis by blast
qed

text \<open>What a run of the loop has produced: consecutive decisions, and pauses within the bounds.\<close>

definition ran :: "(u64 \<Rightarrow> 'p) \<Rightarrow> u64 \<Rightarrow> u64 \<Rightarrow> ('p, 'e) watch_event list \<Rightarrow> bool" where
  "ran f n m evs \<longleftrightarrow> n \<le> m \<and> yields evs = map Ok (map (at_slot f) [n..<m]) \<and> (\<forall>t. Slept t \<in> set evs \<longrightarrow> delay_ok t)"

lemma ran_append: "ran f n m xs \<Longrightarrow> ran f m k ys \<Longrightarrow> ran f n k (xs @ ys)"
proof -
  assume *: "ran f n m xs" "ran f m k ys"
  then have "[n..<k] = [n..<m] @ [m..<k]" by (metis ran_def le_iff_add upt_add_eq_append)
  with * show ?thesis by (auto simp: ran_def)
qed

lemma watch_loop_step:
  fixes open_watch :: "u64 \<Rightarrow> ('p, 'e) opened"
  assumes "serves f open_watch" and "delay_ok (ws_delay w)"
  shows "\<exists>evs w'. watch_loop (open_watch # conns) start w = evs @ watch_loop conns start w'
    \<and> ran f (next_index start w) (next_index start w') evs \<and> delay_ok (ws_delay w')"
proof (cases "open_watch (next_index start w)")
  case (OpenError e)
  then obtain status where e: "e = Rpc status" "is_transient (st_code status)"
    using assms(1) [unfolded serves_def, rule_format, of "next_index start w"] by auto
  show ?thesis using assms(2) OpenError e
    by (intro exI [of _ "[Opening (next_index start w), Slept (ws_delay w)]"] exI [of _ "back_off w"]) (simp add: ran_def)
next
  case (OpenStream items)
  obtain m rest where m: "next_index start w \<le> m" "{next_index start w..<m} \<subseteq> {..<u64_max}"
    "items = map Ok (map (at_slot f) [next_index start w..<m]) @ rest" "ends rest"
    using serves_run [OF assms(1) OpenStream] by blast
  obtain evs :: "('p, 'e) watch_event list" and w' where "read_stream items w = (evs, Some w')" "yields evs = map Ok (map (at_slot f) [next_index start w..<m])"
    "next_index start w' = m" "delay_ok (ws_delay w')" "\<forall>t. Slept t \<in> set evs \<longrightarrow> delay_ok t"
    using read_stream_run [OF m(1,2,4) assms(2), of f, folded m(3)] by blast
  then show ?thesis using m(1) OpenStream
    by (intro exI [of _ "Opening (next_index start w) # evs"] exI [of _ w']) (simp add: ran_def)
qed

lemma watch_loop_run:
  assumes "\<forall>open_watch\<in>set cs. serves f open_watch" and "delay_ok (ws_delay w)"
  shows "\<exists>evs w'. watch_loop (cs @ conns) start w = evs @ watch_loop conns start w'
    \<and> ran f (next_index start w) (next_index start w') evs \<and> delay_ok (ws_delay w')"
  using assms
proof (induction cs arbitrary: w)
  case Nil
  then show ?case by (intro exI [of _ "[]"] exI [of _ w]) (simp add: ran_def)
next
  case (Cons c cs)
  obtain evs w1 where 1: "watch_loop (c # cs @ conns) start w = evs @ watch_loop (cs @ conns) start w1"
    "ran f (next_index start w) (next_index start w1) evs" "delay_ok (ws_delay w1)"
    using watch_loop_step [of f c w "cs @ conns" start] Cons.prems by (auto simp del: watch_loop.simps)
  obtain evs' w' where 2: "watch_loop (cs @ conns) start w1 = evs' @ watch_loop conns start w'"
    "ran f (next_index start w1) (next_index start w') evs'" "delay_ok (ws_delay w')"
    using Cons.IH [OF _ 1(3)] Cons.prems(1) by (auto simp del: watch_loop.simps)
  show ?case using 1(1) 2(1,3) ran_append [OF 1(2) 2(2)] by (intro exI [of _ "evs @ evs'"] exI [of _ w']) (simp del: watch_loop.simps)
qed

text \<open>
  C39. A watch survives disconnection. Let the client go through any connections, to any nodes that
  tell only the decisions of the cluster: opening fails transiently, streams are cut at any point, lag,
  close, or end with a transient error. Then let it reach a node that has delivered the decisions \<open>ds\<close>,
  in any order and with repetitions. The client has yielded every slot from its start index to at
  least the first one missing from \<open>ds\<close>, each exactly once and in order, and no error; and every pause
  before a reconnection lasted from 100 ms to 5 s.
\<close>

theorem client_watch_resumes:
  fixes cs :: "(u64 \<Rightarrow> ('p, 'e) opened) list"
  assumes "\<forall>open_watch\<in>set cs. serves f open_watch"
    and "agreeing f ds" and "\<forall>d\<in>set ds. dc_slot d < u64_max" and "j \<le> k"
    and "service_collect_decisions (take j ds) [] = (sent1, log_j)" and "service_collect_decisions (take k ds) [] = (sent2, log_k)"
    and "service_collect_decisions (drop j ds) log_j = (sent, log_end)"
    and evs_def: "evs = watch_stream (cs @ [\<lambda>idx. OpenStream (watch_decisions idx log_k (map Live sent))]) start"
  shows "(\<exists>m. first_gap start (dc_slot ` set ds) \<le> m \<and> yields evs = map Ok (map (at_slot f) [start..<m]))
    \<and> (\<forall>t. Slept t \<in> set evs \<longrightarrow> from_millis 100 \<le> t \<and> t \<le> from_millis 5000)"
proof -
  let ?last = "\<lambda>idx. OpenStream (watch_decisions idx log_k (map Live sent)) :: ('p, 'e) opened"
  let ?w = "\<lparr>ws_last_yielded = None, ws_delay = INITIAL_RECONNECT_DELAY\<rparr>"
  obtain es w where 1: "watch_loop (cs @ [?last]) start ?w = es @ watch_loop [?last] start w"
    "ran f (next_index start ?w) (next_index start w) es" "delay_ok (ws_delay w)"
    using watch_loop_run [OF assms(1), of ?w "[?last]" start] by (auto simp del: watch_loop.simps)
  let ?g = "first_gap (next_index start w) (dc_slot ` set ds)"
  have items: "watch_decisions (next_index start w) log_k (map Live sent) = map Ok (map (at_slot f) [next_index start w..<?g]) @ []"
    using watch_complete [OF assms(2-7)] by simp
  have gap: "next_index start w \<le> ?g" "{next_index start w..<?g} \<subseteq> dc_slot ` set ds" by (rule first_gap_spec, simp)+
  then have "{next_index start w..<?g} \<subseteq> {..<u64_max}" using assms(3) by fastforce
  from read_stream_run [OF gap(1) this _ 1(3), of "[]" f] obtain es' :: "('p, 'e) watch_event list" and w'
    where 2: "read_stream (map Ok (map (at_slot f) [next_index start w..<?g]) @ []) w = (es', Some w')"
    "yields es' = map Ok (map (at_slot f) [next_index start w..<?g])" "\<forall>t. Slept t \<in> set es' \<longrightarrow> delay_ok t"
    by (auto simp: ends_def)
  have "watch_loop [?last] start w = Opening (next_index start w) # es'" by (simp add: Let_def 2(1) [folded items])
  moreover have "ran f (next_index start w) ?g (Opening (next_index start w) # es')" using 2(2,3) gap(1) by (simp add: ran_def)
  ultimately have "ran f (next_index start ?w) ?g evs"
    using ran_append [OF 1(2)] 1(1) by (simp add: evs_def watch_stream_def)
  then have r: "ran f start ?g evs" "start \<le> next_index start w" using 1(2) by (simp_all add: next_index_def ran_def)
  show ?thesis using r first_gap_mono [of "dc_slot ` set ds" start]
    by (auto simp: ran_def delay_ok_def INITIAL_RECONNECT_DELAY_def MAX_RECONNECT_DELAY_def)
qed

theorem client_watch_resumes_witness:
  "\<exists>m. 3 \<le> m \<and> yields (watch_stream
       [\<lambda>idx. OpenStream (take 1 (watch_decisions idx [\<lparr>wd_slot = 0, wd_payload = ''a''\<rparr>, \<lparr>wd_slot = 1, wd_payload = ''b''\<rparr>] [Lagged])),
        \<lambda>idx. OpenError (Rpc (Status Unavailable ''node is not running'')),
        \<lambda>idx. OpenStream (watch_decisions idx (snd (service_collect_decisions [Decided 2 ''c'', Decided 0 ''a''] []))
          (map Live (fst (service_collect_decisions [Decided 0 ''a'', Decided 1 ''b'', Decided 2 ''c''] (snd (service_collect_decisions [Decided 2 ''c''] []))))))] 0)
     = map Ok (map (at_slot (\<lambda>s. if s = 0 then ''a'' else if s = 1 then ''b'' else ''c'')) [0..<m])"
proof -
  let ?ds = "[Decided 2 ''c'', Decided 0 ''a'', Decided 1 ''b'', Decided 2 ''c'']"
  let ?f = "\<lambda>s::nat. if s = 0 then ''a'' else if s = 1 then ''b'' else ''c''"
  let ?c = "\<lambda>idx. OpenStream (take 1 (watch_decisions idx [\<lparr>wd_slot = 0, wd_payload = ''a''\<rparr>, \<lparr>wd_slot = 1, wd_payload = ''b''\<rparr>] [Lagged])) :: (string, 'e) opened"
  let ?o = "\<lambda>idx. OpenError (Rpc (Status Unavailable ''node is not running'')) :: (string, 'e) opened"
  have gap: "first_gap 0 (dc_slot ` set ?ds) = 3" by (rule first_gap_eqI) auto
  have cut: "take 1 ?ds = [Decided 2 ''c'']" "take 2 ?ds = [Decided 2 ''c'', Decided 0 ''a'']"
    "drop 1 ?ds = [Decided 0 ''a'', Decided 1 ''b'', Decided 2 ''c'']" by (simp_all add: numeral_2_eq_2)
  have known: "\<forall>d\<in>set [\<lparr>wd_slot = 0, wd_payload = ''a''\<rparr>, \<lparr>wd_slot = 1, wd_payload = ''b''\<rparr>]. known ?f d"
    by (simp add: known_def u64_max_def)
  have "serves ?f ?c" by (rule serves_cut [OF known]) simp
  moreover have "serves ?f ?o" by (simp add: serves_def is_transient_def)
  ultimately have served: "\<forall>open_watch\<in>set [?c, ?o]. serves ?f open_watch" by simp
  have ds: "agreeing ?f ?ds" "\<forall>d\<in>set ?ds. dc_slot d < u64_max" by (simp_all add: agreeing_def u64_max_def)
  have "(1::nat) \<le> 2" by simp
  from client_watch_resumes [OF served ds this prod.collapse [symmetric] prod.collapse [symmetric] prod.collapse [symmetric] refl, of 0]
  show ?thesis unfolding cut gap append.simps by blast
qed

end
