(* ===== verification/DemoNode.thy ===== *)
theory DemoNode
  imports DemoService
begin

text \<open>
  The configuration of the demo node, \<open>daccord-demo/src/node.rs\<close>, read from environment variables.
  A panic is \<^const>\<open>None\<close>. The start-up itself (sockets, storage, the gRPC server) is not modelled.
\<close>

section \<open>Strings\<close>

text \<open>\<open>str::split\<close> and \<open>str::split_once\<close> on one character.\<close>

fun split_on :: "char \<Rightarrow> string \<Rightarrow> string list" where
  "split_on c [] = [[]]"
| "split_on c (x # xs) =
     (if x = c then [] # split_on c xs
      else case split_on c xs of [] \<Rightarrow> [[x]] | w # ws \<Rightarrow> (x # w) # ws)"

fun split_once :: "char \<Rightarrow> string \<Rightarrow> (string \<times> string) option" where
  "split_once c [] = None"
| "split_once c (x # xs) =
     (if x = c then Some ([], xs) else map_option (\<lambda>(a, b). (x # a, b)) (split_once c xs))"

text \<open>\<open>u16::from_str\<close>: an optional plus sign and decimal digits.\<close>

definition digit_of :: "char \<Rightarrow> nat option" where
  "digit_of c = (let n = of_char c in if 48 \<le> n \<and> n \<le> 57 then Some (n - 48) else None)"

fun parse_digits :: "nat \<Rightarrow> string \<Rightarrow> nat option" where
  "parse_digits n [] = Some n"
| "parse_digits n (c # cs) =
     (case digit_of c of
        None \<Rightarrow> None
      | Some d \<Rightarrow> (let m = n * 10 + d in if m < 2 ^ 16 then parse_digits m cs else None))"

definition parse_u16 :: "string \<Rightarrow> nat option" where
  "parse_u16 s =
     (let ds = (case s of c # cs \<Rightarrow> (if c = CHR ''+'' then cs else s) | [] \<Rightarrow> [])
      in if ds = [] then None else parse_digits 0 ds)"

section \<open>The configuration\<close>

datatype 'a node_transport = Tcp 'a "(node_id \<times> string) list" | Uds string "(node_id \<times> string) list"

record 'a node_config =
  cf_node_name :: string
  cf_transport :: "'a node_transport"
  cf_grpc_port :: nat
  cf_algorithm :: algorithm
  cf_data_dir :: "string option"

type_synonym environment = "string \<Rightarrow> string option"

definition resolve_algorithm :: "environment \<Rightarrow> algorithm option" where
  "resolve_algorithm var =
     (let raw = (case var ''ALGORITHM'' of Some s \<Rightarrow> s | None \<Rightarrow> ''paxos'') in
      if raw = ''raft'' then Some AlgRaft
      else if raw = ''paxos'' \<or> raw = '''' then Some AlgPaxos
      else None)"

text \<open>\<open>hostname\<close> is the host's name, when it can be read as a string.\<close>

definition resolve_node_name :: "string option \<Rightarrow> environment \<Rightarrow> string option" where
  "resolve_node_name hostname var = (case var ''NODE_NAME'' of Some name \<Rightarrow> Some name | None \<Rightarrow> hostname)"

text \<open>\<open>parse_tcp_peers\<close> and \<open>parse_uds_peers\<close>, which differ in the type of the address only.\<close>

fun parse_entries :: "string list \<Rightarrow> (node_id \<times> string) list option" where
  "parse_entries [] = Some []"
| "parse_entries (entry # entries) =
     (case split_once (CHR ''='') entry of
        None \<Rightarrow> None
      | Some (name, addr) \<Rightarrow> map_option (\<lambda>ps. (NodeId name 0, addr) # ps) (parse_entries entries))"

definition parse_peers :: "string \<Rightarrow> (node_id \<times> string) list option" where
  "parse_peers peers_str = (if peers_str = '''' then Some [] else parse_entries (split_on (CHR '','') peers_str))"

definition other_peers :: "string \<Rightarrow> (node_id \<times> string) list \<Rightarrow> (node_id \<times> string) list" where
  "other_peers node_name peers = filter (\<lambda>(n, _). nid_name n \<noteq> node_name) peers"

text \<open>\<open>parse_addr\<close> is \<open>SocketAddr::from_str\<close>.\<close>

definition parse_config :: "(string \<Rightarrow> 'a option) \<Rightarrow> string option \<Rightarrow> environment \<Rightarrow> 'a node_config option" where
  "parse_config parse_addr hostname var =
     Option.bind (resolve_node_name hostname var) (\<lambda>node_name.
     Option.bind (var ''TRANSPORT'') (\<lambda>transport_str.
     let peers_str = (case var ''PEERS'' of Some s \<Rightarrow> s | None \<Rightarrow> '''') in
     Option.bind (Option.bind (var ''GRPC_PORT'') parse_u16) (\<lambda>grpc_port.
     Option.bind
       (if transport_str = ''tcp'' then
          Option.bind (Option.bind (var ''BIND_ADDR'') parse_addr) (\<lambda>bind_addr.
            map_option (\<lambda>peers. Tcp bind_addr (other_peers node_name peers)) (parse_peers peers_str))
        else if transport_str = ''uds'' then
          let bind_path = (case var ''BIND_PATH'' of Some p \<Rightarrow> p | None \<Rightarrow> ''/sockets/'' @ node_name @ ''.sock'') in
          map_option (\<lambda>peers. Uds bind_path (other_peers node_name peers)) (parse_peers peers_str)
        else None) (\<lambda>transport.
     map_option (\<lambda>algorithm.
         \<lparr>cf_node_name = node_name, cf_transport = transport, cf_grpc_port = grpc_port,
          cf_algorithm = algorithm, cf_data_dir = var ''DATA_DIR''\<rparr>)
       (resolve_algorithm var)))))"

section \<open>Peers are read as they are written\<close>

definition entry_of :: "node_id \<times> string \<Rightarrow> string" where
  "entry_of p = nid_name (fst p) @ ''='' @ snd p"

fun peers_string :: "(node_id \<times> string) list \<Rightarrow> string" where
  "peers_string [] = ''''"
| "peers_string [p] = entry_of p"
| "peers_string (p # ps) = entry_of p @ '','' @ peers_string ps"

lemma split_once_append: "c \<notin> set a \<Longrightarrow> split_once c (a @ c # b) = Some (a, b)"
  by (induction a) auto

lemma split_on_single: "c \<notin> set a \<Longrightarrow> split_on c a = [a]"
  by (induction a) auto

lemma split_on_append: "c \<notin> set a \<Longrightarrow> split_on c (a @ c # b) = a # split_on c b"
  by (induction a) auto

definition peer_ok :: "node_id \<times> string \<Rightarrow> bool" where
  "peer_ok p \<longleftrightarrow> nid_incarnation (fst p) = 0 \<and> CHR ''='' \<notin> set (nid_name (fst p))
     \<and> CHR '','' \<notin> set (nid_name (fst p)) \<and> CHR '','' \<notin> set (snd p)"

lemma parse_entries_of: "\<forall>p\<in>set ps. peer_ok p \<Longrightarrow> parse_entries (map entry_of ps) = Some ps"
proof (induction ps)
  case Nil
  then show ?case by simp
next
  case (Cons p ps)
  then have "split_once (CHR ''='') (entry_of p) = Some (nid_name (fst p), snd p)"
    using split_once_append by (simp add: entry_of_def peer_ok_def)
  moreover have "NodeId (nid_name (fst p)) 0 = fst p" using Cons.prems by (cases "fst p") (auto simp: peer_ok_def)
  ultimately show ?case using Cons by simp
qed

lemma split_peers: "\<forall>p\<in>set ps. peer_ok p \<Longrightarrow> ps \<noteq> [] \<Longrightarrow> split_on (CHR '','') (peers_string ps) = map entry_of ps"
proof (induction ps rule: peers_string.induct)
  case 1
  then show ?case by simp
next
  case (2 p)
  then have "CHR '','' \<notin> set (entry_of p)" by (auto simp: entry_of_def peer_ok_def)
  then show ?case by (simp add: split_on_single)
next
  case (3 p q ps)
  then have "CHR '','' \<notin> set (entry_of p)" by (auto simp: entry_of_def peer_ok_def)
  with 3 show ?case using split_on_append by simp
qed

text \<open>
  A list of peers written as \<open>name=addr,name=addr\<close> is read back, without the node itself.
\<close>

lemma parse_peers_roundtrip:
  assumes "\<forall>p\<in>set ps. peer_ok p"
  shows "parse_peers (peers_string ps) = Some ps"
proof (cases ps)
  case Nil
  then show ?thesis by (simp add: parse_peers_def)
next
  case (Cons p qs)
  then have "peers_string ps \<noteq> ''''" by (cases qs) (auto simp: entry_of_def)
  then show ?thesis using Cons split_peers [OF assms] parse_entries_of [OF assms] by (simp add: parse_peers_def)
qed

lemma other_peers_exclude: "\<forall>p\<in>set (other_peers name ps). nid_name (fst p) \<noteq> name"
  by (auto simp: other_peers_def)

end
