(* ===== verification/Transport.thy ===== *)
theory Transport
  imports Messages "HOL-Library.Word" "HOL-Library.Sublist"
begin

text \<open>
  The transports of \<open>daccord/src/transport\<close>: length-prefixed frames over a byte stream with lazy
  reconnection (\<open>tcp.rs\<close>, repeated over Unix sockets in \<open>uds.rs\<close>) and the in-memory channel
  (\<open>channel.rs\<close>). The network decides how every connect, write and flush ends; a connection is the
  list of the bytes written on it, of which the other end may see only the beginning.
\<close>

type_synonym bytes = "8 word list"

section \<open>Frames\<close>

definition MAX_MESSAGE_SIZE :: nat where
  "MAX_MESSAGE_SIZE = 16 * 1024 * 1024"

definition to_be_bytes :: "32 word \<Rightarrow> bytes" where
  "to_be_bytes n = [word_of_nat (unat n div 2 ^ 24), word_of_nat (unat n div 2 ^ 16), word_of_nat (unat n div 2 ^ 8), word_of_nat (unat n)]"

definition from_be_bytes :: "bytes \<Rightarrow> 32 word" where
  "from_be_bytes bs = word_of_nat (foldl (\<lambda>n b. n * 256 + unat b) 0 bs)"

text \<open>The prefix is \<open>data.len() as u32\<close>, which keeps the low 32 bits of the length.\<close>

definition len_prefix :: "bytes \<Rightarrow> bytes" where
  "len_prefix data = to_be_bytes (word_of_nat (length data))"

definition read_exact :: "nat \<Rightarrow> bytes \<Rightarrow> (bytes \<times> bytes) option" where
  "read_exact n bs = (if length bs < n then None else Some (take n bs, drop n bs))"

section \<open>Sending\<close>

text \<open>
  How the network treats one call of \<open>send\<close>: the error of connecting, if any; whether each \<open>write_all\<close>
  succeeds, or after how many bytes it fails; whether the flush succeeds.
\<close>

datatype write_outcome = Written | WriteFailed nat

record io =
  io_connect :: "string option"
  io_len :: write_outcome
  io_data :: write_outcome
  io_flush :: bool

text \<open>
  \<open>sn_conn\<close>: whether the sender holds a connection. \<open>sn_streams\<close>: the bytes written on each connection
  it has opened, the latest first.
\<close>

record sender =
  sn_conn :: bool
  sn_streams :: "bytes list"

definition tcp_sender_new :: sender where
  "tcp_sender_new = \<lparr>sn_conn = False, sn_streams = []\<rparr>"

definition written :: "write_outcome \<Rightarrow> bytes \<Rightarrow> bytes" where
  "written r bs = (case r of Written \<Rightarrow> bs | WriteFailed k \<Rightarrow> take k bs)"

fun push_bytes :: "bytes \<Rightarrow> sender \<Rightarrow> sender" where
  "push_bytes bs s = (case sn_streams s of [] \<Rightarrow> s | st # sts \<Rightarrow> s\<lparr>sn_streams := (st @ bs) # sts\<rparr>)"

definition lazy_connect :: "io \<Rightarrow> sender \<Rightarrow> (sender, transport_error) result" where
  "lazy_connect net s =
     (if sn_conn s then Ok s
      else case io_connect net of
        Some e \<Rightarrow> Err (Other e)
      | None \<Rightarrow> Ok (s\<lparr>sn_conn := True, sn_streams := [] # sn_streams s\<rparr>))"

definition tcp_send :: "bytes \<Rightarrow> io \<Rightarrow> sender \<Rightarrow> (unit, transport_error) result \<times> sender" where
  "tcp_send data net s =
     (case lazy_connect net s of
        Err e \<Rightarrow> (Err e, s)
      | Ok s1 \<Rightarrow>
          let s2 = push_bytes (written (io_len net) (len_prefix data)) s1 in
          if io_len net \<noteq> Written then (Err Closed, s2\<lparr>sn_conn := False\<rparr>)
          else
            let s3 = push_bytes (written (io_data net) data) s2 in
            if io_data net \<noteq> Written then (Err Closed, s3\<lparr>sn_conn := False\<rparr>)
            else if \<not> io_flush net then (Err Closed, s3\<lparr>sn_conn := False\<rparr>)
            else (Ok (), s3))"

section \<open>Receiving\<close>

text \<open>
  The task that reads one connection returns the messages it hands over. \<open>room\<close> is how many the
  receiver takes before it is dropped.
\<close>

function reader_task :: "nat \<Rightarrow> bytes \<Rightarrow> bytes list" where
  "reader_task room bs =
     (case read_exact 4 bs of
        None \<Rightarrow> []
      | Some (len_buf, rest) \<Rightarrow>
          let len = unat (from_be_bytes len_buf) in
          if len > MAX_MESSAGE_SIZE then []
          else
            (case read_exact len rest of
               None \<Rightarrow> []
             | Some (payload, rest') \<Rightarrow>
                 if room = 0 then [] else payload # reader_task (room - 1) rest'))"
  by auto

termination
  by (relation "measure fst") simp_all

declare reader_task.simps [simp del]

text \<open>The waits of the rebind loop: \<open>jitter\<close> is the random part, computed in floating point.\<close>

definition INITIAL_REBIND_DELAY_MS :: u64 where
  "INITIAL_REBIND_DELAY_MS = 100"

definition MAX_REBIND_DELAY_MS :: u64 where
  "MAX_REBIND_DELAY_MS = 5000"

record rebind_attempt =
  ra_closed :: bool
  ra_jitter :: int
  ra_bound :: bool

datatype rebind_end = Rebound | ReceiverDropped | StillTrying

fun rebind_loop :: "u64 \<Rightarrow> rebind_attempt list \<Rightarrow> u64 list \<times> rebind_end" where
  "rebind_loop delay_ms [] = ([], StillTrying)"
| "rebind_loop delay_ms (a # as) =
     (if ra_closed a then ([], ReceiverDropped)
      else
        let actual_delay = nat (max (int delay_ms + ra_jitter a) 10) in
        if ra_bound a then ([actual_delay], Rebound)
        else let (waits, r) = rebind_loop (min (delay_ms * 2) MAX_REBIND_DELAY_MS) as in (actual_delay # waits, r))"

text \<open>
  The accept loop spawns one reader per accepted connection, and stops when the receiver is found
  dropped while rebinding.
\<close>

datatype accept_event = Incoming bytes | AcceptFailed "rebind_attempt list"

fun accept_loop :: "accept_event list \<Rightarrow> bytes list" where
  "accept_loop [] = []"
| "accept_loop (Incoming stream # es) = stream # accept_loop es"
| "accept_loop (AcceptFailed as # es) =
     (if snd (rebind_loop INITIAL_REBIND_DELAY_MS as) = Rebound then accept_loop es else [])"

text \<open>\<open>recv\<close>, once it returns: the next message, or the channel is closed and empty.\<close>

definition tcp_recv :: "bytes list \<Rightarrow> (bytes, transport_error) result \<times> bytes list" where
  "tcp_recv q = (case q of [] \<Rightarrow> (Err Closed, []) | m # ms \<Rightarrow> (Ok m, ms))"

section \<open>The in-memory channel\<close>

text \<open>A channel: whether its receiver is alive, and what is queued on it.\<close>

record channel =
  ch_alive :: bool
  ch_queue :: "bytes list"

definition channel_send :: "bytes \<Rightarrow> channel \<Rightarrow> (unit, transport_error) result \<times> channel" where
  "channel_send data ch =
     (if ch_alive ch then (Ok (), ch\<lparr>ch_queue := ch_queue ch @ [data]\<rparr>) else (Err Closed, ch))"

definition channel_recv :: "channel \<Rightarrow> (bytes, transport_error) result \<times> channel" where
  "channel_recv ch =
     (case ch_queue ch of [] \<Rightarrow> (Err Closed, ch) | m # ms \<Rightarrow> (Ok m, ch\<lparr>ch_queue := ms\<rparr>))"

section \<open>A frame is read back\<close>

abbreviation frame :: "bytes \<Rightarrow> bytes" where
  "frame data \<equiv> len_prefix data @ data"

lemma length_len_prefix [simp]: "length (len_prefix data) = 4"
  by (simp add: len_prefix_def to_be_bytes_def)

lemma be_bytes_roundtrip: "from_be_bytes (to_be_bytes n) = n"
proof -
  let ?n = "unat n"
  have b: "unat (word_of_nat k :: 8 word) = k mod 256" for k by (simp add: unat_of_nat)
  have "?n < 2 ^ 24 * 2 ^ 8" using unsigned_less [of n] by simp
  then have 1: "?n div 2 ^ 24 mod 256 = ?n div 2 ^ 24" by (simp add: less_mult_imp_div_less)
  have "?n div 2 ^ 24 = ?n div 2 ^ 16 div 256" "?n div 2 ^ 16 = ?n div 2 ^ 8 div 256" "?n div 2 ^ 8 = ?n div 256"
    by (simp_all flip: div_mult2_eq)
  then have 2: "?n div 2 ^ 24 * 256 + ?n div 2 ^ 16 mod 256 = ?n div 2 ^ 16"
    "?n div 2 ^ 16 * 256 + ?n div 2 ^ 8 mod 256 = ?n div 2 ^ 8" "?n div 2 ^ 8 * 256 + ?n mod 256 = ?n"
    by (simp_all only: div_mult_mod_eq)
  have "foldl (\<lambda>n b. n * 256 + unat b) 0 (to_be_bytes n) = ?n"
    unfolding to_be_bytes_def by (simp only: foldl.simps b 1 2 mult_0 add_0)
  then show ?thesis by (simp add: from_be_bytes_def)
qed

lemma read_len:
  assumes "length data < 2 ^ 32"
  shows "unat (from_be_bytes (len_prefix data)) = length data"
  using assms by (simp add: len_prefix_def be_bytes_roundtrip unat_of_nat)

lemma read_frame:
  assumes "length data \<le> MAX_MESSAGE_SIZE"
  shows "reader_task (Suc room) (frame data @ bs) = data # reader_task room bs"
proof -
  have "unat (from_be_bytes (len_prefix data)) = length data" using assms by (intro read_len) (simp add: MAX_MESSAGE_SIZE_def)
  then show ?thesis using assms by (subst reader_task.simps) (simp add: read_exact_def Let_def)
qed

lemma reader_no_room [simp]: "reader_task 0 bs = []"
  by (subst reader_task.simps) (auto simp: Let_def split: option.splits)

text \<open>The beginning of a frame that is cut before its end.\<close>

definition incomplete :: "bytes \<Rightarrow> bool" where
  "incomplete bs \<longleftrightarrow> (\<exists>data. length data \<le> MAX_MESSAGE_SIZE \<and> strict_prefix bs (frame data))"

lemma incomplete_Nil [simp]: "incomplete []"
  unfolding incomplete_def by (rule exI [of _ "[]"]) (auto simp: len_prefix_def to_be_bytes_def)

lemma incomplete_take: "length data \<le> MAX_MESSAGE_SIZE \<Longrightarrow> k < length (frame data) \<Longrightarrow> incomplete (take k (frame data))"
  unfolding incomplete_def strict_prefix_def by (metis take_is_prefix length_take min.absorb4 nless_le)

lemma incomplete_mono: "incomplete bs \<Longrightarrow> incomplete (take k bs)"
  unfolding incomplete_def by (meson prefix_order.le_less_trans take_is_prefix)

lemma reader_incomplete:
  assumes "incomplete bs"
  shows "reader_task room bs = []"
proof -
  obtain data where d: "length data \<le> MAX_MESSAGE_SIZE" "strict_prefix bs (frame data)" using assms by (auto simp: incomplete_def)
  have bs: "bs = take (length bs) (frame data)" using d(2) by (metis append_eq_conv_conj prefix_def strict_prefix_def)
  have less: "length bs < 4 + length data" using prefix_length_less [OF d(2)] by simp
  show ?thesis
  proof (cases "length bs < 4")
    case True
    then show ?thesis by (subst reader_task.simps) (simp add: read_exact_def)
  next
    case False
    then have "take 4 bs = len_prefix data" by (subst bs) (simp add: min_def)
    moreover have "unat (from_be_bytes (len_prefix data)) = length data" using d(1) by (intro read_len) (simp add: MAX_MESSAGE_SIZE_def)
    moreover have "length (drop 4 bs) < length data" using less False by simp
    ultimately show ?thesis by (subst reader_task.simps) (simp add: read_exact_def Let_def)
  qed
qed

abbreviation frames :: "bytes list \<Rightarrow> bytes" where
  "frames ms \<equiv> concat (map frame ms)"

abbreviation sendable :: "bytes list \<Rightarrow> bool" where
  "sendable ms \<equiv> \<forall>data\<in>set ms. length data \<le> MAX_MESSAGE_SIZE"

lemma reader_frames:
  assumes "sendable ms" and "incomplete bs"
  shows "reader_task room (frames ms @ bs) = take room ms"
  using assms(1)
proof (induction ms arbitrary: room)
  case Nil
  then show ?case using assms(2) by (simp add: reader_incomplete)
next
  case (Cons data ms)
  then show ?case using read_frame [of data _ "frames ms @ bs"] by (cases room) simp_all
qed

lemma frames_cut:
  assumes "sendable ms" and "incomplete bs"
  shows "\<exists>j bs'. take k (frames ms @ bs) = frames (take j ms) @ bs' \<and> incomplete bs'"
  using assms(1)
proof (induction ms arbitrary: k)
  case Nil
  show ?case by (rule exI [of _ 0], rule exI [of _ "take k bs"]) (simp add: incomplete_mono [OF assms(2)])
next
  case (Cons data ms)
  show ?case
  proof (cases "k < length (frame data)")
    case True
    then have "take k (frames (data # ms) @ bs) = frames (take 0 (data # ms)) @ take k (frame data)" by simp
    moreover have "incomplete (take k (frame data))" by (rule incomplete_take [OF _ True]) (use Cons.prems in simp)
    ultimately show ?thesis by blast
  next
    case False
    obtain j bs' where "take (k - length (frame data)) (frames ms @ bs) = frames (take j ms) @ bs'" "incomplete bs'"
      using Cons.IH [of "k - length (frame data)"] Cons.prems by auto
    then have "take k (frames (data # ms) @ bs) = frames (take (Suc j) (data # ms)) @ bs'" using False by simp
    with \<open>incomplete bs'\<close> show ?thesis by blast
  qed
qed

section \<open>Delivery\<close>

text \<open>Calls of \<open>send\<close> one after the other, with what the network does in each.\<close>

fun send_all :: "(bytes \<times> io) list \<Rightarrow> sender \<Rightarrow> (unit, transport_error) result list \<times> sender" where
  "send_all [] s = ([], s)"
| "send_all ((data, net) # calls) s =
     (let (r, s1) = tcp_send data net s; (rs, s2) = send_all calls s1 in (r # rs, s2))"

definition sent_ok :: "(bytes \<times> io) list \<Rightarrow> (unit, transport_error) result list \<Rightarrow> bytes list" where
  "sent_ok calls rs = map fst (filter (\<lambda>(data, r). r = Ok ()) (zip (map fst calls) rs))"

text \<open>\<open>mss\<close>: the messages that went out whole on each connection, the latest first.\<close>

definition carried :: "sender \<Rightarrow> bytes list list \<Rightarrow> bool" where
  "carried s mss \<longleftrightarrow> list_all2 (\<lambda>st ms. sendable ms \<and> (\<exists>bs. incomplete bs \<and> st = frames ms @ bs)) (sn_streams s) mss
     \<and> (sn_conn s \<longrightarrow> (\<exists>ms mss'. mss = ms # mss' \<and> hd (sn_streams s) = frames ms))"

lemma carried_connect:
  assumes "carried s mss" and "lazy_connect net s = Ok s1"
  shows "\<exists>ms mss' sts. carried s1 (ms # mss') \<and> concat (rev (ms # mss')) = concat (rev mss)
    \<and> sn_streams s1 = frames ms # sts"
proof (cases "sn_conn s")
  case True
  then obtain ms mss' where 1: "mss = ms # mss'" "hd (sn_streams s) = frames ms" using assms(1) by (auto simp: carried_def)
  then obtain sts where "sn_streams s = frames ms # sts" using assms(1) by (cases "sn_streams s") (auto simp: carried_def)
  with assms True 1 show ?thesis by (auto simp: lazy_connect_def)
next
  case False
  then have "carried s1 ([] # mss)" "sn_streams s1 = frames [] # sn_streams s"
    using assms by (auto simp: lazy_connect_def carried_def split: option.splits)
  then show ?thesis by force
qed

lemma carried_partial:
  assumes "carried s (ms # mss)" and "sn_streams s = frames ms # sts" and "incomplete bs"
  shows "carried (s\<lparr>sn_conn := False, sn_streams := (frames ms @ bs) # sts\<rparr>) (ms # mss)"
  using assms by (auto simp: carried_def)

lemma carried_whole:
  assumes "carried s (ms # mss)" and "sn_streams s = frames ms # sts" and "length data \<le> MAX_MESSAGE_SIZE"
  shows "carried (s\<lparr>sn_conn := b, sn_streams := (frames ms @ frame data) # sts\<rparr>) ((ms @ [data]) # mss)"
  using assms by (auto simp: carried_def intro: exI [of _ "[]"])

lemma tcp_send_carried:
  assumes c: "carried s mss" and len: "length data \<le> MAX_MESSAGE_SIZE" and r: "tcp_send data net s = (r, s')"
  shows "\<exists>mss' xs. carried s' mss' \<and> concat (rev mss') = concat (rev mss) @ xs \<and> xs \<in> {[], [data]} \<and> (r = Ok () \<longrightarrow> xs = [data])"
proof (cases "lazy_connect net s")
  case (Err e)
  then show ?thesis using c r by (auto simp: tcp_send_def)
next
  case (Ok s1)
  obtain ms mss1 sts where 1: "carried s1 (ms # mss1)" "concat (rev (ms # mss1)) = concat (rev mss)" "sn_streams s1 = frames ms # sts"
    using carried_connect [OF c Ok] by blast
  note part = carried_partial [OF 1(1,3)] and whole = carried_whole [OF 1(1,3) len]
  let ?sent = "written (io_len net) (len_prefix data) @ (if io_len net = Written then written (io_data net) data else [])"
  have conn: "sn_conn s1" using Ok by (auto simp: lazy_connect_def split: if_splits option.splits)
  have s': "s' = s1\<lparr>sn_conn := (r = Ok ()), sn_streams := (frames ms @ ?sent) # sts\<rparr>"
    using r 1(3) Ok conn by (auto simp: tcp_send_def Let_def split: if_splits intro!: sender.equality)
  have ok: "?sent = frame data" if "r = Ok ()"
    using r Ok that by (auto simp: tcp_send_def written_def Let_def split: if_splits)
  have pre: "?sent = take (length ?sent) (frame data)"
    by (auto simp: written_def min_def split: write_outcome.splits)
  show ?thesis
  proof (cases "?sent = frame data")
    case True
    have "carried s' ((ms @ [data]) # mss1)" unfolding s' True by (rule whole)
    with 1(2) show ?thesis by (intro exI [of _ "(ms @ [data]) # mss1"] exI [of _ "[data]"]) auto
  next
    case False
    with pre have "length ?sent < length (frame data)" by (metis linorder_not_less take_all)
    then have "incomplete ?sent" using incomplete_take [OF len] pre by metis
    moreover have "(r = Ok ()) = False" using ok False by blast
    ultimately have "carried s' (ms # mss1)" unfolding s' by (simp only: part)
    with 1(2) ok False show ?thesis by (intro exI [of _ "ms # mss1"] exI [of _ "[]"]) auto
  qed
qed

lemma send_all_carried:
  assumes "carried s mss" and "sendable (map fst calls)" and "send_all calls s = (rs, s')"
  shows "\<exists>mss' xs. carried s' mss' \<and> concat (rev mss') = concat (rev mss) @ xs
    \<and> subseq (sent_ok calls rs) xs \<and> subseq xs (map fst calls)"
  using assms
proof (induction calls arbitrary: s mss rs)
  case Nil
  then show ?case by (intro exI [of _ mss] exI [of _ "[]"]) (simp add: sent_ok_def)
next
  case (Cons call calls)
  obtain data net where call: "call = (data, net)" by fastforce
  obtain r s1 rs1 where 1: "tcp_send data net s = (r, s1)" "send_all calls s1 = (rs1, s')" "rs = r # rs1"
    using Cons.prems(3) by (auto simp: call Let_def split: prod.splits)
  obtain mss1 xs where 2: "carried s1 mss1" "concat (rev mss1) = concat (rev mss) @ xs" "xs \<in> {[], [data]}" "r = Ok () \<longrightarrow> xs = [data]"
    using tcp_send_carried [OF Cons.prems(1) _ 1(1)] Cons.prems(2) by (auto simp: call)
  obtain mss' ys where 3: "carried s' mss'" "concat (rev mss') = concat (rev mss1) @ ys" "subseq (sent_ok calls rs1) ys" "subseq ys (map fst calls)"
    using Cons.IH [OF 2(1) _ 1(2)] Cons.prems(2) by auto
  have "sent_ok (call # calls) rs = (if r = Ok () then [data] else []) @ sent_ok calls rs1"
    by (simp add: sent_ok_def call 1(3))
  then have "subseq (sent_ok (call # calls) rs) (xs @ ys)"
    using 2(3,4) list_emb_append_mono [OF _ 3(3), of "if r = Ok () then [data] else []" xs] by auto
  moreover have "subseq (xs @ ys) (map fst (call # calls))"
    using 2(3) list_emb_append_mono [OF _ 3(4), of xs "[data]"] by (auto simp: call)
  ultimately show ?case using 3(1,2) 2(2) by (intro exI [of _ mss'] exI [of _ "xs @ ys"]) simp
qed

lemma carried_stream:
  assumes "carried s mss" and "st \<in> set (sn_streams s)"
  shows "\<exists>ms\<in>set mss. sendable ms \<and> (\<exists>bs. incomplete bs \<and> st = frames ms @ bs)"
proof -
  have "list_all2 (\<lambda>st ms. sendable ms \<and> (\<exists>bs. incomplete bs \<and> st = frames ms @ bs)) (sn_streams s) mss"
    using assms(1) by (simp add: carried_def)
  then show ?thesis using assms(2) by (induction rule: list_all2_induct) auto
qed

lemma carried_received:
  assumes "carried s mss" and "\<forall>ms\<in>set mss. length ms \<le> room"
  shows "map (reader_task room) (sn_streams s) = mss"
proof -
  have "list_all2 (\<lambda>st ms. sendable ms \<and> (\<exists>bs. incomplete bs \<and> st = frames ms @ bs)) (sn_streams s) mss"
    using assms(1) by (simp add: carried_def)
  then show ?thesis using assms(2)
  proof (induction rule: list_all2_induct)
    case Nil
    then show ?case by simp
  next
    case (Cons st sts ms mss)
    then show ?case using reader_frames [of ms _ room] by auto
  qed
qed


definition fine :: io where
  "fine = \<lparr>io_connect = None, io_len = Written, io_data = Written, io_flush = True\<rparr>"

definition broken_pipe :: io where
  "broken_pipe = fine\<lparr>io_len := WriteFailed 2\<rparr>"

lemma reconnecting_run:
  "send_all [([1, 2], fine), ([3], broken_pipe), ([4], fine)] tcp_sender_new
    = ([Ok (), Err Closed, Ok ()], \<lparr>sn_conn = True, sn_streams = [frame [4], frame [1, 2] @ take 2 (len_prefix [3])]\<rparr>)"
  by (simp add: tcp_send_def lazy_connect_def tcp_sender_new_def fine_def broken_pipe_def written_def)


text \<open>
  The sender does not check the size: a message beyond the limit is sent, its \<open>send\<close> succeeds, and the
  reader drops the connection with this message and all that follow on it.
\<close>

theorem oversized_message_drops_rest:
  assumes "MAX_MESSAGE_SIZE < length data" and "length data < 2 ^ 32"
  shows "fst (tcp_send data fine tcp_sender_new) = Ok ()
    \<and> (\<forall>rest. reader_task room (hd (sn_streams (snd (tcp_send data fine tcp_sender_new))) @ rest) = [])"
proof -
  have st: "tcp_send data fine tcp_sender_new = (Ok (), \<lparr>sn_conn = True, sn_streams = [frame data]\<rparr>)"
    by (simp add: tcp_send_def lazy_connect_def tcp_sender_new_def fine_def written_def)
  have "reader_task room (frame data @ rest) = []" for rest
    using assms(1) by (subst reader_task.simps) (simp add: read_exact_def Let_def read_len [OF assms(2)])
  with st show ?thesis by simp
qed

text \<open>
  Each connection has a reader of its own, and all readers feed one queue. After a reconnection the
  readers of the old and of the new connection run side by side, so messages that were sent one
  after the other can be received in the opposite order.
\<close>

theorem reconnect_reorders:
  "sent_ok [([1, 2], fine), ([3], broken_pipe), ([4], fine)] [Ok (), Err Closed, Ok ()] = [[1, 2], [4]]
   \<and> [[4], [1, 2]] \<in> (case sn_streams (snd (send_all [([1, 2], fine), ([3], broken_pipe), ([4], fine)] tcp_sender_new)) of
       [new, old] \<Rightarrow> shuffles (reader_task 3 old) (reader_task 3 new))"
proof -
  have "incomplete (take 2 (frame [3]))" by (rule incomplete_take) (simp_all add: MAX_MESSAGE_SIZE_def)
  then have "reader_task 3 (frames [[1, 2]] @ take 2 (frame [3])) = [[1, 2]]" by (subst reader_frames) (simp_all add: MAX_MESSAGE_SIZE_def)
  moreover have "reader_task 3 (frames [[4]] @ []) = [[4]]" by (subst reader_frames) (simp_all add: MAX_MESSAGE_SIZE_def)
  ultimately show ?thesis unfolding reconnecting_run by (simp add: sent_ok_def)
qed

section \<open>The in-memory channel keeps the order\<close>

fun channel_sends :: "bytes list \<Rightarrow> channel \<Rightarrow> channel" where
  "channel_sends [] ch = ch"
| "channel_sends (m # ms) ch = channel_sends ms (snd (channel_send m ch))"

fun channel_recvs :: "nat \<Rightarrow> channel \<Rightarrow> (bytes, transport_error) result list" where
  "channel_recvs 0 ch = []"
| "channel_recvs (Suc n) ch = (let (r, ch') = channel_recv ch in r # channel_recvs n ch')"

lemma channel_sends_queue: "ch_alive ch \<Longrightarrow> channel_sends ms ch = ch\<lparr>ch_queue := ch_queue ch @ ms\<rparr>"
  by (induction ms arbitrary: ch) (simp_all add: channel_send_def)

lemma channel_recvs_queue: "channel_recvs (length (ch_queue ch)) ch = map Ok (ch_queue ch)"
proof (induction "ch_queue ch" arbitrary: ch)
  case Nil
  then show ?case by simp
next
  case (Cons m ms)
  from Cons(1) [of "ch\<lparr>ch_queue := ms\<rparr>"] Cons(2) [symmetric] show ?case by (simp add: channel_recv_def)
qed

lemma channel_fifo:
  assumes "ch_alive ch" and "ch_queue ch = []"
  shows "channel_recvs (length ms) (channel_sends ms ch) = map Ok ms"
  using channel_recvs_queue [of "channel_sends ms ch"] assms by (simp add: channel_sends_queue)

end
