(* ===== verification/RedbStorage.thy ===== *)
theory RedbStorage
  imports Storage
begin

text \<open>
  The redb storages of \<open>daccord/src/redb_storage.rs\<close>. redb and \<open>serde_json\<close> are parameters: the
  database, each typed table and the JSON codec are records of the operations the code calls, any of
  which may fail with an error text. What is relied on is stated in locales: transactions read what
  was committed and commit what they wrote, a table is an ordered map, and what JSON writes it reads
  back. From this the storages are shown to meet the contracts of the storage traits.
\<close>

section \<open>The database, the tables and JSON\<close>

record ('d, 'w, 'r) database =
  db_begin_write :: "'d \<Rightarrow> ('w, string) result"
  db_commit :: "'w \<Rightarrow> (unit, string) result \<times> 'd"
  db_begin_read :: "'d \<Rightarrow> ('r, string) result"

text \<open>
  A table, as a write transaction \<open>'w\<close> and a read transaction \<open>'r\<close> use it. \<open>tb_extract_from k\<close> is
  \<open>extract_from_if(k.., |_, _| true)\<close> with its iterator run to the end.
\<close>

record ('w, 'r, 'k, 'v) table =
  tb_open :: "'w \<Rightarrow> ('w, string) result"
  tb_insert :: "'k \<Rightarrow> 'v \<Rightarrow> 'w \<Rightarrow> ('w, string) result"
  tb_remove :: "'k \<Rightarrow> 'w \<Rightarrow> ('w, string) result"
  tb_last :: "'w \<Rightarrow> (('k \<times> 'v) option, string) result"
  tb_extract_from :: "'k \<Rightarrow> 'w \<Rightarrow> ('w, string) result"
  tb_open_read :: "'r \<Rightarrow> ('r, string) result"
  tb_iter :: "'r \<Rightarrow> (('k \<times> 'v, string) result list, string) result"
  tb_get :: "'k \<Rightarrow> 'r \<Rightarrow> ('v option, string) result"

record 'v json =
  js_to_string :: "'v \<Rightarrow> (string, string) result"
  js_from_str :: "string \<Rightarrow> ('v, string) result"

definition META_KEY :: string where
  "META_KEY = ''k''"

text \<open>The tables of the Raft storage.\<close>

record ('w, 'r) raft_tables =
  RAFT_DECISIONS :: "('w, 'r, u64, string) table"
  RAFT_LOG :: "('w, 'r, u64, u64 \<times> string) table"
  RAFT_TERM :: "('w, 'r, string, u64) table"
  RAFT_VOTED_FOR :: "('w, 'r, string, string \<times> u64) table"
  RAFT_COMMIT_INDEX :: "('w, 'r, string, u64) table"

section \<open>Transactions\<close>

text \<open>The operator \<open>?\<close>.\<close>

definition try_bind :: "('a, 'e) result \<Rightarrow> ('a \<Rightarrow> ('b, 'e) result) \<Rightarrow> ('b, 'e) result" where
  "try_bind r f = (case r of Ok a \<Rightarrow> f a | Err e \<Rightarrow> Err e)"

lemma try_bind_Ok [simp]: "try_bind r f = Ok b \<longleftrightarrow> (\<exists>a. r = Ok a \<and> f a = Ok b)"
  by (cases r) (simp_all add: try_bind_def)

text \<open>A dropped write transaction leaves the database as it was.\<close>

definition write_txn ::
  "('d, 'w, 'r) database \<Rightarrow> ('w \<Rightarrow> ('w, string) result) \<Rightarrow> 'd \<Rightarrow> (unit, storage_error) result \<times> 'd" where
  "write_txn db body d =
     (case try_bind (db_begin_write db d) body of
        Err e \<Rightarrow> (Err (Persist e), d)
      | Ok w \<Rightarrow>
          (case db_commit db w of
             (Ok u, d') \<Rightarrow> (Ok u, d')
           | (Err e, d') \<Rightarrow> (Err (Persist e), d')))"

definition read_txn :: "('d, 'w, 'r) database \<Rightarrow> ('r \<Rightarrow> ('a, string) result) \<Rightarrow> 'd \<Rightarrow> ('a, storage_error) result" where
  "read_txn db body d =
     (case try_bind (db_begin_read db d) body of Ok a \<Rightarrow> Ok a | Err e \<Rightarrow> Err (Load e))"

definition put :: "('w, 'r, 'k, 'v) table \<Rightarrow> 'k \<Rightarrow> 'v \<Rightarrow> 'w \<Rightarrow> ('w, string) result" where
  "put tb k v w = try_bind (tb_open tb w) (tb_insert tb k v)"

definition put_option :: "('w, 'r, 'k, 'v) table \<Rightarrow> 'k \<Rightarrow> 'v option \<Rightarrow> 'w \<Rightarrow> ('w, string) result" where
  "put_option tb k x w =
     try_bind (tb_open tb w) (\<lambda>w1. case x of Some v \<Rightarrow> tb_insert tb k v w1 | None \<Rightarrow> tb_remove tb k w1)"

definition fetch :: "('w, 'r, 'k, 'v) table \<Rightarrow> 'k \<Rightarrow> 'r \<Rightarrow> ('v option, string) result" where
  "fetch tb k r = try_bind (tb_open_read tb r) (tb_get tb k)"

text \<open>The loops over a table: every row must be readable and decode.\<close>

fun load_rows :: "('k \<times> 'v \<Rightarrow> ('a, string) result) \<Rightarrow> ('k \<times> 'v, string) result list \<Rightarrow> 'a list \<Rightarrow> ('a list, string) result" where
  "load_rows decode [] out = Ok out"
| "load_rows decode (entry # rest) out =
     try_bind entry (\<lambda>row. try_bind (decode row) (\<lambda>a. load_rows decode rest (out @ [a])))"

definition scan :: "('w, 'r, 'k, 'v) table \<Rightarrow> ('k \<times> 'v \<Rightarrow> ('a, string) result) \<Rightarrow> 'r \<Rightarrow> ('a list, string) result" where
  "scan tb decode r =
     try_bind (tb_open_read tb r) (\<lambda>r1. try_bind (tb_iter tb r1) (\<lambda>entries. load_rows decode entries []))"

section \<open>Decisions\<close>

definition redb_save_decision ::
  "('d, 'w, 'r) database \<Rightarrow> ('w, 'r, u64, string) table \<Rightarrow> 'v json \<Rightarrow> u64 \<Rightarrow> 'v \<Rightarrow> 'd \<Rightarrow> (unit, storage_error) result \<times> 'd" where
  "redb_save_decision db tb json slot v d =
     (case js_to_string json v of
        Err e \<Rightarrow> (Err (Persist e), d)
      | Ok serialized \<Rightarrow> write_txn db (put tb slot serialized) d)"

definition redb_load_decisions ::
  "('d, 'w, 'r) database \<Rightarrow> ('w, 'r, u64, string) table \<Rightarrow> 'v json \<Rightarrow> 'd \<Rightarrow> ((u64 \<times> 'v) list, storage_error) result" where
  "redb_load_decisions db tb json =
     read_txn db (scan tb (\<lambda>(slot, raw). try_bind (js_from_str json raw) (\<lambda>v. Ok (slot, v))))"

definition redb_paxos_from_database ::
  "('d, 'w, 'r) database \<Rightarrow> ('w, 'r, u64, string) table \<Rightarrow> 'd \<Rightarrow> (unit, storage_error) result \<times> 'd" where
  "redb_paxos_from_database db tb = write_txn db (tb_open tb)"

definition redb_paxos_ops ::
  "('d, 'w, 'r) database \<Rightarrow> ('w, 'r, u64, string) table \<Rightarrow> 'v json \<Rightarrow> ('d, 'v) paxos_storage" where
  "redb_paxos_ops db tb json =
     \<lparr>ps_save_decision = redb_save_decision db tb json, ps_load_decisions = redb_load_decisions db tb json\<rparr>"

section \<open>Raft\<close>

definition redb_raft_from_database ::
  "('d, 'w, 'r) database \<Rightarrow> ('w, 'r) raft_tables \<Rightarrow> 'd \<Rightarrow> (unit, storage_error) result \<times> 'd" where
  "redb_raft_from_database db ts =
     write_txn db (\<lambda>w.
       try_bind (tb_open (RAFT_DECISIONS ts) w) (\<lambda>w1.
       try_bind (tb_open (RAFT_LOG ts) w1) (\<lambda>w2.
       try_bind (tb_open (RAFT_TERM ts) w2) (\<lambda>w3.
       try_bind (tb_open (RAFT_VOTED_FOR ts) w3) (tb_open (RAFT_COMMIT_INDEX ts))))))"

definition redb_save_term ::
  "('d, 'w, 'r) database \<Rightarrow> ('w, 'r) raft_tables \<Rightarrow> u64 \<Rightarrow> 'd \<Rightarrow> (unit, storage_error) result \<times> 'd" where
  "redb_save_term db ts t = write_txn db (put (RAFT_TERM ts) META_KEY t)"

definition redb_load_term :: "('d, 'w, 'r) database \<Rightarrow> ('w, 'r) raft_tables \<Rightarrow> 'd \<Rightarrow> (u64, storage_error) result" where
  "redb_load_term db ts =
     read_txn db (\<lambda>r. try_bind (fetch (RAFT_TERM ts) META_KEY r) (\<lambda>x. Ok (case x of Some t \<Rightarrow> t | None \<Rightarrow> 0)))"

definition redb_save_voted_for ::
  "('d, 'w, 'r) database \<Rightarrow> ('w, 'r) raft_tables \<Rightarrow> node_id option \<Rightarrow> 'd \<Rightarrow> (unit, storage_error) result \<times> 'd" where
  "redb_save_voted_for db ts voted_for =
     (let row = map_option (\<lambda>n. (nid_name n, nid_incarnation n)) voted_for
      in write_txn db (put_option (RAFT_VOTED_FOR ts) META_KEY row))"

definition redb_load_voted_for ::
  "('d, 'w, 'r) database \<Rightarrow> ('w, 'r) raft_tables \<Rightarrow> 'd \<Rightarrow> (node_id option, storage_error) result" where
  "redb_load_voted_for db ts =
     read_txn db (\<lambda>r. try_bind (fetch (RAFT_VOTED_FOR ts) META_KEY r)
       (\<lambda>x. Ok (case x of Some (name, inc) \<Rightarrow> Some (NodeId name inc) | None \<Rightarrow> None)))"

text \<open>
  The log: rows \<open>next_index, next_index + 1, ...\<close> after the last one. The table has far fewer than
  \<open>2 ^ 64\<close> rows, so the indexes do not wrap.
\<close>

fun serialize_entries :: "'v json \<Rightarrow> 'v log_entry list \<Rightarrow> ((u64 \<times> string) list, string) result" where
  "serialize_entries json [] = Ok []"
| "serialize_entries json (e # es) =
     try_bind (js_to_string json (e_value e)) (\<lambda>v.
     try_bind (serialize_entries json es) (\<lambda>rows. Ok ((e_term e, v) # rows)))"

fun insert_rows :: "('w, 'r, u64, u64 \<times> string) table \<Rightarrow> u64 \<Rightarrow> (u64 \<times> string) list \<Rightarrow> 'w \<Rightarrow> ('w, string) result" where
  "insert_rows tb idx [] w = Ok w"
| "insert_rows tb idx (row # rows) w = try_bind (tb_insert tb idx row w) (insert_rows tb (idx + 1) rows)"

definition redb_append_log ::
  "('d, 'w, 'r) database \<Rightarrow> ('w, 'r) raft_tables \<Rightarrow> 'v json \<Rightarrow> 'v log_entry list \<Rightarrow> 'd \<Rightarrow> (unit, storage_error) result \<times> 'd" where
  "redb_append_log db ts json entries d =
     (case serialize_entries json entries of
        Err e \<Rightarrow> (Err (Persist e), d)
      | Ok serialized \<Rightarrow>
          if serialized = [] then (Ok (), d)
          else
            write_txn db (\<lambda>w.
              try_bind (tb_open (RAFT_LOG ts) w) (\<lambda>w1.
              try_bind (tb_last (RAFT_LOG ts) w1) (\<lambda>last_row.
                let next_index = (case last_row of Some (k, _) \<Rightarrow> k + 1 | None \<Rightarrow> 0)
                in insert_rows (RAFT_LOG ts) next_index serialized w1))) d)"

definition redb_truncate_log_from ::
  "('d, 'w, 'r) database \<Rightarrow> ('w, 'r) raft_tables \<Rightarrow> u64 \<Rightarrow> 'd \<Rightarrow> (unit, storage_error) result \<times> 'd" where
  "redb_truncate_log_from db ts index =
     write_txn db (\<lambda>w. try_bind (tb_open (RAFT_LOG ts) w) (tb_extract_from (RAFT_LOG ts) index))"

definition redb_load_log ::
  "('d, 'w, 'r) database \<Rightarrow> ('w, 'r) raft_tables \<Rightarrow> 'v json \<Rightarrow> 'd \<Rightarrow> ('v log_entry list, storage_error) result" where
  "redb_load_log db ts json =
     read_txn db (scan (RAFT_LOG ts) (\<lambda>(_, t, raw). try_bind (js_from_str json raw) (\<lambda>v. Ok (LogEntry t v))))"

definition redb_save_commit_index ::
  "('d, 'w, 'r) database \<Rightarrow> ('w, 'r) raft_tables \<Rightarrow> u64 option \<Rightarrow> 'd \<Rightarrow> (unit, storage_error) result \<times> 'd" where
  "redb_save_commit_index db ts commit_index = write_txn db (put_option (RAFT_COMMIT_INDEX ts) META_KEY commit_index)"

definition redb_load_commit_index ::
  "('d, 'w, 'r) database \<Rightarrow> ('w, 'r) raft_tables \<Rightarrow> 'd \<Rightarrow> (u64 option, storage_error) result" where
  "redb_load_commit_index db ts = read_txn db (fetch (RAFT_COMMIT_INDEX ts) META_KEY)"

definition redb_raft_ops ::
  "('d, 'w, 'r) database \<Rightarrow> ('w, 'r) raft_tables \<Rightarrow> 'v json \<Rightarrow> ('d, 'v) raft_storage" where
  "redb_raft_ops db ts json =
     \<lparr>rs_save_decision = redb_save_decision db (RAFT_DECISIONS ts) json,
      rs_load_decisions = redb_load_decisions db (RAFT_DECISIONS ts) json,
      rs_save_term = redb_save_term db ts, rs_load_term = redb_load_term db ts,
      rs_save_voted_for = redb_save_voted_for db ts, rs_load_voted_for = redb_load_voted_for db ts,
      rs_append_log = redb_append_log db ts json, rs_truncate_log_from = redb_truncate_log_from db ts,
      rs_load_log = redb_load_log db ts json,
      rs_save_commit_index = redb_save_commit_index db ts, rs_load_commit_index = redb_load_commit_index db ts\<rparr>"

section \<open>What is relied on\<close>

lemma load_rows_all:
  "load_rows decode entries out = Ok xs \<Longrightarrow>
   \<exists>rows. entries = map Ok rows \<and> (\<exists>ys. list_all2 (\<lambda>row y. decode row = Ok y) rows ys \<and> xs = out @ ys)"
proof (induction decode entries out rule: load_rows.induct)
  case (1 decode out)
  then show ?case by simp
next
  case (2 decode entry rest out)
  then obtain row a where row: "entry = Ok row" "decode row = Ok a" "load_rows decode rest (out @ [a]) = Ok xs" by auto
  from 2(1) [OF row(3)] obtain rows ys where "rest = map Ok rows" "list_all2 (\<lambda>row y. decode row = Ok y) rows ys" "xs = (out @ [a]) @ ys"
    by blast
  with row show ?case by (intro exI [of _ "row # rows"]) auto
qed

text \<open>
  The contents of a database, of a write transaction and of a read transaction, as a record of maps.
\<close>

locale redb_database =
  fixes db :: "('d, 'w, 'r) database"
    and view :: "'d \<Rightarrow> 'T"
    and wview :: "'w \<Rightarrow> 'T"
    and rview :: "'r \<Rightarrow> 'T"
  assumes begin_write: "db_begin_write db d = Ok w \<Longrightarrow> wview w = view d"
    and commit: "db_commit db w = (Ok (), d) \<Longrightarrow> view d = wview w"
    and begin_read: "db_begin_read db d = Ok r \<Longrightarrow> rview r = view d"
begin

lemma write_txn_view:
  assumes "write_txn db body d = (Ok (), d')" and "\<And>w w'. wview w = view d \<Longrightarrow> body w = Ok w' \<Longrightarrow> wview w' = T"
  shows "view d' = T"
proof -
  obtain w w' where "db_begin_write db d = Ok w" "body w = Ok w'" "db_commit db w' = (Ok (), d')"
    using assms(1) by (auto simp: write_txn_def split: result.splits prod.splits)
  then show ?thesis using assms(2) begin_write commit by metis
qed

lemma read_txn_view:
  assumes "read_txn db body d = Ok a"
  shows "\<exists>r. rview r = view d \<and> body r = Ok a"
  using assms begin_read by (auto simp: read_txn_def split: result.splits)

end

text \<open>
  A table is an ordered map, one component of the contents: \<open>get\<close> reads it, \<open>upd\<close> changes it and
  leaves the other components alone.
\<close>

locale redb_table = redb_database db view wview rview
  for db :: "('d, 'w, 'r) database" and view :: "'d \<Rightarrow> 'T" and wview rview +
  fixes tb :: "('w, 'r, 'k :: linorder, 'v) table"
    and get :: "'T \<Rightarrow> 'k \<rightharpoonup> 'v"
    and upd :: "(('k \<rightharpoonup> 'v) \<Rightarrow> ('k \<rightharpoonup> 'v)) \<Rightarrow> 'T \<Rightarrow> 'T"
  assumes open_table: "tb_open tb w = Ok w' \<Longrightarrow> wview w' = wview w"
    and insert: "tb_insert tb k v w = Ok w' \<Longrightarrow> wview w' = upd (\<lambda>m. m(k \<mapsto> v)) (wview w)"
    and remove: "tb_remove tb k w = Ok w' \<Longrightarrow> wview w' = upd (\<lambda>m. m(k := None)) (wview w)"
    and last_none: "tb_last tb w = Ok None \<Longrightarrow> get (wview w) = Map.empty"
    and last_some: "tb_last tb w = Ok (Some (k, v)) \<Longrightarrow> k \<in> dom (get (wview w)) \<and> (\<forall>k'\<in>dom (get (wview w)). k' \<le> k)"
    and extract_from: "tb_extract_from tb k w = Ok w' \<Longrightarrow> wview w' = upd (\<lambda>m. m |` {..<k}) (wview w)"
    and open_read: "tb_open_read tb r = Ok r' \<Longrightarrow> rview r' = rview r"
    and iter: "tb_iter tb r = Ok (map Ok rows) \<Longrightarrow> sorted_wrt (<) (map fst rows) \<and> map_of rows = get (rview r)"
    and lookup: "tb_get tb k r = Ok x \<Longrightarrow> x = get (rview r) k"
    and get_upd: "get (upd h t) = h (get t)"
begin

lemma put_view: "put tb k v w = Ok w' \<Longrightarrow> wview w' = upd (\<lambda>m. m(k \<mapsto> v)) (wview w)"
  using insert open_table by (auto simp: put_def)

lemma put_option_view: "put_option tb k x w = Ok w' \<Longrightarrow> wview w' = upd (\<lambda>m. m(k := x)) (wview w)"
  using insert remove open_table by (cases x) (auto simp: put_option_def)

lemma fetch_view: "fetch tb k r = Ok x \<Longrightarrow> x = get (rview r) k"
  unfolding fetch_def try_bind_Ok by (metis lookup open_read)

lemma scan_view:
  assumes "scan tb decode r = Ok xs"
  shows "\<exists>rows. sorted_wrt (<) (map fst rows) \<and> map_of rows = get (rview r) \<and> list_all2 (\<lambda>row x. decode row = Ok x) rows xs"
proof -
  obtain r1 entries where 1: "tb_open_read tb r = Ok r1" "tb_iter tb r1 = Ok entries" "load_rows decode entries [] = Ok xs"
    using assms by (auto simp: scan_def)
  obtain rows where "entries = map Ok rows" "list_all2 (\<lambda>row x. decode row = Ok x) rows xs" using load_rows_all [OF 1(3)] by auto
  with 1 iter open_read show ?thesis by metis
qed

end

text \<open>What a row stands for.\<close>

definition json_decoded :: "'v json \<Rightarrow> string \<Rightarrow> 'v" where
  "json_decoded json raw = (case js_from_str json raw of Ok v \<Rightarrow> v | Err _ \<Rightarrow> undefined)"

lemma json_decoded_Ok [simp]: "js_from_str json raw = Ok v \<Longrightarrow> json_decoded json raw = v"
  by (simp add: json_decoded_def)

locale json_codec =
  fixes json :: "'v json"
  assumes json_roundtrip: "js_to_string json v = Ok raw \<Longrightarrow> js_from_str json raw = Ok v"
begin

lemma serialized_entries:
  "serialize_entries json es = Ok rows \<Longrightarrow> map (\<lambda>(t, raw). LogEntry t (json_decoded json raw)) rows = es"
proof (induction es arbitrary: rows)
  case Nil
  then show ?case by simp
next
  case (Cons e es)
  then show ?case using json_roundtrip by (cases e) auto
qed

end

section \<open>Decisions are kept\<close>

locale redb_decisions = redb_table db view wview rview tb get upd + json_codec json
  for db :: "('d, 'w, 'r) database" and view :: "'d \<Rightarrow> 'T" and wview rview and tb :: "('w, 'r, u64, string) table"
    and get upd and json :: "'v json"
begin

abbreviation decided_of :: "'d \<Rightarrow> u64 \<rightharpoonup> 'v" where
  "decided_of d \<equiv> (\<lambda>slot. map_option (json_decoded json) (get (view d) slot))"

lemma save_decision_view:
  assumes "redb_save_decision db tb json slot v d = (Ok (), d')"
  shows "\<exists>raw. js_from_str json raw = Ok v \<and> view d' = upd (\<lambda>m. m(slot \<mapsto> raw)) (view d)"
proof -
  obtain raw where raw: "js_to_string json v = Ok raw" "write_txn db (put tb slot raw) d = (Ok (), d')"
    using assms by (auto simp: redb_save_decision_def split: result.splits)
  have "view d' = upd (\<lambda>m. m(slot \<mapsto> raw)) (view d)" by (rule write_txn_view [OF raw(2)]) (metis put_view)
  with json_roundtrip [OF raw(1)] show ?thesis by blast
qed

lemma load_decisions_view:
  assumes "redb_load_decisions db tb json d = Ok ds"
  shows "map_of ds = decided_of d \<and> distinct (map fst ds)"
proof -
  let ?decode = "\<lambda>(slot, raw). try_bind (js_from_str json raw) (\<lambda>v. Ok (slot, v))"
  obtain r where r: "rview r = view d" "scan tb ?decode r = Ok ds"
    using read_txn_view [OF assms [unfolded redb_load_decisions_def]] by blast
  obtain rows where rows: "sorted_wrt (<) (map fst rows)" "map_of rows = get (view d)"
    "list_all2 (\<lambda>row x. ?decode row = Ok x) rows ds" using scan_view [OF r(2)] unfolding r(1) by blast
  from rows(3) have ds: "ds = map (\<lambda>(slot, raw). (slot, json_decoded json raw)) rows" by (induction) auto
  then have "map_of ds = (\<lambda>slot. map_option (json_decoded json) (map_of rows slot))" by (simp add: map_of_map comp_def)
  moreover have "map fst ds = map fst rows" by (simp add: ds case_prod_unfold comp_def)
  moreover have "distinct (map fst rows)" using rows(1) by (simp add: strict_sorted_iff)
  ultimately show ?thesis using rows(2) by simp
qed

end

sublocale redb_decisions < paxos: paxos_storage_contract "redb_paxos_ops db tb json" "\<lambda>_. True" decided_of "\<lambda>v. v"
proof
  fix d d' slot v
  assume "ps_save_decision (redb_paxos_ops db tb json) slot v d = (Ok (), d')"
  then obtain raw where "js_from_str json raw = Ok v" "view d' = upd (\<lambda>m. m(slot \<mapsto> raw)) (view d)"
    unfolding redb_paxos_ops_def paxos_storage.simps using save_decision_view by blast
  then show "True \<and> decided_of d' = (decided_of d)(slot \<mapsto> v)" by (auto simp: get_upd)
next
  fix d ds
  assume "ps_load_decisions (redb_paxos_ops db tb json) d = Ok ds"
  then show "map_of ds = decided_of d \<and> distinct (map fst ds)" using load_decisions_view by (simp add: redb_paxos_ops_def)
qed

context redb_decisions
begin

lemmas paxos_contract_of = paxos.paxos_storage_contract_axioms

lemma paxos_open_keeps: "redb_paxos_from_database db tb d = (Ok (), d') \<Longrightarrow> view d' = view d"
  unfolding redb_paxos_from_database_def by (erule write_txn_view) (metis open_table)

end

section \<open>The Raft state is kept\<close>

text \<open>The contents of the Raft tables.\<close>

record raft_contents =
  ct_decisions :: "u64 \<rightharpoonup> string"
  ct_log :: "u64 \<rightharpoonup> u64 \<times> string"
  ct_term :: "string \<rightharpoonup> u64"
  ct_voted_for :: "string \<rightharpoonup> string \<times> u64"
  ct_commit_index :: "string \<rightharpoonup> u64"

text \<open>The log has no holes.\<close>

definition log_rows :: "raft_contents \<Rightarrow> nat" where
  "log_rows t = card (dom (ct_log t))"

definition contents_ok :: "raft_contents \<Rightarrow> bool" where
  "contents_ok t \<longleftrightarrow> dom (ct_log t) = {..<log_rows t}"

definition decoded_row :: "'v json \<Rightarrow> u64 \<times> string \<Rightarrow> 'v log_entry" where
  "decoded_row json = (\<lambda>(t, raw). LogEntry t (json_decoded json raw))"

definition contents_durable :: "'v json \<Rightarrow> raft_contents \<Rightarrow> 'v durable" where
  "contents_durable json t =
     \<lparr>dur_term = (case ct_term t META_KEY of Some n \<Rightarrow> n | None \<Rightarrow> 0),
      dur_voted_for = map_option (\<lambda>(name, inc). NodeId name inc) (ct_voted_for t META_KEY),
      dur_log = map (\<lambda>i. decoded_row json (the (ct_log t i))) [0..<log_rows t],
      dur_commit_index = ct_commit_index t META_KEY,
      dur_decisions = (\<lambda>slot. map_option (json_decoded json) (ct_decisions t slot))\<rparr>"

lemma contents_okI: "dom (ct_log t) = {..<n} \<Longrightarrow> contents_ok t \<and> log_rows t = n"
  by (simp add: contents_ok_def log_rows_def)

text \<open>Appending and cutting rows.\<close>

definition with_rows :: "u64 \<Rightarrow> (u64 \<times> string) list \<Rightarrow> (u64 \<rightharpoonup> u64 \<times> string) \<Rightarrow> (u64 \<rightharpoonup> u64 \<times> string)" where
  "with_rows idx rows m = (\<lambda>k. if idx \<le> k \<and> k < idx + length rows then Some (rows ! (k - idx)) else m k)"

lemma with_rows_Nil [simp]: "with_rows idx [] = (\<lambda>m. m)"
  by (auto simp: with_rows_def fun_eq_iff)

lemma with_rows_Cons: "with_rows (idx + 1) rows (m(idx \<mapsto> row)) = with_rows idx (row # rows) m"
  by (auto simp: with_rows_def fun_eq_iff nth_Cons' Suc_diff_le)

lemma dom_with_rows: "dom (with_rows idx rows m) = dom m \<union> {idx..<idx + length rows}"
  by (auto simp: with_rows_def split: if_splits)

lemma with_rows_durable:
  assumes "contents_ok t" and t'_def: "t' = ct_log_update (with_rows (log_rows t) rows) t"
  shows "contents_ok t'"
    and "contents_durable json t' = (contents_durable json t)\<lparr>dur_log := dur_log (contents_durable json t) @ map (decoded_row json) rows\<rparr>"
proof -
  let ?n = "log_rows t"
  have "dom (ct_log t') = {..<?n + length rows}"
    using assms(1) by (auto simp: t'_def contents_ok_def dom_with_rows)
  then have n: "contents_ok t'" "log_rows t' = ?n + length rows" using contents_okI by blast+
  have same: "ct_term t' = ct_term t" "ct_voted_for t' = ct_voted_for t" "ct_commit_index t' = ct_commit_index t"
    "ct_decisions t' = ct_decisions t" by (simp_all add: t'_def)
  have "map (\<lambda>i. decoded_row json (the (ct_log t' i))) [?n..<?n + length rows] = map (decoded_row json) rows"
    by (rule nth_equalityI) (simp_all add: t'_def with_rows_def)
  moreover have "map (\<lambda>i. decoded_row json (the (ct_log t' i))) [0..<?n] = map (\<lambda>i. decoded_row json (the (ct_log t i))) [0..<?n]"
    by (simp add: t'_def with_rows_def)
  ultimately show "contents_durable json t' = (contents_durable json t)\<lparr>dur_log := dur_log (contents_durable json t) @ map (decoded_row json) rows\<rparr>"
    using n(2) upt_add_eq_append [of 0 ?n "length rows"] same by (simp add: contents_durable_def)
  show "contents_ok t'" by (rule n(1))
qed

lemma cut_rows_durable:
  assumes "contents_ok t" and t'_def: "t' = ct_log_update (\<lambda>m. m |` {..<i}) t"
  shows "contents_ok t'"
    and "contents_durable json t' = (contents_durable json t)\<lparr>dur_log := take i (dur_log (contents_durable json t))\<rparr>"
proof -
  let ?n = "log_rows t"
  have "dom (ct_log t') = {..<min ?n i}" using assms by (auto simp: t'_def contents_ok_def)
  then have n: "contents_ok t'" "log_rows t' = min ?n i" using contents_okI by blast+
  have same: "ct_term t' = ct_term t" "ct_voted_for t' = ct_voted_for t" "ct_commit_index t' = ct_commit_index t"
    "ct_decisions t' = ct_decisions t" by (simp_all add: t'_def)
  have "take i [0..<?n] = [0..<min ?n i]" by (cases "i \<le> ?n") (simp_all add: min_def)
  moreover have logged: "map (\<lambda>k. decoded_row json (the (ct_log t' k))) [0..<min ?n i] = map (\<lambda>k. decoded_row json (the (ct_log t k))) [0..<min ?n i]"
    by (simp add: t'_def)
  ultimately show "contents_durable json t' = (contents_durable json t)\<lparr>dur_log := take i (dur_log (contents_durable json t))\<rparr>"
    using n(2) same by (simp add: contents_durable_def take_map logged)
  show "contents_ok t'" by (rule n(1))
qed

lemma log_rows_cong: "ct_log t = ct_log t' \<Longrightarrow> log_rows t = log_rows t'"
  by (simp add: log_rows_def)

locale redb_raft =
  dec: redb_decisions db view wview rview "RAFT_DECISIONS ts" ct_decisions ct_decisions_update json +
  log: redb_table db view wview rview "RAFT_LOG ts" ct_log ct_log_update +
  trm: redb_table db view wview rview "RAFT_TERM ts" ct_term ct_term_update +
  vote: redb_table db view wview rview "RAFT_VOTED_FOR ts" ct_voted_for ct_voted_for_update +
  ci: redb_table db view wview rview "RAFT_COMMIT_INDEX ts" ct_commit_index ct_commit_index_update
  for db :: "('d, 'w, 'r) database" and view :: "'d \<Rightarrow> raft_contents" and wview rview
    and ts :: "('w, 'r) raft_tables" and json :: "'v json"
begin

lemma insert_rows_view:
  "insert_rows (RAFT_LOG ts) idx rows w = Ok w' \<Longrightarrow> wview w' = ct_log_update (with_rows idx rows) (wview w)"
proof (induction rows arbitrary: idx w)
  case Nil
  then show ?case by (cases "wview w") simp
next
  case (Cons row rows)
  then obtain w1 where w1: "tb_insert (RAFT_LOG ts) idx row w = Ok w1" "insert_rows (RAFT_LOG ts) (idx + 1) rows w1 = Ok w'" by auto
  from Cons.IH [OF w1(2)] log.insert [OF w1(1)] show ?case by (simp add: with_rows_Cons [simplified] comp_def)
qed

lemma append_log_view:
  assumes "contents_ok (view d)" and "redb_append_log db ts json es d = (Ok (), d')"
  shows "\<exists>rows. map (decoded_row json) rows = es \<and> view d' = ct_log_update (with_rows (log_rows (view d)) rows) (view d)"
proof -
  obtain rows where rows: "serialize_entries json es = Ok rows" using assms(2) by (auto simp: redb_append_log_def split: result.splits)
  have es: "map (decoded_row json) rows = es" using dec.serialized_entries [OF rows] by (simp add: decoded_row_def)
  show ?thesis
  proof (cases "rows = []")
    case True
    with assms(2) rows have "d' = d" by (simp add: redb_append_log_def)
    with True es show ?thesis by (cases "view d") auto
  next
    case False
    let ?body = "\<lambda>w. try_bind (tb_open (RAFT_LOG ts) w) (\<lambda>w1. try_bind (tb_last (RAFT_LOG ts) w1) (\<lambda>last_row.
      let next_index = (case last_row of Some (k, _) \<Rightarrow> k + 1 | None \<Rightarrow> 0) in insert_rows (RAFT_LOG ts) next_index rows w1))"
    have txn: "write_txn db ?body d = (Ok (), d')" using assms(2) rows False by (simp add: redb_append_log_def)
    have "view d' = ct_log_update (with_rows (log_rows (view d)) rows) (view d)"
    proof (rule dec.write_txn_view [OF txn])
      fix w w'
      assume w: "wview w = view d" and "?body w = Ok w'"
      then obtain w1 last_row where 1: "tb_open (RAFT_LOG ts) w = Ok w1" "tb_last (RAFT_LOG ts) w1 = Ok last_row"
        "insert_rows (RAFT_LOG ts) (case last_row of Some (k, _) \<Rightarrow> k + 1 | None \<Rightarrow> 0) rows w1 = Ok w'" by (auto simp: Let_def)
      have w1: "wview w1 = view d" using log.open_table [OF 1(1)] w by simp
      have dom: "dom (ct_log (wview w1)) = {..<log_rows (view d)}" using assms(1) w1 by (simp add: contents_ok_def)
      have "(case last_row of Some (k, _) \<Rightarrow> k + 1 | None \<Rightarrow> 0) = log_rows (view d)"
      proof (cases last_row)
        case None
        then show ?thesis using log.last_none [of w1] 1(2) dom by (auto simp: lessThan_eq_iff set_eq_iff)
      next
        case (Some row)
        obtain k x where row: "row = (k, x)" by (cases row)
        have "k \<in> {..<log_rows (view d)}" "\<forall>k'\<in>{..<log_rows (view d)}. k' \<le> k"
          using log.last_some [of w1 k x] 1(2) Some row unfolding dom by simp_all
        then have "log_rows (view d) = k + 1" by (metis Suc_eq_plus1 Suc_leI lessThan_iff less_Suc_eq_le linorder_neqE_nat not_less_eq)
        with Some row show ?thesis by simp
      qed
      with insert_rows_view 1(3) w1 show "wview w' = ct_log_update (with_rows (log_rows (view d)) rows) (view d)" by metis
    qed
    with es show ?thesis by blast
  qed
qed

lemma truncate_view:
  assumes "redb_truncate_log_from db ts i d = (Ok (), d')"
  shows "view d' = ct_log_update (\<lambda>m. m |` {..<i}) (view d)"
  by (rule dec.write_txn_view [OF assms [unfolded redb_truncate_log_from_def]])
     (unfold try_bind_Ok, metis log.open_table log.extract_from)

lemma load_log_view:
  assumes "contents_ok (view d)" and "redb_load_log db ts json d = Ok l"
  shows "l = dur_log (contents_durable json (view d))"
proof -
  let ?decode = "\<lambda>(_ :: u64, t, raw). try_bind (js_from_str json raw) (\<lambda>v. Ok (LogEntry t v))"
  obtain r where r: "rview r = view d" "scan (RAFT_LOG ts) ?decode r = Ok l"
    using dec.read_txn_view [OF assms(2) [unfolded redb_load_log_def]] by blast
  obtain rows where rows: "sorted_wrt (<) (map fst rows)" "map_of rows = ct_log (view d)"
    "list_all2 (\<lambda>row x. ?decode row = Ok x) rows l" using log.scan_view [OF r(2)] unfolding r(1) by blast
  from rows(3) have l: "l = map (\<lambda>(k, row). decoded_row json row) rows" by induction (auto simp: decoded_row_def)
  have "set (map fst rows) = {..<log_rows (view d)}"
    using assms(1) rows(2) by (metis contents_ok_def dom_map_of_conv_image_fst list.set_map)
  then have keys: "map fst rows = [0..<log_rows (view d)]"
    using rows(1) by (metis atLeast_upt sorted_list_of_set_lessThan_Suc strict_sorted_equal strict_sorted_iff sorted_upt distinct_upt)
  have "\<forall>(k, row)\<in>set rows. ct_log (view d) k = Some row"
    using rows(1,2) by (auto simp: strict_sorted_iff simp flip: rows(2))
  then have "l = map (\<lambda>k. decoded_row json (the (ct_log (view d) k))) (map fst rows)" unfolding l by auto
  then show ?thesis unfolding keys by (simp add: contents_durable_def)
qed

end

context redb_raft
begin

lemma open_keeps: "redb_raft_from_database db ts d = (Ok (), d') \<Longrightarrow> view d' = view d"
  unfolding redb_raft_from_database_def
  by (erule dec.write_txn_view) (unfold try_bind_Ok, metis dec.open_table log.open_table trm.open_table vote.open_table ci.open_table)

end

sublocale redb_raft < raft: raft_storage_contract "redb_raft_ops db ts json" "\<lambda>d. contents_ok (view d)"
  "\<lambda>d. contents_durable json (view d)" "\<lambda>v. v"
proof (unfold_locales, unfold redb_raft_ops_def raft_storage.simps, goal_cases)
  case (1 d slot v d')
  then obtain raw where "js_from_str json raw = Ok v" "view d' = ct_decisions_update (\<lambda>m. m(slot \<mapsto> raw)) (view d)"
    using dec.save_decision_view by blast
  with 1(1) show ?case by (auto simp: contents_ok_def contents_durable_def log_rows_def)
next
  case (2 d ds)
  then show ?case using dec.load_decisions_view [of d ds] by (simp add: contents_durable_def)
next
  case (3 d t d')
  have "view d' = ct_term_update (\<lambda>m. m(META_KEY \<mapsto> t)) (view d)"
    by (rule dec.write_txn_view [OF 3(2) [unfolded redb_save_term_def]]) (metis trm.put_view)
  with 3(1) show ?case by (simp add: contents_ok_def contents_durable_def log_rows_def)
next
  case (4 d t)
  obtain r where "rview r = view d" "try_bind (fetch (RAFT_TERM ts) META_KEY r) (\<lambda>x. Ok (case x of Some t \<Rightarrow> t | None \<Rightarrow> 0)) = Ok t"
    using dec.read_txn_view [OF 4(2) [unfolded redb_load_term_def]] by blast
  then show ?case using trm.fetch_view [of META_KEY r] by (auto simp: contents_durable_def)
next
  case (5 d vf d')
  have "view d' = ct_voted_for_update (\<lambda>m. m(META_KEY := map_option (\<lambda>n. (nid_name n, nid_incarnation n)) vf)) (view d)"
    by (rule dec.write_txn_view [OF 5(2) [unfolded redb_save_voted_for_def Let_def]]) (metis vote.put_option_view)
  with 5(1) show ?case by (cases vf) (simp_all add: contents_ok_def contents_durable_def log_rows_def)
next
  case (6 d vf)
  obtain r where "rview r = view d" "try_bind (fetch (RAFT_VOTED_FOR ts) META_KEY r)
      (\<lambda>x. Ok (case x of Some (name, inc) \<Rightarrow> Some (NodeId name inc) | None \<Rightarrow> None)) = Ok vf"
    using dec.read_txn_view [OF 6(2) [unfolded redb_load_voted_for_def]] by blast
  then obtain x where "rview r = view d" "fetch (RAFT_VOTED_FOR ts) META_KEY r = Ok x" "vf = (case x of Some (name, inc) \<Rightarrow> Some (NodeId name inc) | None \<Rightarrow> None)"
    by auto
  moreover from this have "ct_voted_for (view d) META_KEY = x" using vote.fetch_view [of META_KEY r x] by simp
  ultimately show ?case by (cases x) (auto simp: contents_durable_def)
next
  case (7 d es d')
  then obtain rows where rows: "map (decoded_row json) rows = es" "view d' = ct_log_update (with_rows (log_rows (view d)) rows) (view d)"
    using append_log_view by blast
  show ?case using with_rows_durable(1) [OF 7(1) rows(2)] with_rows_durable(2) [OF 7(1) rows(2), of json] by (simp add: rows(1))
next
  case (8 d i d')
  show ?case using cut_rows_durable(1) [OF 8(1) truncate_view [OF 8(2)]] cut_rows_durable(2) [OF 8(1) truncate_view [OF 8(2)], of json] by simp
next
  case (9 d l)
  then show ?case by (rule load_log_view)
next
  case (10 d ci d')
  have "view d' = ct_commit_index_update (\<lambda>m. m(META_KEY := ci)) (view d)"
    by (rule dec.write_txn_view [OF 10(2) [unfolded redb_save_commit_index_def]]) (metis ci.put_option_view)
  with 10(1) show ?case by (simp add: contents_ok_def contents_durable_def log_rows_def)
next
  case (11 d ci)
  obtain r where "rview r = view d" "fetch (RAFT_COMMIT_INDEX ts) META_KEY r = Ok ci"
    using dec.read_txn_view [OF 11(2) [unfolded redb_load_commit_index_def]] by blast
  then show ?case using ci.fetch_view [of META_KEY r ci] by (simp add: contents_durable_def)
qed simp

context redb_raft
begin

lemmas contract_of = raft.raft_storage_contract_axioms

end

section \<open>A database that behaves as relied on\<close>

definition ref_db :: "('T, 'T, 'T) database" where
  "ref_db = \<lparr>db_begin_write = Ok, db_commit = (\<lambda>w. (Ok (), w)), db_begin_read = Ok\<rparr>"

definition ref_table ::
  "('T \<Rightarrow> 'k :: linorder \<rightharpoonup> 'v) \<Rightarrow> ((('k \<rightharpoonup> 'v) \<Rightarrow> ('k \<rightharpoonup> 'v)) \<Rightarrow> 'T \<Rightarrow> 'T) \<Rightarrow> ('T, 'T, 'k, 'v) table" where
  "ref_table get upd =
     \<lparr>tb_open = Ok,
      tb_insert = (\<lambda>k v w. Ok (upd (\<lambda>m. m(k \<mapsto> v)) w)),
      tb_remove = (\<lambda>k w. Ok (upd (\<lambda>m. m(k := None)) w)),
      tb_last = (\<lambda>w. let ks = dom (get w) in
        if ks = {} then Ok None else if finite ks then Ok (Some (Max ks, the (get w (Max ks)))) else Err ''corrupt''),
      tb_extract_from = (\<lambda>k w. Ok (upd (\<lambda>m. m |` {..<k}) w)),
      tb_open_read = Ok,
      tb_iter = (\<lambda>r. if finite (dom (get r)) then Ok (map (\<lambda>k. Ok (k, the (get r k))) (sorted_list_of_set (dom (get r)))) else Err ''corrupt''),
      tb_get = (\<lambda>k r. Ok (get r k))\<rparr>"

lemma ref_iter:
  assumes "finite (dom m)" and "map (\<lambda>k. Ok (k, the (m k))) (sorted_list_of_set (dom m)) = map (Ok :: _ \<Rightarrow> (_, string) result) rows"
  shows "sorted_wrt (<) (map fst rows) \<and> map_of rows = m"
proof -
  let ?rows = "map (\<lambda>k. (k, the (m k))) (sorted_list_of_set (dom m))"
  have "map (Ok :: _ \<Rightarrow> (_, string) result) ?rows = map Ok rows" using assms(2) by (simp add: comp_def)
  then have rows: "rows = ?rows" by (simp only: inj_map_eq_map inj_def result.inject simp_thms)
  have "map_of rows k = m k" for k
    unfolding rows using assms(1) by (cases "m k") (auto simp: map_of_map_restrict restrict_map_def)
  moreover have "sorted_wrt (<) (map fst rows)" unfolding rows by (simp add: comp_def)
  ultimately show ?thesis by blast
qed

lemma ref_table_contract:
  assumes "\<And>h t. get (upd h t) = h (get t)"
  shows "redb_table ref_db (\<lambda>d. d) (\<lambda>w. w) (\<lambda>r. r) (ref_table get upd) get upd"
proof (unfold_locales, goal_cases)
  case (7 w)
  then show ?case by (auto simp: ref_table_def Let_def split: if_splits)
next
  case (8 w k v)
  then have "finite (dom (get w))" "dom (get w) \<noteq> {}" "k = Max (dom (get w))" by (auto simp: ref_table_def Let_def split: if_splits)
  then show ?case using Max_in [of "dom (get w)"] by simp
next
  case (11 r rows)
  then show ?case using ref_iter [of "get r" rows] by (auto simp: ref_table_def split: if_splits)
qed (auto simp: ref_db_def ref_table_def assms)

definition ref_tables :: "(raft_contents, raft_contents) raft_tables" where
  "ref_tables =
     \<lparr>RAFT_DECISIONS = ref_table ct_decisions ct_decisions_update, RAFT_LOG = ref_table ct_log ct_log_update,
      RAFT_TERM = ref_table ct_term ct_term_update, RAFT_VOTED_FOR = ref_table ct_voted_for ct_voted_for_update,
      RAFT_COMMIT_INDEX = ref_table ct_commit_index ct_commit_index_update\<rparr>"

definition ref_json :: "string json" where
  "ref_json = \<lparr>js_to_string = Ok, js_from_str = Ok\<rparr>"

interpretation ref: json_codec ref_json
  by unfold_locales (simp add: ref_json_def)

interpretation ref_raft: redb_raft ref_db "\<lambda>d. d" "\<lambda>w. w" "\<lambda>r. r" ref_tables ref_json
proof -
  let ?holds = "redb_table ref_db (\<lambda>d. d) (\<lambda>w. w) (\<lambda>r. r)"
  have "?holds (RAFT_DECISIONS ref_tables) ct_decisions ct_decisions_update" "?holds (RAFT_LOG ref_tables) ct_log ct_log_update"
    "?holds (RAFT_TERM ref_tables) ct_term ct_term_update" "?holds (RAFT_VOTED_FOR ref_tables) ct_voted_for ct_voted_for_update"
    "?holds (RAFT_COMMIT_INDEX ref_tables) ct_commit_index ct_commit_index_update"
    by (simp_all add: ref_tables_def ref_table_contract)
  then show "redb_raft ref_db (\<lambda>d. d) (\<lambda>w. w) (\<lambda>r. r) ref_tables ref_json"
    by (intro redb_raft.intro redb_decisions.intro ref.json_codec_axioms)
qed

section \<open>Properties\<close>

text \<open>
  C34. The redb storage of Raft is a Raft storage. Given a database whose transactions are atomic and
  whose tables are ordered maps, and a JSON codec that reads back what it wrote: an operation that
  succeeds changes exactly its part of the durable state (a log append puts the entries after the
  last row, a truncation keeps the rows before the index, a cleared vote or commit index is gone), a
  load that succeeds returns exactly it, and opening the storage over an existing database changes
  nothing.
\<close>

theorem redb_raft_meets_contract:
  assumes "redb_raft db view wview rview ts json"
  shows "raft_storage_contract (redb_raft_ops db ts json) (\<lambda>d. contents_ok (view d)) (\<lambda>d. contents_durable json (view d)) (\<lambda>v. v)
    \<and> (\<forall>d d'. redb_raft_from_database db ts d = (Ok (), d') \<longrightarrow> view d' = view d)"
  using redb_raft.open_keeps [OF assms] redb_raft.contract_of [OF assms] by blast

theorem redb_raft_meets_contract_witness:
  "raft_storage_contract (redb_raft_ops ref_db ref_tables ref_json) (\<lambda>d. contents_ok d) (\<lambda>d. contents_durable ref_json d) (\<lambda>v. v)"
  using redb_raft_meets_contract [OF ref_raft.redb_raft_axioms] by blast

text \<open>
  The redb storage of Paxos is a Paxos storage, under the same assumptions: a saved decision is
  the one loaded for its slot, the others are untouched, a load returns each slot once, and opening
  the storage over an existing database changes nothing.
\<close>

theorem redb_paxos_meets_contract:
  assumes "redb_decisions db view wview rview tb get upd json"
  shows "paxos_storage_contract (redb_paxos_ops db tb json) (\<lambda>_. True) (\<lambda>d slot. map_option (json_decoded json) (get (view d) slot)) (\<lambda>v. v)
    \<and> (\<forall>d d'. redb_paxos_from_database db tb d = (Ok (), d') \<longrightarrow> view d' = view d)"
  using redb_decisions.paxos_open_keeps [OF assms] redb_decisions.paxos_contract_of [OF assms] by blast

theorem redb_paxos_meets_contract_witness:
  "paxos_storage_contract (redb_paxos_ops ref_db (RAFT_DECISIONS ref_tables) ref_json) (\<lambda>_. True)
     (\<lambda>d slot. map_option (json_decoded ref_json) (ct_decisions d slot)) (\<lambda>v. v)"
  using redb_paxos_meets_contract [OF ref_raft.dec.redb_decisions_axioms] by blast

end
