(* ===== verification/DuckdbStorage.thy ===== *)
theory DuckdbStorage
  imports RedbStorage
begin

text \<open>
  The DuckDB storages of \<open>daccord/src/duckdb_storage.rs\<close>. DuckDB is a parameter: one operation for
  every SQL statement the code runs, each of which may fail. What is relied on, the meaning of these
  statements on the tables of the schema, is stated in locales; JSON and the treatment of rows are
  shared with the redb storages.
\<close>

section \<open>The statements\<close>

text \<open>
  \<open>'c\<close> is a connection, with the database behind it, and \<open>'x\<close> an open transaction. A query gives its
  rows, each of which may turn out to be unreadable.
\<close>

record 'c paxos_sql =
  pq_schema :: "'c \<Rightarrow> (unit, string) result \<times> 'c"
  pq_upsert_decision :: "u64 \<Rightarrow> string \<Rightarrow> 'c \<Rightarrow> (unit, string) result \<times> 'c"
  pq_select_decisions :: "'c \<Rightarrow> ((u64 \<times> string, string) result list, string) result"

record ('c, 'x) raft_sql =
  rq_schema :: "'c \<Rightarrow> (unit, string) result \<times> 'c"
  rq_seed_meta :: "'c \<Rightarrow> (unit, string) result \<times> 'c"
  rq_upsert_decision :: "u64 \<Rightarrow> string \<Rightarrow> 'c \<Rightarrow> (unit, string) result \<times> 'c"
  rq_select_decisions :: "'c \<Rightarrow> ((u64 \<times> string, string) result list, string) result"
  rq_update_term :: "u64 \<Rightarrow> 'c \<Rightarrow> (unit, string) result \<times> 'c"
  rq_select_term :: "'c \<Rightarrow> (u64, string) result"
  rq_update_voted_for :: "string option \<Rightarrow> u64 option \<Rightarrow> 'c \<Rightarrow> (unit, string) result \<times> 'c"
  rq_select_voted_for :: "'c \<Rightarrow> (string option \<times> u64 option, string) result"
  rq_transaction :: "'c \<Rightarrow> ('x, string) result"
  rq_next_index :: "'x \<Rightarrow> (u64, string) result"
  rq_insert_log :: "u64 \<Rightarrow> u64 \<Rightarrow> string \<Rightarrow> 'x \<Rightarrow> ('x, string) result"
  rq_commit :: "'x \<Rightarrow> (unit, string) result \<times> 'c"
  rq_delete_log_from :: "u64 \<Rightarrow> 'c \<Rightarrow> (unit, string) result \<times> 'c"
  rq_select_log :: "'c \<Rightarrow> ((u64 \<times> string, string) result list, string) result"
  rq_update_commit_index :: "u64 option \<Rightarrow> 'c \<Rightarrow> (unit, string) result \<times> 'c"
  rq_select_commit_index :: "'c \<Rightarrow> (u64 option, string) result"

section \<open>The storages\<close>

text \<open>What a failed statement leaves behind is up to the database.\<close>

definition execute :: "('c \<Rightarrow> (unit, string) result \<times> 'c) \<Rightarrow> 'c \<Rightarrow> (unit, storage_error) result \<times> 'c" where
  "execute stmt c = (case stmt c of (Ok u, c') \<Rightarrow> (Ok u, c') | (Err e, c') \<Rightarrow> (Err (Persist e), c'))"

definition query :: "('a, string) result \<Rightarrow> ('a, storage_error) result" where
  "query r = (case r of Ok a \<Rightarrow> Ok a | Err e \<Rightarrow> Err (Load e))"

definition duckdb_save_decision ::
  "(u64 \<Rightarrow> string \<Rightarrow> 'c \<Rightarrow> (unit, string) result \<times> 'c) \<Rightarrow> 'v json \<Rightarrow> u64 \<Rightarrow> 'v \<Rightarrow> 'c \<Rightarrow> (unit, storage_error) result \<times> 'c" where
  "duckdb_save_decision upsert json slot v c =
     (case js_to_string json v of Err e \<Rightarrow> (Err (Persist e), c) | Ok serialized \<Rightarrow> execute (upsert slot serialized) c)"

definition duckdb_load_decisions ::
  "('c \<Rightarrow> ((u64 \<times> string, string) result list, string) result) \<Rightarrow> 'v json \<Rightarrow> 'c \<Rightarrow> ((u64 \<times> 'v) list, storage_error) result" where
  "duckdb_load_decisions select json c =
     query (try_bind (select c) (\<lambda>rows.
       load_rows (\<lambda>(slot, raw). try_bind (js_from_str json raw) (\<lambda>v. Ok (slot, v))) rows []))"

definition duckdb_paxos_from_connection :: "'c paxos_sql \<Rightarrow> 'c \<Rightarrow> (unit, storage_error) result \<times> 'c" where
  "duckdb_paxos_from_connection sql = execute (pq_schema sql)"

definition duckdb_paxos_ops :: "'c paxos_sql \<Rightarrow> 'v json \<Rightarrow> ('c, 'v) paxos_storage" where
  "duckdb_paxos_ops sql json =
     \<lparr>ps_save_decision = duckdb_save_decision (pq_upsert_decision sql) json,
      ps_load_decisions = duckdb_load_decisions (pq_select_decisions sql) json\<rparr>"

definition duckdb_raft_from_connection :: "('c, 'x) raft_sql \<Rightarrow> 'c \<Rightarrow> (unit, storage_error) result \<times> 'c" where
  "duckdb_raft_from_connection sql c =
     (case execute (rq_schema sql) c of (Ok _, c1) \<Rightarrow> execute (rq_seed_meta sql) c1 | (Err e, c1) \<Rightarrow> (Err e, c1))"

definition duckdb_save_term :: "('c, 'x) raft_sql \<Rightarrow> u64 \<Rightarrow> 'c \<Rightarrow> (unit, storage_error) result \<times> 'c" where
  "duckdb_save_term sql t = execute (rq_update_term sql t)"

definition duckdb_load_term :: "('c, 'x) raft_sql \<Rightarrow> 'c \<Rightarrow> (u64, storage_error) result" where
  "duckdb_load_term sql c = query (rq_select_term sql c)"

definition duckdb_save_voted_for :: "('c, 'x) raft_sql \<Rightarrow> node_id option \<Rightarrow> 'c \<Rightarrow> (unit, storage_error) result \<times> 'c" where
  "duckdb_save_voted_for sql voted_for =
     (let (name, incarnation) = (case voted_for of Some n \<Rightarrow> (Some (nid_name n), Some (nid_incarnation n)) | None \<Rightarrow> (None, None))
      in execute (rq_update_voted_for sql name incarnation))"

definition duckdb_load_voted_for :: "('c, 'x) raft_sql \<Rightarrow> 'c \<Rightarrow> (node_id option, storage_error) result" where
  "duckdb_load_voted_for sql c =
     (case query (rq_select_voted_for sql c) of
        Err e \<Rightarrow> Err e
      | Ok (Some name, Some inc) \<Rightarrow> Ok (Some (NodeId name inc))
      | Ok (None, None) \<Rightarrow> Ok None
      | Ok _ \<Rightarrow> Err (Load ''raft_meta.voted_for_name and voted_for_incarnation are inconsistent''))"

fun insert_log_rows :: "('c, 'x) raft_sql \<Rightarrow> u64 \<Rightarrow> (u64 \<times> string) list \<Rightarrow> 'x \<Rightarrow> ('x, string) result" where
  "insert_log_rows sql idx [] x = Ok x"
| "insert_log_rows sql idx ((t, v) # rows) x =
     try_bind (rq_insert_log sql idx t v x) (insert_log_rows sql (idx + 1) rows)"

text \<open>A transaction that is not committed is rolled back.\<close>

definition duckdb_append_log ::
  "('c, 'x) raft_sql \<Rightarrow> 'v json \<Rightarrow> 'v log_entry list \<Rightarrow> 'c \<Rightarrow> (unit, storage_error) result \<times> 'c" where
  "duckdb_append_log sql json entries c =
     (case serialize_entries json entries of
        Err e \<Rightarrow> (Err (Persist e), c)
      | Ok serialized \<Rightarrow>
          if serialized = [] then (Ok (), c)
          else
            (case try_bind (rq_transaction sql c) (\<lambda>x.
                    try_bind (rq_next_index sql x) (\<lambda>next_index. insert_log_rows sql next_index serialized x)) of
               Err e \<Rightarrow> (Err (Persist e), c)
             | Ok x' \<Rightarrow>
                 (case rq_commit sql x' of (Ok u, c') \<Rightarrow> (Ok u, c') | (Err e, c') \<Rightarrow> (Err (Persist e), c'))))"

definition duckdb_truncate_log_from :: "('c, 'x) raft_sql \<Rightarrow> u64 \<Rightarrow> 'c \<Rightarrow> (unit, storage_error) result \<times> 'c" where
  "duckdb_truncate_log_from sql index = execute (rq_delete_log_from sql index)"

definition duckdb_load_log :: "('c, 'x) raft_sql \<Rightarrow> 'v json \<Rightarrow> 'c \<Rightarrow> ('v log_entry list, storage_error) result" where
  "duckdb_load_log sql json c =
     query (try_bind (rq_select_log sql c) (\<lambda>rows.
       load_rows (\<lambda>(t, raw). try_bind (js_from_str json raw) (\<lambda>v. Ok (LogEntry t v))) rows []))"

definition duckdb_save_commit_index :: "('c, 'x) raft_sql \<Rightarrow> u64 option \<Rightarrow> 'c \<Rightarrow> (unit, storage_error) result \<times> 'c" where
  "duckdb_save_commit_index sql ci = execute (rq_update_commit_index sql ci)"

definition duckdb_load_commit_index :: "('c, 'x) raft_sql \<Rightarrow> 'c \<Rightarrow> (u64 option, storage_error) result" where
  "duckdb_load_commit_index sql c = query (rq_select_commit_index sql c)"

definition duckdb_raft_ops :: "('c, 'x) raft_sql \<Rightarrow> 'v json \<Rightarrow> ('c, 'v) raft_storage" where
  "duckdb_raft_ops sql json =
     \<lparr>rs_save_decision = duckdb_save_decision (rq_upsert_decision sql) json,
      rs_load_decisions = duckdb_load_decisions (rq_select_decisions sql) json,
      rs_save_term = duckdb_save_term sql, rs_load_term = duckdb_load_term sql,
      rs_save_voted_for = duckdb_save_voted_for sql, rs_load_voted_for = duckdb_load_voted_for sql,
      rs_append_log = duckdb_append_log sql json, rs_truncate_log_from = duckdb_truncate_log_from sql,
      rs_load_log = duckdb_load_log sql json,
      rs_save_commit_index = duckdb_save_commit_index sql, rs_load_commit_index = duckdb_load_commit_index sql\<rparr>"

section \<open>What is relied on\<close>

text \<open>
  The contents of the tables. \<open>raft_meta\<close> has the row \<open>id = 0\<close> once it is seeded; before the schema is
  created the tables are taken to be empty.
\<close>

record meta_row =
  mr_term :: u64
  mr_voted_for_name :: "string option"
  mr_voted_for_incarnation :: "u64 option"
  mr_commit_index :: "u64 option"

record duck_contents =
  dk_decisions :: "u64 \<rightharpoonup> string"
  dk_meta :: "meta_row option"
  dk_log :: "u64 \<rightharpoonup> u64 \<times> string"

definition meta_seed :: meta_row where
  "meta_seed = \<lparr>mr_term = 0, mr_voted_for_name = None, mr_voted_for_incarnation = None, mr_commit_index = None\<rparr>"

locale duckdb_raft = json_codec json for json :: "'v json" +
  fixes sql :: "('c, 'x) raft_sql"
    and view :: "'c \<Rightarrow> duck_contents"
    and xview :: "'x \<Rightarrow> duck_contents"
  assumes schema: "rq_schema sql c = (Ok (), c') \<Longrightarrow> view c' = view c"
    and seed: "rq_seed_meta sql c = (Ok (), c') \<Longrightarrow>
      view c' = dk_meta_update (\<lambda>m. case m of None \<Rightarrow> Some meta_seed | Some r \<Rightarrow> Some r) (view c)"
    and upsert: "rq_upsert_decision sql slot raw c = (Ok (), c') \<Longrightarrow> view c' = dk_decisions_update (\<lambda>m. m(slot \<mapsto> raw)) (view c)"
    and select_decisions: "rq_select_decisions sql c = Ok (map Ok rows) \<Longrightarrow>
      distinct (map fst rows) \<and> map_of rows = dk_decisions (view c)"
    and update_term: "rq_update_term sql t c = (Ok (), c') \<Longrightarrow>
      view c' = dk_meta_update (map_option (mr_term_update (\<lambda>_. t))) (view c)"
    and select_term: "rq_select_term sql c = Ok t \<Longrightarrow> map_option mr_term (dk_meta (view c)) = Some t"
    and update_voted_for: "rq_update_voted_for sql name inc c = (Ok (), c') \<Longrightarrow>
      view c' = dk_meta_update (map_option (mr_voted_for_name_update (\<lambda>_. name) \<circ> mr_voted_for_incarnation_update (\<lambda>_. inc))) (view c)"
    and select_voted_for: "rq_select_voted_for sql c = Ok (name, inc) \<Longrightarrow>
      map_option (\<lambda>r. (mr_voted_for_name r, mr_voted_for_incarnation r)) (dk_meta (view c)) = Some (name, inc)"
    and transaction: "rq_transaction sql c = Ok x \<Longrightarrow> xview x = view c"
    and max_index: "rq_next_index sql x = Ok n \<Longrightarrow> finite (dom (dk_log (xview x))) \<Longrightarrow>
      n = (if dom (dk_log (xview x)) = {} then 0 else Max (dom (dk_log (xview x))) + 1)"
    and insert_log: "rq_insert_log sql idx t raw x = Ok x' \<Longrightarrow> xview x' = dk_log_update (\<lambda>m. m(idx \<mapsto> (t, raw))) (xview x)"
    and commit_log: "rq_commit sql x = (Ok (), c) \<Longrightarrow> view c = xview x"
    and delete_log: "rq_delete_log_from sql i c = (Ok (), c') \<Longrightarrow> view c' = dk_log_update (\<lambda>m. m |` {..<i}) (view c)"
    and select_log: "rq_select_log sql c = Ok (map Ok rows) \<Longrightarrow> finite (dom (dk_log (view c))) \<Longrightarrow>
      rows = map (\<lambda>i. the (dk_log (view c) i)) (sorted_list_of_set (dom (dk_log (view c))))"
    and update_commit_index: "rq_update_commit_index sql ci c = (Ok (), c') \<Longrightarrow>
      view c' = dk_meta_update (map_option (mr_commit_index_update (\<lambda>_. ci))) (view c)"
    and select_commit_index: "rq_select_commit_index sql c = Ok ci \<Longrightarrow> map_option mr_commit_index (dk_meta (view c)) = Some ci"

text \<open>The same contents in the tables of the redb storage: what the two backends agree on.\<close>

definition meta_vote :: "meta_row \<Rightarrow> (string \<times> u64) option" where
  "meta_vote r = (case (mr_voted_for_name r, mr_voted_for_incarnation r) of (Some name, Some inc) \<Rightarrow> Some (name, inc) | _ \<Rightarrow> None)"

definition as_tables :: "duck_contents \<Rightarrow> raft_contents" where
  "as_tables t =
     \<lparr>ct_decisions = dk_decisions t, ct_log = dk_log t,
      ct_term = Map.empty(META_KEY := map_option mr_term (dk_meta t)),
      ct_voted_for = Map.empty(META_KEY := Option.bind (dk_meta t) meta_vote),
      ct_commit_index = Map.empty(META_KEY := Option.bind (dk_meta t) mr_commit_index)\<rparr>"

definition duck_ok :: "duck_contents \<Rightarrow> bool" where
  "duck_ok t \<longleftrightarrow> dk_meta t \<noteq> None \<and> contents_ok (as_tables t)"

lemma as_tables_sel [simp]:
  "ct_log (as_tables t) = dk_log t" "ct_decisions (as_tables t) = dk_decisions t"
  by (simp_all add: as_tables_def)

lemma as_tables_log: "as_tables (dk_log_update h t) = ct_log_update h (as_tables t)"
  by (cases t) (simp add: as_tables_def)

lemma as_tables_decisions: "as_tables (dk_decisions_update h t) = ct_decisions_update h (as_tables t)"
  by (cases t) (simp add: as_tables_def)

lemma duck_ok_meta:
  assumes "duck_ok t" and "\<And>m. h (Some m) \<noteq> None"
  shows "duck_ok (dk_meta_update h t)"
  using assms by (cases t) (auto simp: duck_ok_def contents_ok_def log_rows_def as_tables_def)

lemma durable_meta:
  assumes "dk_meta t = Some m"
  shows "dur_term (contents_durable json (as_tables t)) = mr_term m"
    and "dur_voted_for (contents_durable json (as_tables t)) = map_option (\<lambda>(name, inc). NodeId name inc) (meta_vote m)"
    and "dur_commit_index (contents_durable json (as_tables t)) = mr_commit_index m"
  using assms by (simp_all add: contents_durable_def as_tables_def)

lemma durable_meta_update:
  assumes "dk_meta t = Some m"
  shows "contents_durable json (as_tables (dk_meta_update (map_option (mr_term_update (\<lambda>_. n))) t))
      = (contents_durable json (as_tables t))\<lparr>dur_term := n\<rparr>"
    and "contents_durable json (as_tables (dk_meta_update (map_option (mr_commit_index_update (\<lambda>_. ci))) t))
      = (contents_durable json (as_tables t))\<lparr>dur_commit_index := ci\<rparr>"
    and "contents_durable json (as_tables (dk_meta_update
        (map_option (mr_voted_for_name_update (\<lambda>_. map_option nid_name vf) \<circ> mr_voted_for_incarnation_update (\<lambda>_. map_option nid_incarnation vf))) t))
      = (contents_durable json (as_tables t))\<lparr>dur_voted_for := vf\<rparr>"
  using assms by (cases t, cases m, cases vf; simp add: contents_durable_def as_tables_def log_rows_def meta_vote_def)+

lemma seeded:
  assumes "contents_ok (as_tables t)"
  shows "duck_ok (dk_meta_update (\<lambda>m. case m of None \<Rightarrow> Some meta_seed | Some r \<Rightarrow> Some r) t)
    \<and> contents_durable json (as_tables (dk_meta_update (\<lambda>m. case m of None \<Rightarrow> Some meta_seed | Some r \<Rightarrow> Some r) t))
      = contents_durable json (as_tables t)"
proof (cases "dk_meta t")
  case None
  with assms show ?thesis
    by (cases t) (simp add: duck_ok_def contents_ok_def contents_durable_def log_rows_def as_tables_def meta_seed_def meta_vote_def)
next
  case (Some m)
  with assms show ?thesis by (cases t) (simp add: duck_ok_def)
qed

lemma execute_Ok [simp]: "execute stmt c = (Ok (), c') \<longleftrightarrow> stmt c = (Ok (), c')"
  by (auto simp: execute_def split: result.splits prod.splits)

lemma query_Ok [simp]: "query r = Ok a \<longleftrightarrow> r = Ok a"
  by (auto simp: query_def split: result.splits)

lemma duckdb_decisions_loaded:
  assumes "duckdb_load_decisions select json c = Ok ds"
    and sel: "\<And>rows. select c = Ok (map Ok rows) \<Longrightarrow> distinct (map fst rows) \<and> map_of rows = m"
  shows "map_of ds = (\<lambda>slot. map_option (json_decoded json) (m slot)) \<and> distinct (map fst ds)"
proof -
  let ?decode = "\<lambda>(slot, raw). try_bind (js_from_str json raw) (\<lambda>v. Ok (slot, v))"
  obtain entries where 1: "select c = Ok entries" "load_rows ?decode entries [] = Ok ds"
    using assms(1) by (auto simp: duckdb_load_decisions_def)
  obtain rows where rows: "entries = map Ok rows" "list_all2 (\<lambda>row y. ?decode row = Ok y) rows ds"
    using load_rows_all [OF 1(2)] by auto
  from rows(2) have ds: "ds = map (\<lambda>(slot, raw). (slot, json_decoded json raw)) rows" by induction auto
  have "map fst ds = map fst rows" by (simp add: ds case_prod_unfold comp_def)
  moreover have "map_of ds = (\<lambda>slot. map_option (json_decoded json) (map_of rows slot))" by (simp add: ds map_of_map comp_def)
  ultimately show ?thesis using sel [OF 1(1) [unfolded rows(1)]] by simp
qed


section \<open>The Raft state is kept\<close>

context duckdb_raft
begin

lemma insert_log_rows_view:
  "insert_log_rows sql idx rows x = Ok x' \<Longrightarrow> xview x' = dk_log_update (with_rows idx rows) (xview x)"
proof (induction rows arbitrary: idx x)
  case Nil
  then show ?case by (cases "xview x") simp
next
  case (Cons row rows)
  obtain t raw where row: "row = (t, raw)" by (cases row)
  obtain x1 where x1: "rq_insert_log sql idx t raw x = Ok x1" "insert_log_rows sql (idx + 1) rows x1 = Ok x'"
    using Cons.prems by (auto simp: row)
  from Cons.IH [OF x1(2)] insert_log [OF x1(1)] show ?case by (simp add: row with_rows_Cons [simplified] comp_def)
qed

lemma append_log_view:
  assumes "duck_ok (view c)" and "duckdb_append_log sql json es c = (Ok (), c')"
  shows "\<exists>rows. map (decoded_row json) rows = es \<and> view c' = dk_log_update (with_rows (log_rows (as_tables (view c))) rows) (view c)"
proof -
  let ?n = "log_rows (as_tables (view c))"
  obtain rows where rows: "serialize_entries json es = Ok rows" using assms(2) by (auto simp: duckdb_append_log_def split: result.splits)
  have es: "map (decoded_row json) rows = es" using serialized_entries [OF rows] by (simp add: decoded_row_def)
  have dom: "dom (dk_log (view c)) = {..<?n}" using assms(1) by (simp add: duck_ok_def contents_ok_def)
  have "view c' = dk_log_update (with_rows ?n rows) (view c)"
  proof (cases "rows = []")
    case True
    with assms(2) rows have "c' = c" by (simp add: duckdb_append_log_def)
    with True show ?thesis by (cases "view c") auto
  next
    case False
    then obtain x n x' where x: "rq_transaction sql c = Ok x" "rq_next_index sql x = Ok n"
      "insert_log_rows sql n rows x = Ok x'" "rq_commit sql x' = (Ok (), c')"
      using assms(2) rows by (auto simp: duckdb_append_log_def split: result.splits prod.splits)
    have max: "Max {..<Suc k} = k" for k :: nat by (rule Max_eqI) auto
    have "n = (if {..<?n} = {} then 0 else Max {..<?n} + 1)" using max_index [OF x(2)] transaction [OF x(1)] dom by simp
    then have "n = ?n" using max by (cases ?n) (auto simp: lessThan_empty_iff)
    then show ?thesis using insert_log_rows_view [OF x(3)] transaction [OF x(1)] commit_log [OF x(4)] by simp
  qed
  with es show ?thesis by blast
qed

lemma load_log_view:
  assumes "duck_ok (view c)" and "duckdb_load_log sql json c = Ok l"
  shows "l = dur_log (contents_durable json (as_tables (view c)))"
proof -
  let ?n = "log_rows (as_tables (view c))" and ?decode = "\<lambda>(t, raw). try_bind (js_from_str json raw) (\<lambda>v. Ok (LogEntry t v))"
  have dom: "dom (dk_log (view c)) = {..<?n}" using assms(1) by (simp add: duck_ok_def contents_ok_def)
  obtain entries where 1: "rq_select_log sql c = Ok entries" "load_rows ?decode entries [] = Ok l"
    using assms(2) by (auto simp: duckdb_load_log_def)
  obtain rows where rows: "entries = map Ok rows" "list_all2 (\<lambda>row y. ?decode row = Ok y) rows l"
    using load_rows_all [OF 1(2)] by auto
  from rows(2) have "l = map (decoded_row json) rows" by induction (auto simp: decoded_row_def)
  moreover have "rows = map (\<lambda>i. the (dk_log (view c) i)) [0..<?n]"
    using select_log [OF 1(1) [unfolded rows(1)]] by (simp add: dom lessThan_atLeast0)
  ultimately show ?thesis by (simp add: contents_durable_def)
qed

end

sublocale duckdb_raft < raft: raft_storage_contract "duckdb_raft_ops sql json" "\<lambda>c. duck_ok (view c)"
  "\<lambda>c. contents_durable json (as_tables (view c))" "\<lambda>v. v"
proof (unfold_locales, unfold duckdb_raft_ops_def raft_storage.simps, goal_cases)
  case (1 c slot v c')
  then obtain raw where "js_to_string json v = Ok raw" "rq_upsert_decision sql slot raw c = (Ok (), c')"
    by (auto simp: duckdb_save_decision_def split: result.splits)
  with 1(1) upsert json_roundtrip show ?case
    by (auto simp: duck_ok_def contents_ok_def contents_durable_def log_rows_def as_tables_decisions as_tables_def)
next
  case (2 c ds)
  then show ?case using duckdb_decisions_loaded [OF 2(2) select_decisions] by (simp add: contents_durable_def)
next
  case (3 c t c')
  then obtain m where m: "dk_meta (view c) = Some m" by (auto simp: duck_ok_def)
  have v: "view c' = dk_meta_update (map_option (mr_term_update (\<lambda>_. t))) (view c)" using 3(2) update_term by (simp add: duckdb_save_term_def)
  show ?case unfolding v using duck_ok_meta [OF 3(1)] durable_meta_update(1) [OF m] by simp
next
  case (4 c t)
  then show ?case using select_term [of c t] durable_meta(1) [of "view c" _ json] by (auto simp: duckdb_load_term_def duck_ok_def)
next
  case (5 c vf c')
  then obtain m where m: "dk_meta (view c) = Some m" by (auto simp: duck_ok_def)
  have "rq_update_voted_for sql (map_option nid_name vf) (map_option nid_incarnation vf) c = (Ok (), c')"
    using 5(2) by (cases vf) (simp_all add: duckdb_save_voted_for_def)
  from update_voted_for [OF this] show ?case using duck_ok_meta [OF 5(1)] durable_meta_update(3) [OF m] by simp
next
  case (6 c vf)
  then obtain m where m: "dk_meta (view c) = Some m" by (auto simp: duck_ok_def)
  obtain name inc where q: "rq_select_voted_for sql c = Ok (name, inc)" using 6(2) by (auto simp: duckdb_load_voted_for_def query_def split: result.splits)
  with select_voted_for [OF q] m 6(2) show ?case using durable_meta(2) [OF m, of json]
    by (auto simp: duckdb_load_voted_for_def query_def meta_vote_def split: option.splits)
next
  case (7 c es c')
  then obtain rows where rows: "map (decoded_row json) rows = es" "view c' = dk_log_update (with_rows (log_rows (as_tables (view c))) rows) (view c)"
    using append_log_view by blast
  have ok: "contents_ok (as_tables (view c))" using 7(1) by (simp add: duck_ok_def)
  show ?case using with_rows_durable(1) [OF ok refl] with_rows_durable(2) [OF ok refl, of json rows] 7(1)
    by (simp add: rows duck_ok_def as_tables_log flip: rows(1))
next
  case (8 c i c')
  then have v: "view c' = dk_log_update (\<lambda>m. m |` {..<i}) (view c)" using delete_log by (simp add: duckdb_truncate_log_from_def)
  have ok: "contents_ok (as_tables (view c))" using 8(1) by (simp add: duck_ok_def)
  show ?case using cut_rows_durable(1) [OF ok refl] cut_rows_durable(2) [OF ok refl, of json i] 8(1)
    by (simp add: v duck_ok_def as_tables_log)
next
  case (9 c l)
  then show ?case by (rule load_log_view)
next
  case (10 c ci c')
  then obtain m where m: "dk_meta (view c) = Some m" by (auto simp: duck_ok_def)
  have v: "view c' = dk_meta_update (map_option (mr_commit_index_update (\<lambda>_. ci))) (view c)"
    using 10(2) update_commit_index by (simp add: duckdb_save_commit_index_def)
  show ?case unfolding v using duck_ok_meta [OF 10(1)] durable_meta_update(2) [OF m] by simp
next
  case (11 c ci)
  then show ?case using select_commit_index [of c ci] durable_meta(3) [of "view c" _ json] by (auto simp: duckdb_load_commit_index_def duck_ok_def)
qed simp

context duckdb_raft
begin

lemmas contract_of = raft.raft_storage_contract_axioms

lemma open_keeps:
  assumes "contents_ok (as_tables (view c))" and "duckdb_raft_from_connection sql c = (Ok (), c')"
  shows "duck_ok (view c') \<and> contents_durable json (as_tables (view c')) = contents_durable json (as_tables (view c))"
proof -
  obtain c1 where "rq_schema sql c = (Ok (), c1)" "rq_seed_meta sql c1 = (Ok (), c')"
    using assms(2) by (auto simp: duckdb_raft_from_connection_def execute_def split: result.splits prod.splits)
  then have v: "view c' = dk_meta_update (\<lambda>m. case m of None \<Rightarrow> Some meta_seed | Some r \<Rightarrow> Some r) (view c)"
    using schema seed by simp
  show ?thesis using seeded [OF assms(1)] unfolding v by blast
qed

end

section \<open>Paxos decisions are kept\<close>

locale duckdb_paxos = json_codec json for json :: "'v json" +
  fixes sql :: "'c paxos_sql"
    and view :: "'c \<Rightarrow> u64 \<rightharpoonup> string"
  assumes paxos_schema: "pq_schema sql c = (Ok (), c') \<Longrightarrow> view c' = view c"
    and paxos_upsert: "pq_upsert_decision sql slot raw c = (Ok (), c') \<Longrightarrow> view c' = (view c)(slot \<mapsto> raw)"
    and paxos_select: "pq_select_decisions sql c = Ok (map Ok rows) \<Longrightarrow> distinct (map fst rows) \<and> map_of rows = view c"

sublocale duckdb_paxos < paxos: paxos_storage_contract "duckdb_paxos_ops sql json" "\<lambda>_. True"
  "\<lambda>c slot. map_option (json_decoded json) (view c slot)" "\<lambda>v. v"
proof
  fix c c' slot v
  assume "ps_save_decision (duckdb_paxos_ops sql json) slot v c = (Ok (), c')"
  then obtain raw where "js_to_string json v = Ok raw" "pq_upsert_decision sql slot raw c = (Ok (), c')"
    by (auto simp: duckdb_paxos_ops_def duckdb_save_decision_def split: result.splits)
  then show "True \<and> (\<lambda>slot. map_option (json_decoded json) (view c' slot)) = (\<lambda>slot. map_option (json_decoded json) (view c slot))(slot \<mapsto> v)"
    using paxos_upsert json_roundtrip by (auto simp: fun_eq_iff)
next
  fix c ds
  assume "ps_load_decisions (duckdb_paxos_ops sql json) c = Ok ds"
  then have "duckdb_load_decisions (pq_select_decisions sql) json c = Ok ds" by (simp add: duckdb_paxos_ops_def)
  from duckdb_decisions_loaded [OF this paxos_select]
  show "map_of ds = (\<lambda>slot. map_option (json_decoded json) (view c slot)) \<and> distinct (map fst ds)" .
qed

section \<open>A database that behaves as relied on\<close>

definition ref_select :: "(u64 \<rightharpoonup> string) \<Rightarrow> ((u64 \<times> string, string) result list, string) result" where
  "ref_select m = (if finite (dom m) then Ok (map (\<lambda>k. Ok (k, the (m k))) (sorted_list_of_set (dom m))) else Err ''corrupt'')"

definition missing :: "'a option \<Rightarrow> ('a, string) result" where
  "missing x = (case x of Some a \<Rightarrow> Ok a | None \<Rightarrow> Err ''no row'')"

definition ref_raft_sql :: "(duck_contents, duck_contents) raft_sql" where
  "ref_raft_sql =
     \<lparr>rq_schema = Pair (Ok ()),
      rq_seed_meta = (\<lambda>c. (Ok (), dk_meta_update (\<lambda>m. case m of None \<Rightarrow> Some meta_seed | Some r \<Rightarrow> Some r) c)),
      rq_upsert_decision = (\<lambda>slot raw c. (Ok (), dk_decisions_update (\<lambda>m. m(slot \<mapsto> raw)) c)),
      rq_select_decisions = (\<lambda>c. ref_select (dk_decisions c)),
      rq_update_term = (\<lambda>t c. (Ok (), dk_meta_update (map_option (mr_term_update (\<lambda>_. t))) c)),
      rq_select_term = (\<lambda>c. missing (map_option mr_term (dk_meta c))),
      rq_update_voted_for = (\<lambda>name inc c.
        (Ok (), dk_meta_update (map_option (mr_voted_for_name_update (\<lambda>_. name) \<circ> mr_voted_for_incarnation_update (\<lambda>_. inc))) c)),
      rq_select_voted_for = (\<lambda>c. missing (map_option (\<lambda>r. (mr_voted_for_name r, mr_voted_for_incarnation r)) (dk_meta c))),
      rq_transaction = Ok,
      rq_next_index = (\<lambda>x. Ok (if dom (dk_log x) = {} then 0 else Max (dom (dk_log x)) + 1)),
      rq_insert_log = (\<lambda>idx t raw x. Ok (dk_log_update (\<lambda>m. m(idx \<mapsto> (t, raw))) x)),
      rq_commit = (\<lambda>x. (Ok (), x)),
      rq_delete_log_from = (\<lambda>i c. (Ok (), dk_log_update (\<lambda>m. m |` {..<i}) c)),
      rq_select_log = (\<lambda>c. Ok (map (\<lambda>i. Ok (the (dk_log c i))) (sorted_list_of_set (dom (dk_log c))))),
      rq_update_commit_index = (\<lambda>ci c. (Ok (), dk_meta_update (map_option (mr_commit_index_update (\<lambda>_. ci))) c)),
      rq_select_commit_index = (\<lambda>c. missing (map_option mr_commit_index (dk_meta c)))\<rparr>"

definition ref_paxos_sql :: "(u64 \<rightharpoonup> string) paxos_sql" where
  "ref_paxos_sql = \<lparr>pq_schema = Pair (Ok ()), pq_upsert_decision = (\<lambda>slot raw c. (Ok (), c(slot \<mapsto> raw))), pq_select_decisions = ref_select\<rparr>"

lemma missing_Ok [simp]: "missing x = Ok a \<longleftrightarrow> x = Some a"
  by (cases x) (simp_all add: missing_def)

lemma ref_selected: "ref_select m = Ok (map Ok rows) \<Longrightarrow> distinct (map fst rows) \<and> map_of rows = m"
  using ref_iter [of m rows] by (auto simp: ref_select_def strict_sorted_iff split: if_splits)

lemma map_Ok_inj: "map (\<lambda>i. Ok (g i)) xs = map (Ok :: _ \<Rightarrow> (_, string) result) ys \<Longrightarrow> ys = map g xs"
proof -
  assume "map (\<lambda>i. Ok (g i)) xs = map (Ok :: _ \<Rightarrow> (_, string) result) ys"
  then have "map (Ok :: _ \<Rightarrow> (_, string) result) (map g xs) = map Ok ys" by (simp add: comp_def)
  then show "ys = map g xs" by (simp only: inj_map_eq_map inj_def result.inject simp_thms)
qed

interpretation ref_duck: duckdb_raft ref_json ref_raft_sql "\<lambda>c. c" "\<lambda>x. x"
  by unfold_locales (auto simp: ref_raft_sql_def ref_selected map_Ok_inj)

interpretation ref_duck_paxos: duckdb_paxos ref_json ref_paxos_sql "\<lambda>c. c"
  by unfold_locales (auto simp: ref_paxos_sql_def dest!: ref_selected)

section \<open>Properties\<close>



end
