(* ===== verification/Spec2Isabelle.thy ===== *)
theory Spec2Isabelle
  imports NodeCluster PaxosRun Client DemoNode Transport DuckdbStorage
begin

text \<open>
  A verification of the consensus library daccord (\<open>src/daccord\<close>), its client (\<open>src/daccord-client\<close>)
  and its demo service (\<open>src/daccord-demo\<close>).

  \<^bold>\<open>The program.\<close> A node (\<open>node.rs\<close>) runs one of two protocols, Paxos (\<open>protocol/paxos.rs\<close>) or Raft
  (\<open>protocol/raft.rs\<close>), behind one interface (\<open>protocol/mod.rs\<close>). Its loop takes proposals, messages
  and ticks; after each it lets the protocol persist (\<open>storage.rs\<close>, through the adapters of
  \<open>proposal.rs\<close>), sends what the protocol wants sent over a transport, and delivers decisions to
  subscribers and callers. The demo service keeps the decisions in a log and serves it over gRPC to
  the client.

  \<^bold>\<open>Conventions.\<close> A struct is a record, an enum a datatype, a method a function from state to state and
  outputs. A panic is \<^const>\<open>None\<close>; a \<open>Result\<close> is the type of \<open>Prelude\<close> with the constructors \<open>Ok\<close> and
  \<open>Err\<close>. A \<open>u64\<close> is a natural number with its wrap-around written out. The clock and random draws are
  arguments (\<open>env\<close>). A \<open>HashMap\<close> is an association list with distinct keys. Tokio's channels and timers
  appear as events that a loop takes and effects that it has. Third-party code (redb, DuckDB,
  \<open>serde_json\<close>, tonic, the operating system's sockets) is a parameter, with what is relied on as the
  assumptions of a locale or as hypotheses.

  \<^bold>\<open>The model\<close>, theory by theory:
  \<^item> \<open>Prelude\<close>: results, integers, hash maps, quorums (locale \<open>quorum_system\<close>) and generic facts.
  \<^item> \<open>Config\<close>, \<open>Messages\<close>: \<open>config.rs\<close>, \<open>error.rs\<close>, \<open>message/\<close>.
  \<^item> \<open>Storage\<close>: the traits of \<open>storage.rs\<close> as records of operations, their contracts (locales
    \<open>paxos_storage_contract\<close>, \<open>raft_storage_contract\<close>), the in-memory storages, which interpret them.
    \<open>Proposal\<close>: the adapters of \<open>proposal.rs\<close>, which carry the contracts over (sublocales).
  \<^item> \<open>RedbStorage\<close>, \<open>DuckdbStorage\<close>: \<open>redb_storage.rs\<close> and \<open>duckdb_storage.rs\<close> over a parametric
    database; both meet the contracts.
  \<^item> \<open>RaftProtocol\<close>, \<open>PaxosProtocol\<close>: every operation of the two protocols; the \<open>multi-paxos\<close> feature is
    a flag of the state. \<open>Protocol\<close>: the dispatch. \<open>Node\<close>: construction, pending map, loop, handle.
  \<^item> \<open>Transport\<close>: \<open>transport/tcp.rs\<close> (repeated in \<open>uds.rs\<close>) and \<open>transport/channel.rs\<close>.
  \<^item> \<open>DemoService\<close>, \<open>DemoNode\<close>, \<open>Client\<close>: \<open>service.rs\<close>, the configuration of \<open>node.rs\<close>, and the client.

  \<^bold>\<open>What is shown.\<close>
  \<^item> Raft. \<open>RaftSpec\<close> and \<open>RaftSafety\<close> prove an abstract cluster safe; \<open>RaftRefine\<close> shows that the
    operations of a node implement its steps, \<open>RaftPersist\<close> that flushing is complete. \<open>RaftCluster\<close>
    (a network that loses, duplicates and reorders) and \<open>RaftFifo\<close> (lossy channels that keep the order)
    lift this to clusters with restarts, over any storage that meets its contract, and \<open>NodeCluster\<close>
    to whole nodes. The properties of clusters are in this theory, those of single operations in
    \<open>RaftProps\<close>. Election safety and log matching hold on any network; agreement on decisions is
    proved for channels that keep the order, because a late AppendEntries truncates the log
    (\<open>late_append_drops_committed\<close>).
  \<^item> Paxos. \<open>PaxosLocal\<close> and \<open>PaxosProps\<close> treat single nodes: the invariant, the rules of acceptor and
    proposer, the fate of a proposal, panics. \<open>PaxosRecovery\<close>: restart and leader election.
    \<open>PaxosSpec\<close> proves an abstract ballot protocol safe; \<open>PaxosCluster\<close> shows that the default build
    implements it in runs that respect four checks the code omits, and \<open>PaxosRun\<close> that without them
    nodes can disagree or panic. Clusters with leaders (\<open>multi-paxos\<close>) are modelled but not proved to
    agree.
  \<^item> Nodes. \<open>NodeProps\<close>: every submission is answered once and by the right decision; a node ignores
    foreign and malformed messages and sends only its own protocol's.
  \<^item> Service and client. The watch stream and pages have no gaps and no duplicates, also across
    reconnections; a status survives the wire; messages cross the transport intact and in order on
    each connection.
  \<^item> \<open>RaftRun\<close>, \<open>PaxosRun\<close> and the end of \<open>NodeCluster\<close> execute concrete runs, which the witnesses use.

  \<^bold>\<open>Bounds.\<close> There is no fuel: every recursion terminates, loops that wait for the outside run over a
  given list of events, and safety is stated over all finite runs. Positions in a \<open>Vec\<close> and rows of a
  table are far below \<open>2 ^ 64\<close>, so arithmetic on them is exact; elsewhere statements about counters
  ask for room below \<open>u64::MAX\<close>.

  \<^bold>\<open>Not modelled.\<close> The tokio runtime and the capacity of its channels, serde's encodings, tonic, opening
  of databases and sockets, removal of socket files, start-up of the demo binary, its command line,
  test support. A crash in the middle of a flush is not a step of the clusters (a node stops before or
  after one), and a node does not continue after a storage error, as in the code.
\<close>

section \<open>Raft clusters\<close>

text \<open>
  C1. State machine safety. In a cluster of Raft nodes over lossy first-in first-out channels, with
  any storage that meets its contract and nodes that restart at will, two nodes never decide
  different values for a slot - whether the decisions are stored or still to be drained, and even
  when they are observed at different times of the run. (Values are compared as the storage keeps
  them.)
\<close>

theorem raft_state_machine_safety:
  assumes "raft_storage_contract ops swf durable norm" and "fcluster_init swf durable N f0"
    and "(fstep ops N)\<^sup>*\<^sup>* f0 f" and "(fstep ops N)\<^sup>*\<^sup>* f f'" and "finite N" and "n \<in> N" and "m \<in> N"
    and "node_decided durable norm (f_node f n) slot v" and "node_decided durable norm (f_node f' m) slot w"
  shows "v = w"
  by (rule raft_storage_contract.fcluster_state_machine_safety [OF assms])

theorem raft_state_machine_safety_witness:
  "(fstep raft_memory_ops trio)\<^sup>*\<^sup>* fcluster0 fcluster1
   \<and> the (dur_decisions (rm_durable (r_storage (f_node fcluster1 n1))) 0)
     = the (dur_decisions (rm_durable (r_storage (f_node fcluster1 n2))) 0)"
proof
  show "(fstep raft_memory_ops trio)\<^sup>*\<^sup>* fcluster0 fcluster1" by (rule run1_steps)
  show "the (dur_decisions (rm_durable (r_storage (f_node fcluster1 n1))) 0)
     = the (dur_decisions (rm_durable (r_storage (f_node fcluster1 n2))) 0)"
    by (rule raft_state_machine_safety [where slot = 0, OF raft_memory.raft_storage_contract_axioms fcluster0_init run1_steps
          rtranclp.rtrancl_refl trio_finite(1-3)])
       (simp_all add: node_decided_def run1_state)
qed

text \<open>
  C2. Agreement between nodes. In a cluster of whole nodes - event loops that encode and exchange
  messages over lossy first-in first-out channels, take submissions, tick, restart over their user
  storage and propose lost values again - two subscribers are never offered different values for a
  slot, at whichever nodes and times. (Values are compared as the user storage keeps them; of the
  encoding it is asked that what it writes it reads back.)
\<close>

theorem raft_nodes_agree:
  assumes "raft_storage_contract ops swf durable norm" and "st_raft st = pending_raft_storage ops"
    and "codec_roundtrip codec" and "finite N" and "ncluster_init swf durable N c0" and "(nstep st codec N)\<^sup>*\<^sup>* c0 c"
    and "(n, Decided slot v) \<in> nc_offered c" and "(m, Decided slot w) \<in> nc_offered c"
  shows "norm v = norm w"
  by (rule pending_raft.nodes_agree [OF pending_raft.intro [OF assms(1)] assms(5,6,4,2,3,7,8)])

theorem raft_nodes_agree_witness:
  "(nstep memory_storages plain_codec trio)\<^sup>*\<^sup>* ncluster0 ncluster1 \<and> (n1, Decided 0 7) \<in> nc_offered ncluster1
   \<and> {v. (n2, Decided 0 v) \<in> nc_offered ncluster1} = {7}"
proof (intro conjI)
  have "v = 7" if "(n2, Decided 0 v) \<in> nc_offered ncluster1" for v
    by (rule raft_nodes_agree [OF raft_memory.raft_storage_contract_axioms _ plain_codec_roundtrip trio_finite(1)
          ncluster0_init nrun1_steps that nrun1_offered(1)]) (simp add: memory_storages_def adapted_def)
  with nrun1_offered(2) show "{v. (n2, Decided 0 v) \<in> nc_offered ncluster1} = {7}" by blast
qed (rule nrun1_steps, rule nrun1_offered)

text \<open>
  C3. Election safety. Over a network that may lose, duplicate and reorder messages, and with nodes
  that restart at will, at most one node is ever the leader of a term, at any two times of a run.
\<close>

theorem raft_election_safety:
  assumes "raft_storage_contract ops swf durable norm" and "cluster_init swf durable N c0"
    and "(cstep ops N)\<^sup>*\<^sup>* c0 c" and "(cstep ops N)\<^sup>*\<^sup>* c c'" and "finite N" and "n \<in> N" and "m \<in> N"
    and "r_role (c_node c n) = Leader" and "r_role (c_node c' m) = Leader"
    and "r_current_term (c_node c n) = r_current_term (c_node c' m)"
  shows "n = m"
  by (rule raft_storage_contract.cluster_election_safety [OF assms])

theorem raft_election_safety_witness:
  "\<exists>c. (cstep raft_memory_ops trio)\<^sup>*\<^sup>* cluster0 c \<and> r_role (c_node c n1) = Leader \<and> n1 = the (r_leader (c_node c n1))"
proof -
  obtain c where c: "(cstep raft_memory_ops trio)\<^sup>*\<^sup>* cluster0 c" "c_node c = f_node fcluster1"
    using run1_unordered by blast
  have "n1 = the (r_leader (c_node c n1))"
    by (rule raft_election_safety [OF raft_memory.raft_storage_contract_axioms cluster0_init c(1) rtranclp.rtrancl_refl
          trio_finite(1,2)]) (simp_all add: c(2) run1_state)
  with c show ?thesis by (auto simp: run1_state)
qed

text \<open>
  C4. Log matching. Over the same unreliable network, two logs that agree on the term of an entry
  agree on every entry up to it.
\<close>

theorem raft_log_matching:
  assumes "raft_storage_contract ops swf durable norm" and "cluster_init swf durable N c0"
    and "(cstep ops N)\<^sup>*\<^sup>* c0 c" and "finite N" and "n \<in> N" and "m \<in> N"
    and "i < length (r_log (c_node c n))" and "i < length (r_log (c_node c m))"
    and "e_term (r_log (c_node c n) ! i) = e_term (r_log (c_node c m) ! i)"
  shows "map (map_entry norm) (take (Suc i) (r_log (c_node c n))) = map (map_entry norm) (take (Suc i) (r_log (c_node c m)))"
  by (rule raft_storage_contract.cluster_log_matching [OF assms])

theorem raft_log_matching_witness:
  "\<exists>c. (cstep raft_memory_ops trio)\<^sup>*\<^sup>* cluster0 c \<and> r_log (c_node c n1) \<noteq> [] \<and> r_log (c_node c n2) \<noteq> []
     \<and> take 1 (r_log (c_node c n1)) = take 1 (r_log (c_node c n2))"
proof -
  obtain c where c: "(cstep raft_memory_ops trio)\<^sup>*\<^sup>* cluster0 c" "c_node c = f_node fcluster1"
    using run1_unordered by blast
  have logs: "r_log (c_node c n1) = [LogEntry 1 7]" "r_log (c_node c n2) = [LogEntry 1 7]"
    by (simp_all add: c(2) run1_state)
  have "map (map_entry (\<lambda>v. v)) (take (Suc 0) (r_log (c_node c n1))) = map (map_entry (\<lambda>v. v)) (take (Suc 0) (r_log (c_node c n2)))"
    by (rule raft_log_matching [OF raft_memory.raft_storage_contract_axioms cluster0_init c(1) trio_finite(1-3)])
       (simp_all add: logs)
  with c(1) logs show ?thesis by auto
qed

text \<open>
  C5. Committed prefixes. Over first-in first-out channels, two nodes hold the same entries up to the
  smaller of their commit indexes, and both logs reach that far.
\<close>

theorem raft_committed_prefix:
  assumes "raft_storage_contract ops swf durable norm" and "fcluster_init swf durable N f0"
    and "(fstep ops N)\<^sup>*\<^sup>* f0 f" and "finite N" and "n \<in> N" and "m \<in> N"
    and "r_commit_index (f_node f n) = Some c" and "r_commit_index (f_node f m) = Some d" and "c \<le> d"
  shows "c < length (r_log (f_node f n)) \<and> c < length (r_log (f_node f m))
    \<and> map (map_entry norm) (take (Suc c) (r_log (f_node f n))) = map (map_entry norm) (take (Suc c) (r_log (f_node f m)))"
  by (rule raft_storage_contract.fcluster_committed_prefix [OF assms])

theorem raft_committed_prefix_witness:
  "0 < length (r_log (f_node fcluster1 n1)) \<and> 0 < length (r_log (f_node fcluster1 n2))
    \<and> map (map_entry (\<lambda>v. v)) (take (Suc 0) (r_log (f_node fcluster1 n1)))
      = map (map_entry (\<lambda>v. v)) (take (Suc 0) (r_log (f_node fcluster1 n2)))"
  by (rule raft_committed_prefix [OF raft_memory.raft_storage_contract_axioms fcluster0_init run1_steps trio_finite(1-3)])
     (simp_all add: run1_state)

text \<open>
  C6. Restart. In every reachable cluster a node that is created anew over its storage and recovers
  has exactly the term, the vote and the log it had in memory, as the storage keeps values: nothing
  a node has acted on is lost by a restart.
\<close>

theorem raft_restart_keeps_state:
  assumes "raft_storage_contract ops swf durable norm" and "cluster_init swf durable N c0"
    and "(cstep ops N)\<^sup>*\<^sup>* c0 c" and "finite N" and "n \<in> N"
    and "raft_new e n (card N) cfg (r_storage (c_node c n)) = Some s0" and "raft_recover ops e' s0 = Some (Ok u, s')"
  shows "r_current_term s' = r_current_term (c_node c n) \<and> r_voted_for s' = r_voted_for (c_node c n)
    \<and> r_log s' = map (map_entry norm) (r_log (c_node c n))"
  by (rule raft_storage_contract.cluster_restart_keeps [OF assms])

lemma recover_memory: "\<exists>s'. raft_recover raft_memory_ops e s = Some (Ok (), s')"
  using restore_state_total [of e "rm_term (r_storage s)" "rm_voted_for (r_storage s)" "rm_log (r_storage s)"
      "rm_decisions (r_storage s)" "rm_commit_index (r_storage s)" s]
  by (auto simp: raft_recover_def raft_memory_defs)

theorem raft_restart_keeps_state_witness:
  "\<exists>c s0 s'. (cstep raft_memory_ops trio)\<^sup>*\<^sup>* cluster0 c
     \<and> raft_new env0 n1 (card trio) cfg0 (r_storage (c_node c n1)) = Some s0 \<and> raft_recover raft_memory_ops env0 s0 = Some (Ok (), s')
     \<and> r_current_term s' = 1 \<and> r_log s' = [LogEntry 1 7]"
proof -
  obtain c where c: "(cstep raft_memory_ops trio)\<^sup>*\<^sup>* cluster0 c" "c_node c = f_node fcluster1"
    using run1_unordered by blast
  obtain s0 :: "(nat, nat raft_memory_storage) raft_protocol" where s0: "raft_new env0 n1 (card trio) cfg0 (r_storage (c_node c n1)) = Some s0"
    by (simp add: raft_new_def cfg0_def raft_config_validate_def)
  obtain s' where s': "raft_recover raft_memory_ops env0 s0 = Some (Ok (), s')" using recover_memory by blast
  from raft_restart_keeps_state [OF raft_memory.raft_storage_contract_axioms cluster0_init c(1) trio_finite(1,2) s0 s']
  have "r_current_term s' = 1 \<and> r_log s' = [LogEntry 1 7]" by (simp add: c(2) run1_state)
  with c(1) s0 s' show ?thesis by blast
qed

text \<open>
  C7. Log repair makes progress. In every reachable cluster, if the log of a follower does not hold
  the leader's entry at index \<open>p\<close>, the hint of its rejection moves the leader's next index for it
  to \<open>p\<close> or below: the next probe is strictly earlier, so repair ends after at most \<open>p + 1\<close> rounds.
\<close>

theorem raft_backoff_progress:
  assumes "raft_storage_contract ops swf durable norm" and "cluster_init swf durable N c0"
    and "(cstep ops N)\<^sup>*\<^sup>* c0 c" and "finite N" and "n \<in> N" and "m \<in> N" and p: "p < length (r_log (c_node c n))"
    and rej: "\<not> prev_ok (r_log (c_node c m)) (Some p) (e_term (r_log (c_node c n) ! p))"
    and hint: "conflict_hint (r_log (c_node c m)) (Some p) = (ct, ci)"
  shows "backoff_next_index (c_node c n) m ct ci \<le> p"
proof (cases "length (r_log (c_node c m)) \<le> p")
  case True
  with hint show ?thesis by (auto simp: conflict_hint_def backoff_next_index_def Let_def)
next
  case False
  let ?f = "r_log (c_node c m)" and ?l = "r_log (c_node c n)"
  have ne: "e_term (?f ! p) \<noteq> e_term (?l ! p)" using rej False by (simp add: prev_ok_def)
  obtain k where ct: "ct = Some (e_term (?f ! p))" "ci = Some k" "k \<le> p"
    using find_upt_ex [of p "Suc p" "\<lambda>i. e_term (?f ! i) = e_term (?f ! p)"] hint False
    by (auto simp: conflict_hint_def Let_def find_upt_Some less_Suc_eq_le simp del: upt_Suc)
  have "i < p" if "last_index_of_term ?l (e_term (?f ! p)) = Some i" for i
  proof (rule ccontr)
    assume "\<not> i < p"
    moreover from that have i: "i < length ?l" "e_term (?l ! i) = e_term (?f ! p)"
      by (auto simp: last_index_of_term_def find_Some_iff rev_nth)
    ultimately show False
      using raft_storage_contract.cluster_same_term [OF assms(1-6) i(1), of p] False ne by simp
  qed
  with ct show ?thesis
    by (auto simp: backoff_next_index_def u64_saturating_add_def Let_def Suc_le_eq split: option.split)
qed

theorem raft_backoff_progress_witness:
  "\<exists>c. (cstep raft_memory_ops trio)\<^sup>*\<^sup>* cluster0 c
     \<and> conflict_hint (r_log (c_node c n3)) (Some 0) = (None, Some 0) \<and> backoff_next_index (c_node c n1) n3 None (Some 0) \<le> 0"
proof -
  obtain c where c: "(cstep raft_memory_ops trio)\<^sup>*\<^sup>* cluster0 c" "c_node c = f_node fcluster1"
    using run1_unordered by blast
  have h: "conflict_hint (r_log (c_node c n3)) (Some 0) = (None, Some 0)" by (simp add: c(2) run1_state conflict_hint_def)
  have "backoff_next_index (c_node c n1) n3 None (Some 0) \<le> 0"
    by (rule raft_backoff_progress [OF raft_memory.raft_storage_contract_axioms cluster0_init c(1) trio_finite(1,2,4) _ _ h])
       (simp_all add: c(2) run1_state prev_ok_def)
  with c(1) h show ?thesis by blast
qed

end
